(* ===== verification/Prelude.thy ===== *)
theory Prelude
  imports Main "HOL-Library.Word"
begin

text \<open>
  Shared ground of the development: the C error values, the sequencing of
  fallible operations, machine-integer conversions that the sources use, and
  the list lemmas that model \<open>memcpy\<close>, \<open>memmove\<close> and \<open>memset\<close> on a block.

  Platform: LP64 (\<open>size_t\<close>, \<open>off_t\<close>, \<open>long\<close>, \<open>intptr_t\<close> are 64 bits wide,
  \<open>int\<close> is 32 bits wide), as on 64-bit Android, Linux and iOS.
\<close>

unbundle bit_operations_syntax

named_theorems step_defs \<open>definitions unfolded when one operation is executed symbolically\<close>
named_theorems inv_intros \<open>preservation of component invariants\<close>

type_synonym byte = "8 word"
type_synonym u32 = "32 word"
type_synonym u64 = "64 word"

section \<open>Failures of the C program\<close>

text \<open>
  \<open>AssertTrap\<close>: an enabled \<open>ASSERT\<close> of \<open>utils/__assert.h\<close> failed (the process is
  trapped). \<open>MemFault\<close>: an access outside the block an object owns.
  \<open>DivByZero\<close>: integer division by zero. \<open>OutOfMemory\<close>: an allocation the code
  relies on returned \<open>NULL\<close> and is then used. \<open>WouldBlock\<close>: the calling thread does
  not get past the call in the given state.
\<close>

datatype cerror = AssertTrap | MemFault | DivByZero | OutOfMemory | WouldBlock

type_synonym 'a cres = "cerror + 'a"

definition bindE :: "'a cres \<Rightarrow> ('a \<Rightarrow> 'b cres) \<Rightarrow> 'b cres" where
  "bindE m f = (case m of Inl e \<Rightarrow> Inl e | Inr x \<Rightarrow> f x)"

lemma bindE_simps [simp]:
  "bindE (Inl e) f = Inl e"
  "bindE (Inr x) f = f x"
  by (simp_all add: bindE_def)

lemma bindE_eq_Inr:
  "bindE m f = Inr y \<longleftrightarrow> (\<exists>x. m = Inr x \<and> f x = Inr y)"
  by (auto simp: bindE_def split: sum.splits)

lemma bindE_assoc: "bindE (bindE m f) g = bindE m (\<lambda>x. bindE (f x) g)"
  by (simp add: bindE_def split: sum.splits)

text \<open>
  \<open>ASSERT(e)\<close> of \<open>utils/__assert.h\<close>: a failed assertion is logged, and traps only while
  assertions are enabled (\<open>IS_ASSERT_ENABLE()\<close>); otherwise execution goes on.
\<close>

definition ASSERT :: "bool \<Rightarrow> bool \<Rightarrow> 'a cres \<Rightarrow> 'a cres" where
  "ASSERT enabled e k = (if e \<or> \<not> enabled then k else Inl AssertTrap)"

lemma ASSERT_simps [simp]:
  "ASSERT enabled True k = k"
  "ASSERT False e k = k"
  "ASSERT True False k = Inl AssertTrap"
  by (simp_all add: ASSERT_def)

lemma ASSERT_eq_Inr: "ASSERT ae e k = Inr x \<longleftrightarrow> (e \<or> \<not> ae) \<and> k = Inr x"
  by (simp add: ASSERT_def)

section \<open>Integer conversions\<close>

text \<open>
  A \<open>size_t\<close> is a natural number below \<open>2^64\<close> and an \<open>off_t\<close> an integer of the
  signed 64-bit range; the wrap-around of unsigned arithmetic is written out.
\<close>

abbreviation (input) SIZE_MOD :: nat where
  "SIZE_MOD \<equiv> 18446744073709551616"

definition size_add :: "nat \<Rightarrow> nat \<Rightarrow> nat" where
  "size_add a b = (a + b) mod SIZE_MOD"

definition size_sub :: "nat \<Rightarrow> nat \<Rightarrow> nat" where
  "size_sub a b = nat ((int a - int b) mod int SIZE_MOD)"

definition size_mul :: "nat \<Rightarrow> nat \<Rightarrow> nat" where
  "size_mul a b = (a * b) mod SIZE_MOD"

text \<open>The cast \<open>(size_t)x\<close> of a signed value.\<close>

definition to_size :: "int \<Rightarrow> nat" where
  "to_size x = nat (x mod int SIZE_MOD)"

text \<open>The cast of an unsigned 64-bit value to a signed one (two's complement).\<close>

definition to_off :: "nat \<Rightarrow> int" where
  "to_off n = (if n mod SIZE_MOD < 9223372036854775808 then int (n mod SIZE_MOD)
               else int (n mod SIZE_MOD) - int SIZE_MOD)"

lemma size_add_small [simp]: "a + b < SIZE_MOD \<Longrightarrow> size_add a b = a + b"
  by (simp add: size_add_def)

lemma size_mul_small [simp]: "a * b < SIZE_MOD \<Longrightarrow> size_mul a b = a * b"
  by (simp add: size_mul_def)

lemma size_sub_le [simp]: "b \<le> a \<Longrightarrow> a < SIZE_MOD \<Longrightarrow> size_sub a b = a - b"
  by (simp add: size_sub_def of_nat_diff [symmetric] del: of_nat_diff)

lemma to_size_nonneg [simp]: "0 \<le> x \<Longrightarrow> x < int SIZE_MOD \<Longrightarrow> to_size x = nat x"
  by (simp add: to_size_def)

lemma to_size_of_nat [simp]: "n < SIZE_MOD \<Longrightarrow> to_size (int n) = n"
  by (simp add: to_size_def)

lemma to_off_small [simp]: "n < 9223372036854775808 \<Longrightarrow> to_off n = int n"
  by (simp add: to_off_def)

lemma to_size_neg: "- 9223372036854775808 \<le> x \<Longrightarrow> x < 0 \<Longrightarrow> to_size x = nat (x + int SIZE_MOD)"
  using mod_pos_pos_trivial [of "x + int SIZE_MOD" "int SIZE_MOD"] by (simp add: to_size_def)

lemma to_off_add:
  assumes "- 4611686018427387904 < off" "off < 4611686018427387904" "n < 4611686018427387904"
  shows "to_off (size_add n (to_size off)) = int n + off"
proof (cases "0 \<le> off")
  case True
  then show ?thesis using assms by simp
next
  case False
  then have t: "to_size off = nat (off + int SIZE_MOD)" using assms by (intro to_size_neg) auto
  show ?thesis
  proof (cases "0 \<le> int n + off")
    case True
    then have "n + nat (off + int SIZE_MOD) = nat (int n + off) + SIZE_MOD" using False assms by auto
    then have "size_add n (to_size off) = nat (int n + off)"
      using assms False True by (simp add: size_add_def t)
    then show ?thesis using True assms False by (simp add: to_off_def)
  next
    case neg: False
    then have "size_add n (to_size off) = nat (int n + off + int SIZE_MOD)"
      using assms False by (simp add: size_add_def t nat_add_distrib [symmetric] nat_int_add)
    then show ?thesis using neg assms False by (simp add: to_off_def)
  qed
qed

lemma size_add_bound: "size_add a b < SIZE_MOD"
  by (simp add: size_add_def)

lemma sint_u64_small:
  assumes "uint (x :: u64) < 9223372036854775808"
  shows "sint x = uint x"
  using assms uint_ge_0 [of x]
  by (simp add: sint_uint signed_take_bit_eq_take_bit_minus take_bit_eq_mod bit_iff_odd_drop_bit
      drop_bit_eq_div)

text \<open>C's integer division and remainder truncate towards zero.\<close>

definition cdiv :: "int \<Rightarrow> int \<Rightarrow> int" where
  "cdiv a b = sgn a * sgn b * (\<bar>a\<bar> div \<bar>b\<bar>)"

definition cmod :: "int \<Rightarrow> int \<Rightarrow> int" where
  "cmod a b = a - cdiv a b * b"

lemma cdiv_nonneg [simp]: "0 \<le> a \<Longrightarrow> 0 < b \<Longrightarrow> cdiv a b = a div b"
  by (cases "a = 0") (simp_all add: cdiv_def)

lemma cmod_nonneg [simp]: "0 \<le> a \<Longrightarrow> 0 < b \<Longrightarrow> cmod a b = a mod b"
  by (simp add: cmod_def minus_div_mult_eq_mod)

section \<open>Blocks of memory\<close>

text \<open>
  A block is the list of its elements. \<open>put_at xs p ys\<close> is the effect of copying
  \<open>ys\<close> to offset \<open>p\<close>, \<open>get_at xs p n\<close> what reading \<open>n\<close> elements from offset \<open>p\<close>
  yields; both are used only after the bounds have been checked.
\<close>

definition put_at :: "'a list \<Rightarrow> nat \<Rightarrow> 'a list \<Rightarrow> 'a list" where
  "put_at xs p ys = take p xs @ ys @ drop (p + length ys) xs"

definition get_at :: "'a list \<Rightarrow> nat \<Rightarrow> nat \<Rightarrow> 'a list" where
  "get_at xs p n = take n (drop p xs)"

lemma length_put_at [simp]: "p + length ys \<le> length xs \<Longrightarrow> length (put_at xs p ys) = length xs"
  by (simp add: put_at_def)

lemma length_get_at [simp]: "p + n \<le> length xs \<Longrightarrow> length (get_at xs p n) = n"
  by (simp add: get_at_def)

lemma get_at_zero [simp]: "get_at xs p 0 = []"
  by (simp add: get_at_def)

lemma put_at_Nil [simp]: "put_at xs p [] = xs"
  by (simp add: put_at_def)

lemma get_at_put_at_same: "p + length ys \<le> length xs \<Longrightarrow> get_at (put_at xs p ys) p (length ys) = ys"
  by (simp add: get_at_def put_at_def)

lemma nth_put_at:
  "p + length ys \<le> length xs \<Longrightarrow> i < length xs \<Longrightarrow>
   put_at xs p ys ! i = (if p \<le> i \<and> i < p + length ys then ys ! (i - p) else xs ! i)"
  by (auto simp: put_at_def nth_append)

lemma nth_get_at: "i < n \<Longrightarrow> p + n \<le> length xs \<Longrightarrow> get_at xs p n ! i = xs ! (p + i)"
  by (simp add: get_at_def)

lemma take_put_at_before: "n \<le> p \<Longrightarrow> p \<le> length xs \<Longrightarrow> take n (put_at xs p ys) = take n xs"
  by (simp add: put_at_def)

lemma take_put_at_max:
  assumes "p \<le> n" "n \<le> length xs" "p + length ys \<le> length xs"
  shows "take (max (p + length ys) n) (put_at xs p ys) = put_at (take n xs) p ys"
proof (cases "n \<le> p + length ys")
  case True
  then show ?thesis using assms by (simp add: put_at_def max_def)
next
  case False
  then show ?thesis using assms by (simp add: put_at_def max_def drop_take)
qed

lemma get_at_full [simp]: "get_at xs 0 (length xs) = xs"
  by (simp add: get_at_def)

end
