(* ===== verification/TimeUtils.thy ===== *)
theory TimeUtils
  imports Prelude
begin

text \<open>
  Model of \<open>utils/time_utils.c\<close>: the tick counters of every platform branch, the
  span helper \<open>gettickspan\<close> and \<open>timeMs\<close>. The operating system's clocks are
  arguments of the definitions; all arithmetic is on 64-bit words, so that the
  wrap-around of the C code is visible.
\<close>

section \<open>Clock readings\<close>

record timespec =
  tv_sec :: int
  tv_nsec :: int

record timeval =
  tvl_sec :: int
  tvl_usec :: int

definition timespec_ok :: "timespec \<Rightarrow> bool" where
  "timespec_ok ts \<longleftrightarrow> 0 \<le> tv_sec ts \<and> 0 \<le> tv_nsec ts \<and> tv_nsec ts < 1000000000"

section \<open>Operations\<close>

text \<open>Android: \<open>(uint64_t)ts.tv_sec*1000 + (uint64_t)ts.tv_nsec/1000000\<close>.\<close>

definition gettickcount_android :: "timespec \<Rightarrow> u64" where
  "gettickcount_android ts = word_of_int (tv_sec ts) * 1000 + word_of_int (tv_nsec ts) div 1000000"

definition clock_app_monotonic_android :: "timespec \<Rightarrow> u64" where
  "clock_app_monotonic_android ts =
     word_of_int (tv_sec ts) * 1000 + word_of_int (tv_nsec ts) div 1000000"

text \<open>
  Linux and BlackBerry: the reading is used only when \<open>clock_gettime\<close> returned 0;
  \<open>tv_nsec / 1000000\<close> is a signed division here.
\<close>

definition gettickcount_posix :: "int \<Rightarrow> timespec \<Rightarrow> u64" where
  "gettickcount_posix ret ts =
     (if ret = 0 then word_of_int (tv_sec ts) * 1000 + word_of_int (cdiv (tv_nsec ts) 1000000)
      else 0)"

text \<open>
  Apple: the time base is a static that is fetched once, when its \<open>denom\<close> is still
  0; \<open>denom * 1000000\<close> is a product of 32-bit unsigned values.
\<close>

record mach_timebase =
  numer :: u32
  denom :: u32

definition gettickcount_apple ::
  "mach_timebase \<Rightarrow> u64 \<Rightarrow> mach_timebase \<Rightarrow> (u64 \<times> mach_timebase) cres" where
  "gettickcount_apple fetched mach_time static_info =
     (let info = (if denom static_info = 0 then fetched else static_info);
          divisor = denom info * 1000000
      in if divisor = 0 then Inl DivByZero
         else Inr (mach_time * ucast (numer info) div ucast divisor, info))"

definition clock_app_monotonic_apple ::
  "mach_timebase \<Rightarrow> u64 \<Rightarrow> mach_timebase \<Rightarrow> (u64 \<times> mach_timebase) cres" where
  "clock_app_monotonic_apple = gettickcount_apple"

text \<open>Windows: the 32-bit \<open>GetTickCount\<close> is widened.\<close>

definition gettickcount_win32 :: "u32 \<Rightarrow> u64" where
  "gettickcount_win32 t = ucast t"

text \<open>\<open>gettickspan\<close>: the result type is \<open>int64_t\<close>.\<close>

definition gettickspan :: "u64 \<Rightarrow> u64 \<Rightarrow> int" where
  "gettickspan cur_tick old_tick = (if old_tick > cur_tick then 0 else sint (cur_tick - old_tick))"

definition timeMs :: "timeval \<Rightarrow> u64" where
  "timeMs tv = word_of_int (tvl_sec tv) * 1000 + word_of_int (tvl_usec tv) div 1000"

section \<open>Correctness\<close>

lemma unat_div_const: "unat ((x :: u64) div y) = unat x div unat y"
  by (simp add: unat_div)

lemma ms_of_parts:
  assumes "0 \<le> s" "0 \<le> n" "n < 1000000000" "s < 9223372036854775"
    and "c = 1000000 \<or> c = 1000"
  shows "unat (word_of_int s * 1000 + word_of_int n div word_of_int c :: u64)
         = nat s * 1000 + nat n div nat c"
proof -
  have s: "unat (word_of_int s :: u64) = nat s"
    using assms by (simp add: unat_eq_nat_uint uint_word_of_int_eq take_bit_eq_mod)
  have n: "unat (word_of_int n :: u64) = nat n"
    using assms by (simp add: unat_eq_nat_uint uint_word_of_int_eq take_bit_eq_mod)
  have c: "unat (word_of_int c :: u64) = nat c"
    using assms by (auto simp: unat_eq_nat_uint uint_word_of_int_eq take_bit_eq_mod)
  have small: "nat s * 1000 + nat n div nat c < 18446744073709551616"
  proof -
    have "nat n div nat c \<le> nat n" by simp
    moreover have "nat n < 1000000000" using assms by simp
    moreover have "nat s * 1000 < 9223372036854775000" using assms by simp
    ultimately show ?thesis by linarith
  qed
  then have m: "unat (word_of_int s * 1000 :: u64) = nat s * 1000"
    by (simp add: unat_word_ariths s)
  show ?thesis
    using small by (simp add: unat_word_ariths(1) m unat_div n c del: of_int_mult)
qed


text \<open>
  the Android tick counter is the boot-time clock in whole milliseconds, without
  wrap-around, for every well-formed reading below 292 million years.
\<close>

theorem gettickcount_android_ms:
  assumes "timespec_ok ts" and "tv_sec ts < 9223372036854775"
  shows "unat (gettickcount_android ts) = nat (tv_sec ts) * 1000 + nat (tv_nsec ts) div 1000000
         \<and> clock_app_monotonic_android ts = gettickcount_android ts
         \<and> gettickcount_posix 0 ts = gettickcount_android ts"
proof -
  have u: "unat (gettickcount_android ts) = nat (tv_sec ts) * 1000 + nat (tv_nsec ts) div 1000000"
    using ms_of_parts [of "tv_sec ts" "tv_nsec ts" 1000000] assms
    by (simp add: gettickcount_android_def timespec_ok_def)
  have "word_of_int (tv_nsec ts div 1000000) = (word_of_int (tv_nsec ts) div 1000000 :: u64)"
    using assms by (simp add: timespec_ok_def word_div_def uint_word_of_int_eq take_bit_eq_mod)
  then have p: "gettickcount_posix 0 ts = gettickcount_android ts"
    using assms by (simp add: gettickcount_posix_def gettickcount_android_def timespec_ok_def)
  show ?thesis
    using u p by (simp add: clock_app_monotonic_android_def gettickcount_android_def)
qed

theorem gettickcount_android_ms_witness:
  "unat (gettickcount_android \<lparr>tv_sec = 12, tv_nsec = 345678901\<rparr>) = 12345"
  using gettickcount_android_ms [of "\<lparr>tv_sec = 12, tv_nsec = 345678901\<rparr>"]
  by (simp add: timespec_ok_def)

text \<open>
  \<open>gettickspan\<close> never reports a negative span, is 0 when the remembered tick lies in
  the future, and otherwise is the exact elapsed time as long as that time fits in a
  signed 64-bit integer.
\<close>

theorem gettickspan_elapsed:
  assumes "unat cur - unat old < 9223372036854775808"
  shows "gettickspan cur old = int (unat cur - unat old)"
proof (cases "old > cur")
  case True
  then have "unat cur < unat old" by (simp add: word_less_nat_alt)
  with True show ?thesis by (simp add: gettickspan_def)
next
  case False
  then have le: "old \<le> cur" by simp
  then have u: "uint (cur - old) = int (unat cur - unat old)"
    by (simp add: unat_sub [symmetric] del: unat_sub)
  have "sint (cur - old) = uint (cur - old)"
    using assms u by (simp add: sint_u64_small)
  with False u show ?thesis by (simp add: gettickspan_def)
qed

theorem gettickspan_elapsed_witness: "gettickspan 1500 1200 = 300"
  using gettickspan_elapsed [of 1500 1200] by simp

end
