(* ===== verification/Atomic.thy ===== *)
theory Atomic
  imports Prelude
begin

text \<open>
  Model of \<open>utils/atomic_oper.h\<close>: the 32-bit atomic operations, once per platform
  branch of the header. An operation is a function from the content of the cell to
  the returned value and the new content. Branches written as load-linked /
  store-conditional loops take the list of attempts the hardware grants them: the
  value seen by the load and whether the conditional store succeeded.

  The interface the rest of the program relies on is the locale \<open>atomic_cell\<close>;
  it is interpreted for every branch that satisfies it. The two branches that do
  not (PowerPC and AIX, compare-and-swap) are shown not to.
\<close>

type_synonym cell_op = "u32 \<Rightarrow> u32 \<times> u32"
type_synonym attempt = "u32 \<times> bool"

section \<open>Instructions and compiler intrinsics\<close>

text \<open>
  x86: \<open>cmpxchg\<close> compares the accumulator with the cell, \<open>xadd\<close> exchanges and adds,
  \<open>xchg\<close> exchanges.
\<close>

definition x86_cmpxchg :: "u32 \<Rightarrow> u32 \<Rightarrow> cell_op" where
  "x86_cmpxchg src acc m = (if m = acc then (acc, src) else (m, m))"

definition x86_xadd :: "u32 \<Rightarrow> cell_op" where
  "x86_xadd src m = (m, m + src)"

definition x86_xchg :: "u32 \<Rightarrow> cell_op" where
  "x86_xchg src m = (m, src)"

text \<open>Windows: \<open>_InterlockedIncrement\<close> and \<open>_InterlockedDecrement\<close> return the new value,
  the exchange family returns the old one.\<close>

definition interlocked_increment :: cell_op where
  "interlocked_increment m = (m + 1, m + 1)"

definition interlocked_decrement :: cell_op where
  "interlocked_decrement m = (m - 1, m - 1)"

definition interlocked_compare_exchange :: "u32 \<Rightarrow> u32 \<Rightarrow> cell_op" where
  "interlocked_compare_exchange exch comparand m = (m, if m = comparand then exch else m)"

definition interlocked_exchange :: "u32 \<Rightarrow> cell_op" where
  "interlocked_exchange v m = (m, v)"

definition interlocked_exchange_add :: "u32 \<Rightarrow> cell_op" where
  "interlocked_exchange_add v m = (m, m + v)"

text \<open>Solaris \<open>atomic_add_32_nv\<close> (new value) and \<open>atomic_cas_32\<close>; GCC \<open>__sync_*\<close>.\<close>

definition solaris_add_32_nv :: "u32 \<Rightarrow> cell_op" where
  "solaris_add_32_nv v m = (m + v, m + v)"

definition solaris_cas_32 :: "u32 \<Rightarrow> u32 \<Rightarrow> cell_op" where
  "solaris_cas_32 cmp newv m = (m, if m = cmp then newv else m)"

definition sync_fetch_and_add :: "u32 \<Rightarrow> cell_op" where
  "sync_fetch_and_add v m = (m, m + v)"

definition sync_val_compare_and_swap :: "u32 \<Rightarrow> u32 \<Rightarrow> cell_op" where
  "sync_val_compare_and_swap oldv newv m = (m, if m = oldv then newv else m)"

section \<open>The branches of the header\<close>

subsection \<open>Windows\<close>

definition atomic_dec32_win :: cell_op where
  "atomic_dec32_win m = (let (r, m') = interlocked_decrement m in (r + 1, m'))"

definition atomic_inc32_win :: cell_op where
  "atomic_inc32_win m = (let (r, m') = interlocked_increment m in (r - 1, m'))"

definition atomic_read32_win :: cell_op where
  "atomic_read32_win m = (m, m)"

definition atomic_write32_win :: "u32 \<Rightarrow> u32 \<Rightarrow> u32" where
  "atomic_write32_win val m = snd (interlocked_exchange val m)"

definition atomic_cas32_win :: "u32 \<Rightarrow> u32 \<Rightarrow> cell_op" where
  "atomic_cas32_win withv cmp m = interlocked_compare_exchange withv cmp m"

text \<open>Here the result is read back from the cell after the addition.\<close>

definition atomic_add32_win :: "u32 \<Rightarrow> cell_op" where
  "atomic_add32_win val m = (let (_, m') = interlocked_exchange_add val m in (m', m'))"

subsection \<open>GCC on x86 and x86-64\<close>

definition atomic_cas32_x86 :: "u32 \<Rightarrow> u32 \<Rightarrow> cell_op" where
  "atomic_cas32_x86 withv cmp m = (let prev = cmp in x86_cmpxchg withv prev m)"

definition atomic_add32_x86 :: "u32 \<Rightarrow> cell_op" where
  "atomic_add32_x86 val m = x86_xadd val m"

definition atomic_inc32_x86 :: cell_op where
  "atomic_inc32_x86 m = atomic_add32_x86 1 m"

definition atomic_dec32_x86 :: cell_op where
  "atomic_dec32_x86 m = atomic_add32_x86 (- 1) m"

definition atomic_read32_x86 :: cell_op where
  "atomic_read32_x86 m = (m, m)"

definition atomic_write32_x86 :: "u32 \<Rightarrow> u32 \<Rightarrow> u32" where
  "atomic_write32_x86 val m = snd (x86_xchg val m)"

subsection \<open>PowerPC\<close>

text \<open>\<open>1: lwarx; add; stwcx.; bne- 1b\<close>. \<open>None\<close>: the attempts are used up, still looping.\<close>

fun atomic_add32_ppc :: "u32 \<Rightarrow> attempt list \<Rightarrow> (u32 \<times> u32) option" where
  "atomic_add32_ppc val [] = None"
| "atomic_add32_ppc val ((m, ok) # obs) =
     (if ok then Some (m, m + val) else atomic_add32_ppc val obs)"

text \<open>
  The operand list is \<open>"b"(mem), "r"(cmp), "r"(with)\<close>, so \<open>%2\<close> is \<open>cmp\<close> and \<open>%3\<close> is
  \<open>with\<close>: the instruction sequence compares the loaded value with \<open>%3\<close> and stores
  \<open>%2\<close>.
\<close>

fun atomic_cas32_ppc :: "u32 \<Rightarrow> u32 \<Rightarrow> attempt list \<Rightarrow> (u32 \<times> u32) option" where
  "atomic_cas32_ppc withv cmp [] = None"
| "atomic_cas32_ppc withv cmp ((m, ok) # obs) =
     (let op2 = cmp; op3 = withv
      in if m \<noteq> op3 then Some (m, m)
         else if ok then Some (m, op2) else atomic_cas32_ppc withv cmp obs)"

definition atomic_inc32_ppc :: "attempt list \<Rightarrow> (u32 \<times> u32) option" where
  "atomic_inc32_ppc obs = atomic_add32_ppc 1 obs"

definition atomic_dec32_ppc :: "attempt list \<Rightarrow> (u32 \<times> u32) option" where
  "atomic_dec32_ppc obs = atomic_add32_ppc (- 1) obs"

definition atomic_read32_ppc :: cell_op where
  "atomic_read32_ppc m = (m, m)"

definition atomic_write32_ppc :: "u32 \<Rightarrow> u32 \<Rightarrow> u32" where
  "atomic_write32_ppc val m = val"

subsection \<open>Solaris\<close>

definition atomic_add32_sun :: "u32 \<Rightarrow> cell_op" where
  "atomic_add32_sun val m = (let (r, m') = solaris_add_32_nv val m in (r - val, m'))"

definition atomic_cas32_sun :: "u32 \<Rightarrow> u32 \<Rightarrow> cell_op" where
  "atomic_cas32_sun withv cmp m = solaris_cas_32 cmp withv m"

definition atomic_inc32_sun :: cell_op where
  "atomic_inc32_sun m = (let (r, m') = solaris_add_32_nv 1 m in (r - 1, m'))"

definition atomic_dec32_sun :: cell_op where
  "atomic_dec32_sun m = (let (r, m') = solaris_add_32_nv (- 1) m in (r + 1, m'))"

definition atomic_read32_sun :: cell_op where
  "atomic_read32_sun m = (m, m)"

definition atomic_write32_sun :: "u32 \<Rightarrow> u32 \<Rightarrow> u32" where
  "atomic_write32_sun val m = val"

subsection \<open>Alpha (OSF)\<close>

text \<open>\<open>__ATOMIC_INCREMENT_LONG\<close> and \<open>__ATOMIC_DECREMENT_LONG\<close> return the old value.\<close>

definition atomic_dec32_osf :: cell_op where
  "atomic_dec32_osf m = (m, m - 1)"

definition atomic_inc32_osf :: cell_op where
  "atomic_inc32_osf m = (m, m + 1)"

definition atomic_read32_osf :: cell_op where
  "atomic_read32_osf m = (m, m)"

definition atomic_write32_osf :: "u32 \<Rightarrow> u32 \<Rightarrow> u32" where
  "atomic_write32_osf val m = val"

fun atomic_cas32_osf :: "u32 \<Rightarrow> u32 \<Rightarrow> attempt list \<Rightarrow> (u32 \<times> u32) option" where
  "atomic_cas32_osf withv cmp [] = None"
| "atomic_cas32_osf withv cmp ((m, ok) # obs) =
     (if m \<noteq> cmp then Some (m, m)
      else if ok then Some (m, withv) else atomic_cas32_osf withv cmp obs)"

subsection \<open>AIX\<close>

fun atomic_add32_aix :: "u32 \<Rightarrow> attempt list \<Rightarrow> (u32 \<times> u32) option" where
  "atomic_add32_aix val [] = None"
| "atomic_add32_aix val ((oldValue, ok) # obs) =
     (if ok then Some (oldValue, oldValue + val) else atomic_add32_aix val obs)"

definition atomic_inc32_aix :: "attempt list \<Rightarrow> (u32 \<times> u32) option" where
  "atomic_inc32_aix obs = atomic_add32_aix 1 obs"

definition atomic_dec32_aix :: "attempt list \<Rightarrow> (u32 \<times> u32) option" where
  "atomic_dec32_aix obs = atomic_add32_aix (- 1) obs"

definition atomic_read32_aix :: cell_op where
  "atomic_read32_aix m = (m, m)"

fun atomic_cas32_aix :: "u32 \<Rightarrow> u32 \<Rightarrow> attempt list \<Rightarrow> (u32 \<times> u32) option" where
  "atomic_cas32_aix withv cmp [] = None"
| "atomic_cas32_aix withv cmp ((oldValue, ok) # obs) =
     (if ok then Some (oldValue, if oldValue = withv then cmp else oldValue)
      else atomic_cas32_aix withv cmp obs)"

definition atomic_write32_aix :: "u32 \<Rightarrow> u32 \<Rightarrow> u32" where
  "atomic_write32_aix val m = val"

subsection \<open>GCC builtins\<close>

definition atomic_add32_gcc :: "u32 \<Rightarrow> cell_op" where
  "atomic_add32_gcc val m = sync_fetch_and_add val m"

definition atomic_inc32_gcc :: cell_op where
  "atomic_inc32_gcc m = atomic_add32_gcc 1 m"

definition atomic_dec32_gcc :: cell_op where
  "atomic_dec32_gcc m = atomic_add32_gcc (- 1) m"

definition atomic_read32_gcc :: cell_op where
  "atomic_read32_gcc m = (m, m)"

definition atomic_cas32_gcc :: "u32 \<Rightarrow> u32 \<Rightarrow> cell_op" where
  "atomic_cas32_gcc withv cmp m = sync_val_compare_and_swap cmp withv m"

definition atomic_write32_gcc :: "u32 \<Rightarrow> u32 \<Rightarrow> u32" where
  "atomic_write32_gcc val m = val"

subsection \<open>Add unless\<close>

text \<open>
  \<open>atomic_add_unless32\<close> on top of any branch's compare-and-swap. \<open>c\<close> is the local
  copy; the list holds the content of the cell at each compare-and-swap, which other
  threads may have changed in between. The result carries the returned flag and the
  content that the last compare-and-swap left, if one was executed.
\<close>

fun add_unless_loop ::
  "(u32 \<Rightarrow> u32 \<Rightarrow> cell_op) \<Rightarrow> u32 \<Rightarrow> u32 \<Rightarrow> u32 \<Rightarrow> u32 list \<Rightarrow> (bool \<times> (u32 \<times> u32) list) option" where
  "add_unless_loop cas val unless_this c [] =
     (if c \<noteq> unless_this then None else Some (False, []))"
| "add_unless_loop cas val unless_this c (m # obs) =
     (if c \<noteq> unless_this then
        (case cas (c + val) c m of (oldv, m') \<Rightarrow>
           if oldv \<noteq> c
           then map_option (\<lambda>(r, tr). (r, (m, m') # tr)) (add_unless_loop cas val unless_this oldv obs)
           else Some (True, [(m, m')]))
      else Some (False, []))"

definition atomic_add_unless32 ::
  "cell_op \<Rightarrow> (u32 \<Rightarrow> u32 \<Rightarrow> cell_op) \<Rightarrow> u32 \<Rightarrow> u32 \<Rightarrow> u32 \<Rightarrow> u32 list \<Rightarrow>
   (bool \<times> (u32 \<times> u32) list) option" where
  "atomic_add_unless32 readop cas val unless_this m0 obs =
     (let c = fst (readop m0) in add_unless_loop cas val unless_this c obs)"

section \<open>The contract, and what follows from it\<close>

locale atomic_cell =
  fixes inc dec rd :: cell_op
    and wr :: "u32 \<Rightarrow> u32 \<Rightarrow> u32"
    and cas :: "u32 \<Rightarrow> u32 \<Rightarrow> cell_op"
  assumes inc_law: "inc m = (m, m + 1)"
    and dec_law: "dec m = (m, m - 1)"
    and read_law: "rd m = (m, m)"
    and write_law: "wr v m = v"
    and cas_law: "cas v cmp m = (m, if m = cmp then v else m)"
begin

lemma inc_dec_inverse: "snd (dec (snd (inc m))) = m"
  by (simp add: inc_law dec_law)

lemma add_unless_loop_Cons:
  "add_unless_loop cas val u c (m # obs) =
     (if c = u then Some (False, [])
      else if m = c then Some (True, [(m, c + val)])
      else map_option (\<lambda>(r, tr). (r, (m, m) # tr)) (add_unless_loop cas val u m obs))"
  by (subst add_unless_loop.simps) (simp add: cas_law [of "c + val" c m])

lemma add_unless_loop_cases:
  assumes "add_unless_loop cas val u c (m # obs) = Some (r, tr)"
  obtains (equal) "c = u" "r = False" "tr = []"
  | (swapped) "c \<noteq> u" "m = c" "r = True" "tr = [(m, c + val)]"
  | (retry) tr' where "c \<noteq> u" "m \<noteq> c" "add_unless_loop cas val u m obs = Some (r, tr')"
      "tr = (m, m) # tr'"
  using assms unfolding add_unless_loop_Cons by (auto split: if_splits)

lemma add_unless_loop_true:
  "add_unless_loop cas val u c obs = Some (True, tr) \<Longrightarrow>
   tr \<noteq> [] \<and> fst (last tr) \<noteq> u \<and> snd (last tr) = fst (last tr) + val
   \<and> (\<forall>(m, m') \<in> set (butlast tr). m' = m)"
proof (induction obs arbitrary: c tr)
  case (Cons m obs)
  from Cons.prems show ?case
  proof (cases rule: add_unless_loop_cases)
    case (retry tr')
    with Cons.IH [OF retry(3)] show ?thesis by auto
  qed auto
qed (simp split: if_splits)

lemma add_unless_loop_false:
  "add_unless_loop cas val u c obs = Some (False, tr) \<Longrightarrow>
   (\<forall>(m, m') \<in> set tr. m' = m) \<and> last (c # map fst tr) = u"
proof (induction obs arbitrary: c tr)
  case (Cons m obs)
  from Cons.prems show ?case
  proof (cases rule: add_unless_loop_cases)
    case (retry tr')
    with Cons.IH [OF retry(3)] show ?thesis by auto
  qed auto
qed (simp split: if_splits)

lemma add_unless_loop_returns: "add_unless_loop cas val u c (pre @ m # m # post) \<noteq> None"
proof (induction pre arbitrary: c)
  case Nil
  then show ?case by (auto simp add: add_unless_loop_Cons simp del: add_unless_loop.simps(2))
next
  case (Cons x pre)
  then show ?case by (auto simp add: add_unless_loop_Cons simp del: add_unless_loop.simps(2))
qed

end

lemmas branch_defs =
  atomic_dec32_win_def atomic_inc32_win_def atomic_read32_win_def atomic_write32_win_def
  atomic_cas32_win_def interlocked_increment_def interlocked_decrement_def
  interlocked_compare_exchange_def interlocked_exchange_def
  atomic_cas32_x86_def atomic_add32_x86_def atomic_inc32_x86_def atomic_dec32_x86_def
  atomic_read32_x86_def atomic_write32_x86_def x86_cmpxchg_def x86_xadd_def x86_xchg_def
  atomic_add32_sun_def atomic_cas32_sun_def atomic_inc32_sun_def atomic_dec32_sun_def
  atomic_read32_sun_def atomic_write32_sun_def solaris_add_32_nv_def solaris_cas_32_def
  atomic_add32_gcc_def atomic_inc32_gcc_def atomic_dec32_gcc_def atomic_read32_gcc_def
  atomic_cas32_gcc_def atomic_write32_gcc_def sync_fetch_and_add_def sync_val_compare_and_swap_def

interpretation win: atomic_cell atomic_inc32_win atomic_dec32_win atomic_read32_win
  atomic_write32_win atomic_cas32_win
  by unfold_locales (simp_all add: branch_defs)

interpretation x86: atomic_cell atomic_inc32_x86 atomic_dec32_x86 atomic_read32_x86
  atomic_write32_x86 atomic_cas32_x86
  by unfold_locales (simp_all add: branch_defs)

interpretation sun: atomic_cell atomic_inc32_sun atomic_dec32_sun atomic_read32_sun
  atomic_write32_sun atomic_cas32_sun
  by unfold_locales (simp_all add: branch_defs)

interpretation gcc: atomic_cell atomic_inc32_gcc atomic_dec32_gcc atomic_read32_gcc
  atomic_write32_gcc atomic_cas32_gcc
  by unfold_locales (simp_all add: branch_defs)

section \<open>Load-linked / store-conditional branches\<close>

lemma ll_sc_add_ppc:
  "(m, True) \<in> set obs \<Longrightarrow> \<exists>m'. atomic_add32_ppc val obs = Some (m', m' + val) \<and> (m', True) \<in> set obs"
  by (induction val obs rule: atomic_add32_ppc.induct) auto

lemma ll_sc_add_aix: "atomic_add32_aix val obs = atomic_add32_ppc val obs"
  by (induction val obs rule: atomic_add32_aix.induct) auto

lemma osf_cas_correct:
  "atomic_cas32_osf withv cmp obs = Some (r, m') \<Longrightarrow>
   m' = (if r = cmp then withv else r) \<and> r \<in> fst ` set obs"
  by (induction withv cmp obs rule: atomic_cas32_osf.induct) (auto split: if_splits)


text \<open>
  \<open>atomic_add_unless32\<close> adds \<open>value\<close> exactly once, from a content different from
  \<open>unless_this\<close>, when it returns true, and changes nothing when it returns false,
  however other threads change the cell between its compare-and-swaps; and it returns
  as soon as the cell keeps one value for two consecutive compare-and-swaps.
\<close>

theorem atomic_add_unless32_exact:
  assumes "atomic_add_unless32 atomic_read32_gcc atomic_cas32_gcc val u m0 obs = Some (res, tr)"
  shows "(res \<longrightarrow> tr \<noteq> [] \<and> fst (last tr) \<noteq> u \<and> snd (last tr) = fst (last tr) + val
                  \<and> (\<forall>(m, m') \<in> set (butlast tr). m' = m))
         \<and> (\<not> res \<longrightarrow> (\<forall>(m, m') \<in> set tr. m' = m) \<and> last (m0 # map fst tr) = u)
         \<and> atomic_add_unless32 atomic_read32_gcc atomic_cas32_gcc val u m0 (pre @ m # m # post) \<noteq> None"
proof -
  have loop: "add_unless_loop atomic_cas32_gcc val u m0 obs = Some (res, tr)"
    using assms by (simp add: atomic_add_unless32_def gcc.read_law)
  have ret: "add_unless_loop atomic_cas32_gcc val u m0 (pre @ m # m # post) \<noteq> None"
    by (rule gcc.add_unless_loop_returns)
  show ?thesis
  proof (cases res)
    case True
    with loop gcc.add_unless_loop_true [of val u m0 obs tr] ret show ?thesis
      by (simp add: atomic_add_unless32_def gcc.read_law)
  next
    case False
    with loop gcc.add_unless_loop_false [of val u m0 obs tr] ret show ?thesis
      by (simp add: atomic_add_unless32_def gcc.read_law)
  qed
qed

theorem atomic_add_unless32_exact_witness:
  "atomic_add_unless32 atomic_read32_gcc atomic_cas32_gcc 1 0 5 [7, 7] = Some (True, [(7, 7), (7, 8)])"
  using atomic_add_unless32_exact [of 1 0 5 "[7, 7]" True "[(7, 7), (7, 8)]"]
  by (simp add: atomic_add_unless32_def gcc.read_law gcc.cas_law)

text \<open>
  on PowerPC and AIX the compare-and-swap has its operands exchanged: a cell that
  holds \<open>cmp\<close> is left unchanged and reported as swapped (the returned value equals
  \<open>cmp\<close>), and a cell that holds \<open>with\<close> is overwritten by \<open>cmp\<close>.
\<close>

theorem cas_operands_exchanged:
  assumes "withv \<noteq> cmp"
  shows "atomic_cas32_ppc withv cmp [(cmp, True)] = Some (cmp, cmp)
       \<and> atomic_cas32_ppc withv cmp [(withv, True)] = Some (withv, cmp)
       \<and> atomic_cas32_aix withv cmp [(cmp, True)] = Some (cmp, cmp)
       \<and> atomic_cas32_aix withv cmp [(withv, True)] = Some (withv, cmp)
       \<and> atomic_cas32_osf withv cmp [(cmp, True)] = Some (cmp, withv)"
  using assms by simp

theorem cas_operands_exchanged_witness:
  "atomic_cas32_ppc 1 0 [(0, True)] = Some (0, 0) \<and> atomic_cas32_aix 1 0 [(0, True)] = Some (0, 0)"
  using cas_operands_exchanged [of 1 0] by simp

end
