(* ===== verification/Locks.thy ===== *)
theory Locks
  imports Atomic
begin

text \<open>
  Model of the locking layer: \<open>SpinLock\<close> (\<open>utils/spinlock.h\<close>), \<open>Mutex\<close>
  (\<open>utils/mutex.h\<close>) on POSIX mutexes, the RAII guard \<open>BaseScopedLock\<close>
  (\<open>utils/lock.h\<close>) and \<open>Condition\<close> (\<open>utils/condition.h\<close>).

  The guard is a template over its mutex type; the locale \<open>lockable\<close> states what
  it needs from that type, and is interpreted on the spin lock and on the mutex.
\<close>

section \<open>SpinLock\<close>

definition initial_pause :: nat where "initial_pause = 2"
definition max_pause :: nat where "max_pause = 16"

definition SpinLock_new :: u32 where "SpinLock_new = 0"

definition SpinLock_trylock :: "u32 \<Rightarrow> bool \<times> u32" where
  "SpinLock_trylock st = (case atomic_cas32_gcc 1 0 st of (oldv, st') \<Rightarrow> (oldv = 0, st'))"

text \<open>
  \<open>lock()\<close>: the list holds the content of \<open>state_\<close> at each \<open>trylock\<close>. The result is
  the trace of back-offs and the content left by the successful attempt; \<open>None\<close> is
  "still spinning".
\<close>

datatype backoff = Relax nat | SchedYield

fun SpinLock_lock_loop :: "nat \<Rightarrow> u32 list \<Rightarrow> (backoff list \<times> u32) option" where
  "SpinLock_lock_loop pause_count [] = None"
| "SpinLock_lock_loop pause_count (st # obs) =
     (case SpinLock_trylock st of (ok, st') \<Rightarrow>
        if ok then Some ([], st')
        else if pause_count < max_pause
        then map_option (\<lambda>(bs, r). (Relax pause_count # bs, r))
               (SpinLock_lock_loop (pause_count + pause_count) obs)
        else map_option (\<lambda>(bs, r). (SchedYield # bs, r))
               (SpinLock_lock_loop initial_pause obs))"

definition SpinLock_lock :: "u32 list \<Rightarrow> (backoff list \<times> u32) option" where
  "SpinLock_lock obs = SpinLock_lock_loop initial_pause obs"

definition SpinLock_unlock :: "u32 \<Rightarrow> bool \<times> u32" where
  "SpinLock_unlock st = (True, atomic_write32_gcc 0 st)"

lemma SpinLock_trylock_eq: "SpinLock_trylock st = (st = 0, if st = 0 then 1 else st)"
  by (simp add: SpinLock_trylock_def gcc.cas_law)

lemma SpinLock_unlock_eq [simp]: "SpinLock_unlock st = (True, 0)"
  by (simp add: SpinLock_unlock_def gcc.write_law)

definition pause_ok :: "nat \<Rightarrow> bool" where
  "pause_ok p \<longleftrightarrow> p = 2 \<or> p = 4 \<or> p = 8 \<or> p = 16"

lemma SpinLock_lock_loop_trace:
  "SpinLock_lock_loop p obs = Some (bs, r) \<Longrightarrow> pause_ok p \<Longrightarrow>
   r = 1 \<and> length bs < length obs \<and> obs ! length bs = 0
   \<and> (\<forall>i < length bs. obs ! i \<noteq> 0) \<and> (\<forall>n. Relax n \<in> set bs \<longrightarrow> n = 2 \<or> n = 4 \<or> n = 8)"
proof (induction obs arbitrary: p bs)
  case (Cons st obs)
  show ?case
  proof (cases "st = 0")
    case True
    with Cons.prems show ?thesis by (auto simp: SpinLock_trylock_eq)
  next
    case False
    define p' where "p' = (if p < max_pause then p + p else initial_pause)"
    have ok: "pause_ok p'"
      using Cons.prems(2) by (auto simp: p'_def pause_ok_def max_pause_def initial_pause_def)
    obtain b bs' where bs: "bs = b # bs'" and rest: "SpinLock_lock_loop p' obs = Some (bs', r)"
      and b: "b = (if p < max_pause then Relax p else SchedYield)"
      using Cons.prems(1) False by (auto simp: SpinLock_trylock_eq p'_def split: if_splits)
    from Cons.IH [OF rest ok] show ?thesis
      using False bs b Cons.prems(2)
      by (auto simp: nth_Cons pause_ok_def max_pause_def split: nat.splits if_splits)
  qed
qed simp

lemma SpinLock_lock_loop_None: "SpinLock_lock_loop p obs = None \<longleftrightarrow> 0 \<notin> set obs"
  by (induction obs arbitrary: p) (auto simp: SpinLock_trylock_eq)

subsection \<open>Any number of threads on one spin lock\<close>

datatype spin_pc = Outside | Spinning nat | Inside

record spin_sys =
  spin_state :: u32
  spin_pcs :: "nat \<Rightarrow> spin_pc"

definition spin_init :: spin_sys where
  "spin_init = \<lparr>spin_state = SpinLock_new, spin_pcs = (\<lambda>_. Outside)\<rparr>"

inductive spin_step :: "spin_sys \<Rightarrow> spin_sys \<Rightarrow> bool" where
  call: "spin_pcs s t = Outside \<Longrightarrow>
     spin_step s (s\<lparr>spin_pcs := (spin_pcs s)(t := Spinning initial_pause)\<rparr>)"
| acquire: "spin_pcs s t = Spinning p \<Longrightarrow> SpinLock_trylock (spin_state s) = (True, st') \<Longrightarrow>
     spin_step s (s\<lparr>spin_state := st', spin_pcs := (spin_pcs s)(t := Inside)\<rparr>)"
| relax: "spin_pcs s t = Spinning p \<Longrightarrow> SpinLock_trylock (spin_state s) = (False, st') \<Longrightarrow>
     p < max_pause \<Longrightarrow>
     spin_step s (s\<lparr>spin_state := st', spin_pcs := (spin_pcs s)(t := Spinning (p + p))\<rparr>)"
| yield: "spin_pcs s t = Spinning p \<Longrightarrow> SpinLock_trylock (spin_state s) = (False, st') \<Longrightarrow>
     \<not> p < max_pause \<Longrightarrow>
     spin_step s (s\<lparr>spin_state := st', spin_pcs := (spin_pcs s)(t := Spinning initial_pause)\<rparr>)"
| release: "spin_pcs s t = Inside \<Longrightarrow> SpinLock_unlock (spin_state s) = (True, st') \<Longrightarrow>
     spin_step s (s\<lparr>spin_state := st', spin_pcs := (spin_pcs s)(t := Outside)\<rparr>)"

inductive spin_reachable :: "spin_sys \<Rightarrow> bool" where
  start: "spin_reachable spin_init"
| step: "spin_reachable s \<Longrightarrow> spin_step s s' \<Longrightarrow> spin_reachable s'"

definition spin_inv :: "spin_sys \<Rightarrow> nat option \<Rightarrow> bool" where
  "spin_inv s own \<longleftrightarrow> spin_state s = (if own = None then 0 else 1)
     \<and> (\<forall>t. spin_pcs s t = Inside \<longleftrightarrow> own = Some t)"

lemma spin_inv_frame:
  assumes "spin_inv s own" "spin_pcs s t \<noteq> Inside" "pc \<noteq> Inside"
  shows "spin_inv (s\<lparr>spin_pcs := (spin_pcs s)(t := pc)\<rparr>) own"
    and "st' = spin_state s \<Longrightarrow> spin_inv (s\<lparr>spin_state := st', spin_pcs := (spin_pcs s)(t := pc)\<rparr>) own"
  using assms by (auto simp: spin_inv_def)

lemma spin_trylock_fails: "SpinLock_trylock st = (False, st') \<Longrightarrow> st' = st"
  by (auto simp: SpinLock_trylock_eq)

lemma spin_step_inv: "spin_step s s' \<Longrightarrow> spin_inv s own \<Longrightarrow> \<exists>own'. spin_inv s' own'"
proof (induction rule: spin_step.induct)
  case (acquire s t p st')
  then have "own = None" by (cases own) (simp_all add: spin_inv_def SpinLock_trylock_eq)
  with acquire have "spin_inv (s\<lparr>spin_state := st', spin_pcs := (spin_pcs s)(t := Inside)\<rparr>) (Some t)"
    by (auto simp: spin_inv_def SpinLock_trylock_eq)
  then show ?case by blast
next
  case (release s t st')
  then have "spin_inv (s\<lparr>spin_state := st', spin_pcs := (spin_pcs s)(t := Outside)\<rparr>) None"
    by (auto simp: spin_inv_def)
  then show ?case by blast
next
  case (call s t)
  then show ?case by (auto intro!: exI [of _ own] spin_inv_frame)
next
  case (relax s t p st')
  then show ?case by (auto intro!: exI [of _ own] spin_inv_frame(2) spin_trylock_fails)
next
  case (yield s t p st')
  then show ?case by (auto intro!: exI [of _ own] spin_inv_frame(2) spin_trylock_fails)
qed

lemma spin_reachable_inv: "spin_reachable s \<Longrightarrow> \<exists>own. spin_inv s own"
proof (induction rule: spin_reachable.induct)
  case start
  have "spin_inv spin_init None" by (simp add: spin_inv_def spin_init_def SpinLock_new_def)
  then show ?case by blast
next
  case (step s s')
  then show ?case by (blast dest: spin_step_inv)
qed

section \<open>POSIX mutexes\<close>

text \<open>Error numbers of the Linux ABI.\<close>

definition EPERM :: int where "EPERM = 1"
definition ESRCH :: int where "ESRCH = 3"
definition EAGAIN :: int where "EAGAIN = 11"
definition EBUSY :: int where "EBUSY = 16"
definition EINVAL :: int where "EINVAL = 22"
definition EDEADLK :: int where "EDEADLK = 35"
definition ETIMEDOUT :: int where "ETIMEDOUT = 110"

lemmas errno_defs = EPERM_def ESRCH_def EAGAIN_def EBUSY_def EINVAL_def EDEADLK_def ETIMEDOUT_def

type_synonym tid = nat

datatype mutex_kind = PTHREAD_MUTEX_RECURSIVE | PTHREAD_MUTEX_ERRORCHECK

record pthread_mutex =
  pm_kind :: mutex_kind
  pm_owner :: "tid option"
  pm_count :: nat

definition pthread_mutex_lock :: "tid \<Rightarrow> pthread_mutex \<Rightarrow> (int \<times> pthread_mutex) cres" where
  "pthread_mutex_lock t m =
     (case pm_owner m of
        None \<Rightarrow> Inr (0, m\<lparr>pm_owner := Some t, pm_count := 1\<rparr>)
      | Some u \<Rightarrow>
          if u = t then
            (case pm_kind m of
               PTHREAD_MUTEX_RECURSIVE \<Rightarrow> Inr (0, m\<lparr>pm_count := Suc (pm_count m)\<rparr>)
             | PTHREAD_MUTEX_ERRORCHECK \<Rightarrow> Inr (EDEADLK, m))
          else Inl WouldBlock)"

definition pthread_mutex_trylock :: "tid \<Rightarrow> pthread_mutex \<Rightarrow> int \<times> pthread_mutex" where
  "pthread_mutex_trylock t m =
     (case pm_owner m of
        None \<Rightarrow> (0, m\<lparr>pm_owner := Some t, pm_count := 1\<rparr>)
      | Some u \<Rightarrow>
          if u = t \<and> pm_kind m = PTHREAD_MUTEX_RECURSIVE
          then (0, m\<lparr>pm_count := Suc (pm_count m)\<rparr>) else (EBUSY, m))"

definition pthread_mutex_unlock :: "tid \<Rightarrow> pthread_mutex \<Rightarrow> int \<times> pthread_mutex" where
  "pthread_mutex_unlock t m =
     (if pm_owner m = Some t then
        (if pm_count m \<le> 1 then (0, m\<lparr>pm_owner := None, pm_count := 0\<rparr>)
         else (0, m\<lparr>pm_count := pm_count m - 1\<rparr>))
      else (EPERM, m))"

text \<open>A timed lock that cannot be granted until the deadline returns \<open>ETIMEDOUT\<close>.\<close>

definition pthread_mutex_timedlock :: "tid \<Rightarrow> pthread_mutex \<Rightarrow> int \<times> pthread_mutex" where
  "pthread_mutex_timedlock t m =
     (case pthread_mutex_lock t m of Inr r \<Rightarrow> r | Inl _ \<Rightarrow> (ETIMEDOUT, m))"

section \<open>Mutex\<close>

record Mutex =
  mx_this :: nat
  mx_magic :: nat
  mx_mutex :: pthread_mutex

definition Mutex_new :: "nat \<Rightarrow> bool \<Rightarrow> Mutex" where
  "Mutex_new this recursive =
     \<lparr>mx_this = this, mx_magic = this,
      mx_mutex = \<lparr>pm_kind = (if recursive then PTHREAD_MUTEX_RECURSIVE else PTHREAD_MUTEX_ERRORCHECK),
                  pm_owner = None, pm_count = 0\<rparr>\<rparr>"

definition Mutex_magic_ok :: "Mutex \<Rightarrow> bool" where
  "Mutex_magic_ok m \<longleftrightarrow> mx_this m = mx_magic m \<and> 0 \<noteq> mx_magic m"

text \<open>\<open>pthread_mutex_destroy\<close> refuses a locked mutex (\<open>EBUSY\<close>), which the destructor asserts.\<close>

definition Mutex_delete :: "bool \<Rightarrow> Mutex \<Rightarrow> Mutex cres" where
  "Mutex_delete ae m =
     (let m = m\<lparr>mx_magic := 0\<rparr>;
          ret = (if pm_owner (mx_mutex m) = None then 0 else EBUSY)
      in ASSERT ae (0 = ret) (Inr m))"

definition Mutex_lock :: "bool \<Rightarrow> tid \<Rightarrow> Mutex \<Rightarrow> (bool \<times> Mutex) cres" where
  "Mutex_lock ae t m =
     ASSERT ae (Mutex_magic_ok m)
       (bindE (pthread_mutex_lock t (mx_mutex m)) (\<lambda>(ret, pm).
          ASSERT ae (0 = ret) (Inr (0 = ret, m\<lparr>mx_mutex := pm\<rparr>))))"

definition Mutex_unlock :: "bool \<Rightarrow> tid \<Rightarrow> Mutex \<Rightarrow> (bool \<times> Mutex) cres" where
  "Mutex_unlock ae t m =
     ASSERT ae (Mutex_magic_ok m)
       (case pthread_mutex_unlock t (mx_mutex m) of (ret, pm) \<Rightarrow>
          ASSERT ae (0 = ret) (Inr (0 = ret, m\<lparr>mx_mutex := pm\<rparr>)))"

definition Mutex_trylock :: "bool \<Rightarrow> tid \<Rightarrow> Mutex \<Rightarrow> (bool \<times> Mutex) cres" where
  "Mutex_trylock ae t m =
     ASSERT ae (Mutex_magic_ok m)
       (case pthread_mutex_trylock t (mx_mutex m) of (ret, pm) \<Rightarrow>
          if EBUSY = ret then Inr (False, m\<lparr>mx_mutex := pm\<rparr>)
          else ASSERT ae (0 = ret) (Inr (0 = ret, m\<lparr>mx_mutex := pm\<rparr>)))"

text \<open>The Linux \<open>timedlock\<close>: 0 is success, \<open>ETIMEDOUT\<close> a silent failure, the rest asserts.\<close>

definition Mutex_timedlock :: "bool \<Rightarrow> tid \<Rightarrow> Mutex \<Rightarrow> (bool \<times> Mutex) cres" where
  "Mutex_timedlock ae t m =
     ASSERT ae (Mutex_magic_ok m)
       (case pthread_mutex_timedlock t (mx_mutex m) of (ret, pm) \<Rightarrow>
          if ret = 0 then Inr (True, m\<lparr>mx_mutex := pm\<rparr>)
          else if ret = ETIMEDOUT then Inr (False, m\<lparr>mx_mutex := pm\<rparr>)
          else ASSERT ae False (Inr (False, m\<lparr>mx_mutex := pm\<rparr>)))"

definition Mutex_islocked :: "bool \<Rightarrow> tid \<Rightarrow> Mutex \<Rightarrow> (bool \<times> Mutex) cres" where
  "Mutex_islocked ae t m =
     ASSERT ae (mx_this m = mx_magic m)
       (case pthread_mutex_trylock t (mx_mutex m) of (ret, pm) \<Rightarrow>
          let m = m\<lparr>mx_mutex := pm\<rparr>
          in if 0 = ret then bindE (Mutex_unlock ae t m) (\<lambda>(_, m). Inr (0 \<noteq> ret, m))
             else Inr (0 \<noteq> ret, m))"

text \<open>
  \<open>MakeTimeout\<close>, the same code in \<open>Mutex\<close> and in \<open>Condition\<close>: the deadline
  \<open>millisecond\<close> from now, as a normalised \<open>timespec\<close> (C division truncates).
\<close>

definition MakeTimeout :: "int \<Rightarrow> int \<Rightarrow> int \<Rightarrow> int \<times> int" where
  "MakeTimeout now_sec now_usec millisecond =
     (let sec = cdiv millisecond 1000 + now_sec;
          nsec = cmod millisecond 1000 * 1000 * 1000 + now_usec * 1000;
          sec = sec + cdiv nsec (1000 * 1000 * 1000);
          nsec = cmod nsec (1000 * 1000 * 1000)
      in (sec, nsec))"

section \<open>BaseScopedLock\<close>

text \<open>
  The guard over a mutex type given by its operations; the pair is the flag
  \<open>islocked_\<close> and the mutex it refers to.
\<close>

type_synonym 'w guard = "bool \<times> 'w"

definition guard_lock :: "bool \<Rightarrow> ('w \<Rightarrow> (bool \<times> 'w) cres) \<Rightarrow> 'w guard \<Rightarrow> 'w guard cres" where
  "guard_lock ae mlock g =
     (case g of (islocked, w) \<Rightarrow>
        ASSERT ae (\<not> islocked)
          (bindE (if \<not> islocked then mlock w else Inr (False, w)) (\<lambda>(ok, w).
             let islocked = (islocked \<or> ok) in ASSERT ae islocked (Inr (islocked, w)))))"

definition guard_new ::
  "bool \<Rightarrow> ('w \<Rightarrow> (bool \<times> 'w) cres) \<Rightarrow> bool \<Rightarrow> 'w \<Rightarrow> 'w guard cres" where
  "guard_new ae mlock initiallyLocked w =
     (if \<not> initiallyLocked then Inr (False, w) else guard_lock ae mlock (False, w))"

definition guard_unlock :: "bool \<Rightarrow> ('w \<Rightarrow> (bool \<times> 'w) cres) \<Rightarrow> 'w guard \<Rightarrow> 'w guard cres" where
  "guard_unlock ae munlock g =
     (case g of (islocked, w) \<Rightarrow>
        ASSERT ae islocked
          (if islocked then bindE (munlock w) (\<lambda>(_, w). Inr (False, w)) else Inr (islocked, w)))"

definition guard_delete :: "bool \<Rightarrow> ('w \<Rightarrow> (bool \<times> 'w) cres) \<Rightarrow> 'w guard \<Rightarrow> 'w cres" where
  "guard_delete ae munlock g =
     (if fst g then bindE (guard_unlock ae munlock g) (\<lambda>(_, w). Inr w) else Inr (snd g))"

definition guard_trylock :: "('w \<Rightarrow> (bool \<times> 'w) cres) \<Rightarrow> 'w guard \<Rightarrow> (bool \<times> 'w guard) cres" where
  "guard_trylock mtrylock g =
     (case g of (islocked, w) \<Rightarrow>
        if islocked then Inr (False, (islocked, w))
        else bindE (mtrylock w) (\<lambda>(ok, w). Inr (ok, (ok, w))))"

definition guard_timedlock ::
  "bool \<Rightarrow> ('w \<Rightarrow> (bool \<times> 'w) cres) \<Rightarrow> 'w guard \<Rightarrow> (bool \<times> 'w guard) cres" where
  "guard_timedlock ae mtimedlock g =
     (case g of (islocked, w) \<Rightarrow>
        ASSERT ae (\<not> islocked)
          (if islocked then Inr (True, (islocked, w))
           else bindE (mtimedlock w) (\<lambda>(ok, w). Inr (ok, (ok, w)))))"

locale lockable =
  fixes mlock munlock mtrylock :: "'w \<Rightarrow> (bool \<times> 'w) cres"
    and wf free held :: "'w \<Rightarrow> bool"
  assumes lock_free: "wf w \<Longrightarrow> free w \<Longrightarrow>
      \<exists>w'. mlock w = Inr (True, w') \<and> wf w' \<and> held w' \<and> munlock w' = Inr (True, w)"
    and lock_other: "wf w \<Longrightarrow> \<not> free w \<Longrightarrow> \<not> held w \<Longrightarrow> mlock w = Inl WouldBlock"
    and unlock_held: "wf w \<Longrightarrow> held w \<Longrightarrow> \<exists>w'. munlock w = Inr (True, w') \<and> wf w' \<and> free w'"
    and trylock_free: "wf w \<Longrightarrow> free w \<Longrightarrow> mtrylock w = mlock w"
    and trylock_busy: "wf w \<Longrightarrow> \<not> free w \<Longrightarrow> mtrylock w = Inr (False, w)"
begin

text \<open>A scope opened on a free mutex owns it, and its end gives the mutex back unchanged.\<close>

lemma guard_scope:
  assumes "wf w" "free w"
  shows "\<exists>w'. guard_new ae mlock True w = Inr (True, w') \<and> held w'
              \<and> guard_delete ae munlock (True, w') = Inr w"
proof -
  obtain w' where "mlock w = Inr (True, w')" "held w'" "munlock w' = Inr (True, w)"
    using lock_free [OF assms] by blast
  then show ?thesis
    by (simp add: guard_new_def guard_lock_def guard_delete_def guard_unlock_def)
qed

text \<open>A scope opened on a mutex that another thread holds does not proceed.\<close>

lemma guard_waits:
  assumes "wf w" "\<not> free w" "\<not> held w"
  shows "guard_new ae mlock True w = Inl WouldBlock"
  using lock_other [OF assms] by (simp add: guard_new_def guard_lock_def)

text \<open>Unlocking early and then leaving the scope releases exactly once.\<close>

lemma guard_early_unlock:
  assumes "wf w" "held w"
  shows "\<exists>w'. guard_unlock ae munlock (True, w) = Inr (False, w') \<and> free w'
              \<and> guard_delete ae munlock (False, w') = Inr w'"
  using unlock_held [OF assms] by (auto simp: guard_delete_def guard_unlock_def)

lemma guard_trylock_flag:
  assumes "wf w" and "guard_trylock mtrylock (False, w) = Inr (ok, (fl, w'))"
  shows "ok = fl \<and> fl = free w \<and> (fl \<longrightarrow> held w') \<and> (\<not> fl \<longrightarrow> w' = w)"
proof (cases "free w")
  case True
  then obtain v where "mlock w = Inr (True, v)" "held v"
    using lock_free [OF assms(1)] by blast
  with assms True trylock_free show ?thesis by (auto simp: guard_trylock_def)
next
  case False
  with assms trylock_busy show ?thesis by (auto simp: guard_trylock_def)
qed

end

text \<open>The spin lock as a lockable: \<open>lock()\<close> seen from the state it finds.\<close>

definition SpinLock_lock_once :: "u32 \<Rightarrow> (bool \<times> u32) cres" where
  "SpinLock_lock_once st =
     (case SpinLock_lock [st] of None \<Rightarrow> Inl WouldBlock | Some (_, st') \<Rightarrow> Inr (True, st'))"

interpretation spin: lockable SpinLock_lock_once "\<lambda>st. Inr (SpinLock_unlock st)"
  "\<lambda>st. Inr (SpinLock_trylock st)" "\<lambda>st. st = 0 \<or> st = 1" "\<lambda>st. st = 0" "\<lambda>st. st = 1"
  by unfold_locales
    (auto simp: SpinLock_lock_once_def SpinLock_lock_def SpinLock_trylock_eq max_pause_def initial_pause_def)

text \<open>The error-checking mutex as seen by thread \<open>t\<close>.\<close>

definition Mutex_wf :: "Mutex \<Rightarrow> bool" where
  "Mutex_wf m \<longleftrightarrow> Mutex_magic_ok m \<and> pm_kind (mx_mutex m) = PTHREAD_MUTEX_ERRORCHECK
     \<and> pm_count (mx_mutex m) = (if pm_owner (mx_mutex m) = None then 0 else 1)"

definition Mutex_free :: "Mutex \<Rightarrow> bool" where
  "Mutex_free m \<longleftrightarrow> pm_owner (mx_mutex m) = None"

definition Mutex_held :: "tid \<Rightarrow> Mutex \<Rightarrow> bool" where
  "Mutex_held t m \<longleftrightarrow> pm_owner (mx_mutex m) = Some t"

lemmas mutex_op_defs = Mutex_lock_def Mutex_unlock_def Mutex_trylock_def Mutex_timedlock_def
  Mutex_islocked_def pthread_mutex_lock_def pthread_mutex_unlock_def pthread_mutex_trylock_def
  pthread_mutex_timedlock_def

lemmas mutex_state_defs = Mutex_wf_def Mutex_free_def Mutex_held_def Mutex_magic_ok_def

lemma Mutex_put_back [simp]:
  "Mutex_wf m \<Longrightarrow> Mutex_free m \<Longrightarrow> m\<lparr>mx_mutex := mx_mutex m\<lparr>pm_owner := None, pm_count := 0\<rparr>\<rparr> = m"
  by (cases m) (auto simp: mutex_state_defs intro: pthread_mutex.equality)

interpretation mtx: lockable "Mutex_lock ae t" "Mutex_unlock ae t" "Mutex_trylock ae t"
  Mutex_wf Mutex_free "Mutex_held t"
proof unfold_locales
  fix w assume w: "Mutex_wf w" "Mutex_free w"
  let ?w' = "w\<lparr>mx_mutex := mx_mutex w\<lparr>pm_owner := Some t, pm_count := 1\<rparr>\<rparr>"
  have "Mutex_lock ae t w = Inr (True, ?w')" "Mutex_wf ?w'" "Mutex_held t ?w'"
    using w by (auto simp: mutex_op_defs mutex_state_defs)
  moreover have "Mutex_unlock ae t ?w' = Inr (True, w)"
    using w Mutex_put_back [OF w] by (simp add: mutex_op_defs mutex_state_defs)
  ultimately show "\<exists>w'. Mutex_lock ae t w = Inr (True, w') \<and> Mutex_wf w' \<and> Mutex_held t w'
      \<and> Mutex_unlock ae t w' = Inr (True, w)" by blast
next
  fix w assume "Mutex_wf w" "Mutex_held t w"
  then show "\<exists>w'. Mutex_unlock ae t w = Inr (True, w') \<and> Mutex_wf w' \<and> Mutex_free w'"
    by (auto simp: mutex_op_defs mutex_state_defs)
qed (auto simp: mutex_op_defs mutex_state_defs EBUSY_def split: option.splits)

section \<open>Condition\<close>

text \<open>
  A condition variable with the sleeping threads in order of arrival, the flag
  \<open>anyway_notify_\<close> and the private mutex of the argument-less \<open>wait\<close>. A call of
  \<open>wait\<close> is split where the thread sleeps: \<open>Condition_wait_enter\<close> runs up to the
  sleep (or through, if the flag was set), \<open>Condition_wait_resume\<close> from the wake-up.
\<close>

record Condition =
  cv_waiters :: "tid list"
  cv_mutex :: Mutex
  cv_anyway :: u32

definition Condition_new :: "nat \<Rightarrow> Condition" where
  "Condition_new this_mutex = \<lparr>cv_waiters = [], cv_mutex = Mutex_new this_mutex False, cv_anyway = 0\<rparr>"

text \<open>What all \<open>wait\<close>s do after the sleep: clear the flag and judge the return code.\<close>

definition Condition_wait_leave :: "bool \<Rightarrow> bool \<Rightarrow> int \<Rightarrow> Condition \<Rightarrow> (int \<times> Condition) cres" where
  "Condition_wait_leave ae timed ret c =
     (let c = c\<lparr>cv_anyway := 0\<rparr>
      in if timed \<and> (ETIMEDOUT = ret \<or> 0 = ret) then Inr (ret, c)
         else ASSERT ae (0 = ret) (Inr (ret, c)))"

datatype wait_progress = Sleeping Condition Mutex | Returned int Condition Mutex

text \<open>
  \<open>pthread_cond_wait\<close> gives the mutex back while it sleeps; with an error-checking
  mutex it refuses (\<open>EPERM\<close>) a caller that does not own it.
\<close>

definition Condition_wait_enter ::
  "bool \<Rightarrow> bool \<Rightarrow> tid \<Rightarrow> Condition \<Rightarrow> Mutex \<Rightarrow> wait_progress cres" where
  "Condition_wait_enter ae timed t c m =
     (case atomic_cas32_gcc 0 1 (cv_anyway c) of (oldv, a) \<Rightarrow>
        let c = c\<lparr>cv_anyway := a\<rparr>
        in if oldv = 0 then
             (if Mutex_held t m then
                Inr (Sleeping (c\<lparr>cv_waiters := cv_waiters c @ [t]\<rparr>)
                              (m\<lparr>mx_mutex := snd (pthread_mutex_unlock t (mx_mutex m))\<rparr>))
              else bindE (Condition_wait_leave ae timed EPERM c) (\<lambda>(r, c). Inr (Returned r c m)))
           else bindE (Condition_wait_leave ae timed 0 c) (\<lambda>(r, c). Inr (Returned r c m)))"

definition Condition_wait_resume ::
  "bool \<Rightarrow> bool \<Rightarrow> tid \<Rightarrow> bool \<Rightarrow> Condition \<Rightarrow> Mutex \<Rightarrow> wait_progress cres" where
  "Condition_wait_resume ae timed t timeout c m =
     (if t \<in> set (cv_waiters c) \<and> \<not> (timed \<and> timeout) then Inl WouldBlock
      else bindE (pthread_mutex_lock t (mx_mutex m)) (\<lambda>(_, pm).
             bindE (Condition_wait_leave ae timed
                      (if t \<in> set (cv_waiters c) then ETIMEDOUT else 0)
                      (c\<lparr>cv_waiters := removeAll t (cv_waiters c)\<rparr>))
               (\<lambda>(r, c). Inr (Returned r c (m\<lparr>mx_mutex := pm\<rparr>)))))"

text \<open>The overloads on a guard check that the guard is locked.\<close>

definition Condition_wait_guard ::
  "bool \<Rightarrow> bool \<Rightarrow> tid \<Rightarrow> Condition \<Rightarrow> Mutex guard \<Rightarrow> wait_progress cres" where
  "Condition_wait_guard ae timed t c g =
     ASSERT ae (fst g) (Condition_wait_enter ae timed t c (snd g))"

text \<open>\<open>wait()\<close> and \<open>wait(long)\<close> lock the private mutex first.\<close>

definition Condition_wait_own :: "bool \<Rightarrow> bool \<Rightarrow> tid \<Rightarrow> Condition \<Rightarrow> wait_progress cres" where
  "Condition_wait_own ae timed t c =
     bindE (guard_new ae (Mutex_lock ae t) True (cv_mutex c)) (\<lambda>g.
       Condition_wait_guard ae timed t c g)"

text \<open>\<open>pthread_cond_signal\<close> wakes one sleeper, which one is the scheduler's choice.\<close>

definition Condition_notifyOne :: "nat \<Rightarrow> Condition \<Rightarrow> Condition" where
  "Condition_notifyOne i c =
     c\<lparr>cv_waiters := take i (cv_waiters c) @ drop (Suc i) (cv_waiters c)\<rparr>"

definition Condition_notifyAll :: "bool \<Rightarrow> Condition \<Rightarrow> Condition" where
  "Condition_notifyAll anywaynotify c =
     (let c = (if anywaynotify then c\<lparr>cv_anyway := 1\<rparr> else c) in c\<lparr>cv_waiters := []\<rparr>)"

definition Condition_cancelAnyWayNotify :: "Condition \<Rightarrow> Condition" where
  "Condition_cancelAnyWayNotify c = c\<lparr>cv_anyway := 0\<rparr>"

section \<open>Properties\<close>

text \<open>
  C8: two threads never hold the spin lock at the same time, however the steps of
  \<open>lock()\<close> and \<open>unlock()\<close> of any number of threads interleave.
\<close>

theorem SpinLock_mutual_exclusion:
  assumes "spin_reachable s" and "spin_pcs s t = Inside" and "spin_pcs s u = Inside"
  shows "t = u \<and> spin_state s = 1"
  using spin_reachable_inv [OF assms(1)] assms(2,3) by (auto simp: spin_inv_def)

theorem SpinLock_mutual_exclusion_witness:
  "spin_state \<lparr>spin_state = 1, spin_pcs = (\<lambda>_. Outside)(0 := Spinning 2, 0 := Inside)\<rparr> = 1"
proof -
  have 1: "spin_step spin_init (spin_init\<lparr>spin_pcs := (spin_pcs spin_init)(0 := Spinning initial_pause)\<rparr>)"
    by (rule spin_step.call) (simp add: spin_init_def)
  let ?s = "spin_init\<lparr>spin_pcs := (spin_pcs spin_init)(0 := Spinning initial_pause)\<rparr>"
  have 2: "spin_step ?s (?s\<lparr>spin_state := 1, spin_pcs := (spin_pcs ?s)(0 := Inside)\<rparr>)"
    by (rule spin_step.acquire) (simp_all add: spin_init_def SpinLock_new_def SpinLock_trylock_eq)
  have "spin_reachable (?s\<lparr>spin_state := 1, spin_pcs := (spin_pcs ?s)(0 := Inside)\<rparr>)"
    by (rule spin_reachable.step [OF spin_reachable.step [OF spin_reachable.start 1] 2])
  from SpinLock_mutual_exclusion [OF this, of 0 0] show ?thesis by simp
qed

text \<open>
  \<open>SpinLock::lock()\<close> returns exactly when it meets a free lock: at its first
  attempt that sees state 0, leaving state 1; before that it backs off after every
  attempt, spinning 2, 4 or 8 times, never more.
\<close>

theorem SpinLock_lock_spec:
  "(SpinLock_lock obs = None \<longleftrightarrow> 0 \<notin> set obs)
   \<and> (\<forall>bs r. SpinLock_lock obs = Some (bs, r) \<longrightarrow>
        r = 1 \<and> length bs < length obs \<and> obs ! length bs = 0 \<and> (\<forall>i < length bs. obs ! i \<noteq> 0)
        \<and> (\<forall>n. Relax n \<in> set bs \<longrightarrow> n = 2 \<or> n = 4 \<or> n = 8))"
  using SpinLock_lock_loop_trace [of initial_pause obs]
  by (simp add: SpinLock_lock_def SpinLock_lock_loop_None pause_ok_def initial_pause_def)

theorem SpinLock_lock_spec_witness:
  "SpinLock_lock [1, 1, 0] = Some ([Relax 2, Relax 4], 1) \<and> [1, 1, 0 :: u32] ! 2 = 0"
proof -
  have l: "SpinLock_lock [1, 1, 0] = Some ([Relax 2, Relax 4], 1)"
    by (simp add: SpinLock_lock_def SpinLock_trylock_eq initial_pause_def max_pause_def)
  with SpinLock_lock_spec [of "[1, 1, 0]"] show ?thesis by simp
qed

text \<open>
  the scoped guard is balanced. On a free mutex its constructor acquires it for
  the calling thread and its destructor restores the mutex to the state before the
  scope; while another thread holds the mutex the constructor does not return.
\<close>

theorem ScopedLock_balanced:
  assumes "Mutex_wf m"
  shows "(Mutex_free m \<longrightarrow>
            (\<exists>m'. guard_new ae (Mutex_lock ae t) True m = Inr (True, m') \<and> Mutex_held t m'
                  \<and> guard_delete ae (Mutex_unlock ae t) (True, m') = Inr m))
         \<and> (\<not> Mutex_free m \<and> \<not> Mutex_held t m \<longrightarrow>
            guard_new ae (Mutex_lock ae t) True m = Inl WouldBlock)"
  using mtx.guard_scope [OF assms] mtx.guard_waits [OF assms] by blast

theorem ScopedLock_balanced_witness:
  "Mutex_wf (Mutex_new 4096 False) \<and>
   (\<exists>m'. guard_new True (Mutex_lock True 7) True (Mutex_new 4096 False) = Inr (True, m') \<and> Mutex_held 7 m'
         \<and> guard_delete True (Mutex_unlock True 7) (True, m') = Inr (Mutex_new 4096 False))"
  using ScopedLock_balanced [of "Mutex_new 4096 False" True 7]
  by (simp add: Mutex_new_def mutex_state_defs)



lemma timeout_arith:
  fixes sec :: int
  assumes "sec = a + s + q" "nsec = r" "x = b * 1000 * 1000 + us * 1000"
    "q * 1000000000 + r = x" "a * 1000 + b = ms"
  shows "sec * 1000000000 + nsec = (s * 1000000 + us) * 1000 + ms * 1000000"
  using assms by algebra

text \<open>
  the deadline computed by \<open>MakeTimeout\<close> (mutex and condition variable) is a
  normalised \<open>timespec\<close> that lies exactly \<open>millisecond\<close> after the clock reading.
\<close>

theorem MakeTimeout_exact:
  assumes "0 \<le> ms" and "0 \<le> us" and "us < 1000000" and "0 \<le> s"
    and "MakeTimeout s us ms = (sec, nsec)"
  shows "0 \<le> nsec \<and> nsec < 1000000000
         \<and> sec * 1000000000 + nsec = (s * 1000000 + us) * 1000 + ms * 1000000"
proof -
  define x where "x = ms mod 1000 * 1000 * 1000 + us * 1000"
  have nn: "0 \<le> x" using assms by (simp add: x_def)
  have eqs: "sec = ms div 1000 + s + x div 1000000000" "nsec = x mod 1000000000"
    using assms nn by (simp_all add: MakeTimeout_def Let_def x_def)
  have dm: "x div 1000000000 * 1000000000 + x mod 1000000000 = x" "ms div 1000 * 1000 + ms mod 1000 = ms"
    by simp_all
  have "sec * 1000000000 + nsec = (s * 1000000 + us) * 1000 + ms * 1000000"
    by (rule timeout_arith [OF eqs x_def dm])
  then show ?thesis using eqs(2) by simp
qed

theorem MakeTimeout_exact_witness: "MakeTimeout 10 999999 1500 = (12, 499999000)"
  using MakeTimeout_exact [of 1500 999999 10 12 499999000]
  by (simp add: MakeTimeout_def Let_def)

text \<open>
  \<open>notifyAll(true)\<close> is not lost when nobody waits yet: the next \<open>wait\<close> of any
  thread returns at once and consumes the flag, and the one after that sleeps again,
  handing its mutex back; a wake-up by \<open>notifyAll\<close> returns with the mutex re-acquired.
\<close>

theorem Condition_anyway_notify:
  assumes "Mutex_wf m" and "Mutex_held t m" and "c' = Condition_notifyAll True c"
  shows "Condition_wait_enter ae timed t c' m = Inr (Returned 0 (c'\<lparr>cv_anyway := 0\<rparr>) m)
         \<and> (\<exists>c2 m2. Condition_wait_enter ae timed t (c'\<lparr>cv_anyway := 0\<rparr>) m = Inr (Sleeping c2 m2)
              \<and> Mutex_wf m2 \<and> Mutex_free m2
              \<and> Condition_wait_resume ae False t False c2 m2 = Inl WouldBlock
              \<and> Condition_wait_resume ae timed t False (Condition_notifyAll False c2) m2
                  = Inr (Returned 0 (Condition_notifyAll False c2) m))"
proof -
  let ?m2 = "m\<lparr>mx_mutex := snd (pthread_mutex_unlock t (mx_mutex m))\<rparr>"
  let ?c2 = "c'\<lparr>cv_anyway := 0, cv_waiters := cv_waiters c' @ [t]\<rparr>"
  have m2: "Mutex_wf ?m2" "Mutex_free ?m2"
    using assms by (auto simp: mutex_op_defs mutex_state_defs)
  have relock: "pthread_mutex_lock t (mx_mutex ?m2) = Inr (0, mx_mutex m)"
    using assms by (cases m) (auto simp: mutex_op_defs mutex_state_defs intro!: pthread_mutex.equality)
  have "Condition_wait_enter ae timed t c' m = Inr (Returned 0 (c'\<lparr>cv_anyway := 0\<rparr>) m)"
    using assms by (simp add: Condition_wait_enter_def Condition_notifyAll_def gcc.cas_law
        Condition_wait_leave_def Let_def)
  moreover have "Condition_wait_enter ae timed t (c'\<lparr>cv_anyway := 0\<rparr>) m = Inr (Sleeping ?c2 ?m2)"
    using assms(2) by (simp add: Condition_wait_enter_def gcc.cas_law)
  moreover have "Condition_wait_resume ae False t False ?c2 ?m2 = Inl WouldBlock"
    by (simp add: Condition_wait_resume_def)
  moreover have "Condition_wait_resume ae timed t False (Condition_notifyAll False ?c2) ?m2
                  = Inr (Returned 0 (Condition_notifyAll False ?c2) m)"
    using relock by (simp add: Condition_wait_resume_def Condition_notifyAll_def Condition_wait_leave_def Let_def)
  ultimately show ?thesis using m2 by blast
qed

theorem Condition_anyway_notify_witness:
  "Condition_wait_enter True False 7 (Condition_notifyAll True (Condition_new 64))
     \<lparr>mx_this = 1, mx_magic = 1,
      mx_mutex = \<lparr>pm_kind = PTHREAD_MUTEX_ERRORCHECK, pm_owner = Some 7, pm_count = 1\<rparr>\<rparr>
   = Inr (Returned 0 (Condition_new 64)
     \<lparr>mx_this = 1, mx_magic = 1,
      mx_mutex = \<lparr>pm_kind = PTHREAD_MUTEX_ERRORCHECK, pm_owner = Some 7, pm_count = 1\<rparr>\<rparr>)"
  using Condition_anyway_notify [of "\<lparr>mx_this = 1, mx_magic = 1,
      mx_mutex = \<lparr>pm_kind = PTHREAD_MUTEX_ERRORCHECK, pm_owner = Some 7, pm_count = 1\<rparr>\<rparr>" 7
      "Condition_notifyAll True (Condition_new 64)" "Condition_new 64" True False]
  by (simp add: mutex_state_defs Condition_new_def Condition_notifyAll_def)

end
