(* ===== verification/Cursor.thy ===== *)
theory Cursor
  imports Prelude
begin

text \<open>
  The contract that the two byte buffers of \<open>utils/\<close> share (\<open>AutoBuffer\<close>, which grows,
  and \<open>BufferIO\<close>, which does not): a byte sequence with a cursor. Writing replaces or
  extends the sequence at the cursor and advances it, reading returns the bytes at
  the cursor and advances it. What follows from the contract alone is proved here,
  once, for both.
\<close>

section \<open>Checked access to blocks\<close>

text \<open>\<open>memcpy\<close>, \<open>memset\<close> into a block and reading from one; zero bytes touch nothing.\<close>

definition block_write :: "byte list option \<Rightarrow> int \<Rightarrow> byte list \<Rightarrow> byte list option cres" where
  "block_write arr off bs =
     (if bs = [] then Inr arr
      else case arr of
        None \<Rightarrow> Inl MemFault
      | Some xs \<Rightarrow>
          if 0 \<le> off \<and> nat off + length bs \<le> length xs
          then Inr (Some (put_at xs (nat off) bs)) else Inl MemFault)"

definition block_read :: "byte list option \<Rightarrow> int \<Rightarrow> nat \<Rightarrow> byte list cres" where
  "block_read arr off n =
     (if n = 0 then Inr []
      else case arr of
        None \<Rightarrow> Inl MemFault
      | Some xs \<Rightarrow>
          if 0 \<le> off \<and> nat off + n \<le> length xs then Inr (get_at xs (nat off) n) else Inl MemFault)"

datatype TSeek = SeekStart | SeekCur | SeekEnd

section \<open>The contract\<close>

locale cursor_stream =
  fixes inv :: "'b \<Rightarrow> bool"
    and contents :: "'b \<Rightarrow> byte list"
    and pos :: "'b \<Rightarrow> nat"
    and room :: "nat \<Rightarrow> 'b \<Rightarrow> bool"
    and wr :: "byte list \<Rightarrow> 'b \<Rightarrow> 'b cres"
    and rd :: "nat \<Rightarrow> 'b \<Rightarrow> (byte list \<times> 'b) cres"
    and seek :: "nat \<Rightarrow> 'b \<Rightarrow> 'b"
  assumes pos_le: "inv b \<Longrightarrow> pos b \<le> length (contents b)"
    and wr_law: "inv b \<Longrightarrow> room (length bs) b \<Longrightarrow>
      \<exists>b'. wr bs b = Inr b' \<and> inv b' \<and> contents b' = put_at (contents b) (pos b) bs
           \<and> pos b' = pos b + length bs"
    and rd_law: "inv b \<Longrightarrow> pos b < length (contents b) \<Longrightarrow>
      \<exists>b'. rd n b = Inr (get_at (contents b) (pos b) (min n (length (contents b) - pos b)), b')
           \<and> inv b' \<and> contents b' = contents b
           \<and> pos b' = pos b + min n (length (contents b) - pos b)"
    and seek_law: "inv b \<Longrightarrow> p \<le> length (contents b) \<Longrightarrow>
      inv (seek p b) \<and> contents (seek p b) = contents b \<and> pos (seek p b) = p"
begin

text \<open>Reading back what was just written, from where it was written.\<close>

lemma write_read_back:
  assumes "inv b" "room (length bs) b" "bs \<noteq> []"
  shows "\<exists>b1 b2. wr bs b = Inr b1 \<and> rd (length bs) (seek (pos b) b1) = Inr (bs, b2)
                \<and> contents b2 = contents b1 \<and> pos b2 = pos b1 \<and> inv b2"
proof -
  obtain b1 where b1: "wr bs b = Inr b1" "inv b1" "contents b1 = put_at (contents b) (pos b) bs"
    "pos b1 = pos b + length bs"
    using wr_law [OF assms(1,2)] by blast
  have le: "pos b + length bs \<le> length (contents b1)"
    using pos_le [OF b1(2)] b1(4) by simp
  let ?s = "seek (pos b) b1"
  have s: "inv ?s" "contents ?s = contents b1" "pos ?s = pos b"
    using seek_law [OF b1(2), of "pos b"] le by auto
  have m: "min (length bs) (length (contents b1) - pos b) = length bs" using le by simp
  have lt: "pos ?s < length (contents ?s)"
  proof -
    have "0 < length bs" using assms(3) by simp
    then show ?thesis using le unfolding s by linarith
  qed
  obtain b2 where b2: "rd (length bs) ?s = Inr (get_at (contents b1) (pos b) (length bs), b2)"
    "inv b2" "contents b2 = contents b1" "pos b2 = pos b + length bs"
    using rd_law [OF s(1) lt, of "length bs"] by (simp only: s m) blast
  have "get_at (contents b1) (pos b) (length bs) = bs"
    using pos_le [OF assms(1)] by (simp add: b1(3) get_at_def put_at_def)
  with b1 b2 show ?thesis by auto
qed

text \<open>Two writes in a row are one write of the concatenation.\<close>

lemma write_write:
  assumes "inv b" "room (length xs) b" "wr xs b = Inr b1" "room (length ys) b1"
  shows "\<exists>b2. wr ys b1 = Inr b2 \<and> contents b2 = put_at (contents b) (pos b) (xs @ ys)
              \<and> pos b2 = pos b + length (xs @ ys)"
proof -
  have b1: "inv b1" "contents b1 = put_at (contents b) (pos b) xs" "pos b1 = pos b + length xs"
    using wr_law [OF assms(1,2)] assms(3) by auto
  obtain b2 where b2: "wr ys b1 = Inr b2" "contents b2 = put_at (contents b1) (pos b1) ys"
    "pos b2 = pos b1 + length ys"
    using wr_law [OF b1(1) assms(4)] by blast
  have "put_at (contents b1) (pos b1) ys = put_at (contents b) (pos b) (xs @ ys)"
    using pos_le [OF assms(1)] by (simp add: b1 put_at_def ac_simps)
  with b1 b2 show ?thesis by simp
qed

end

end
