(* ===== verification/AutoBuffer.thy ===== *)
theory AutoBuffer
  imports Cursor
begin

text \<open>
  Model of \<open>utils/autobuffer.h\<close> and \<open>utils/autobuffer.cc\<close>: the growable byte buffer
  with a cursor. \<open>parray_\<close> is an optional block (\<open>None\<close> is \<open>NULL\<close>), \<open>off_t\<close> values are
  integers, \<open>size_t\<close> values natural numbers below \<open>2^64\<close> with the wrap-around of C
  written out. Every access of the block is checked: an access outside it is the
  value \<open>MemFault\<close>. Parameters: \<open>ae\<close> (assertions enabled) and \<open>mem_ok\<close>, which tells
  whether the allocator can serve a request of the given size.
\<close>

section \<open>State\<close>

record AutoBuffer =
  ab_parray :: "byte list option"
  ab_pos :: int
  ab_length :: nat
  ab_capacity :: nat
  ab_unitsize :: nat

definition AutoBuffer_new :: "nat \<Rightarrow> AutoBuffer" where
  "AutoBuffer_new nSize =
     \<lparr>ab_parray = None, ab_pos = 0, ab_length = 0, ab_capacity = 0, ab_unitsize = nSize\<rparr>"

section \<open>Operations\<close>

definition ab_Pos :: "AutoBuffer \<Rightarrow> int" where "ab_Pos b = ab_pos b"
definition ab_Length :: "AutoBuffer \<Rightarrow> nat" where "ab_Length b = ab_length b"
definition ab_Capacity :: "AutoBuffer \<Rightarrow> nat" where "ab_Capacity b = ab_capacity b"

definition ab_PosLength :: "AutoBuffer \<Rightarrow> nat" where
  "ab_PosLength b = size_sub (ab_length b) (to_size (ab_pos b))"

text \<open>
  \<open>realloc\<close> keeps the common prefix; \<open>memset\<close> then clears from the old capacity to the
  new size. When \<open>realloc\<close> fails the code logs, frees the old block and goes on with
  \<open>NULL\<close>, on which the \<open>memset\<close> faults.
\<close>

definition ab_mallocsize :: "nat \<Rightarrow> nat \<Rightarrow> nat" where
  "ab_mallocsize len unitsize =
     size_mul (size_sub (size_add len unitsize) 1 div unitsize) unitsize"

definition ab_FitSize :: "bool \<Rightarrow> (nat \<Rightarrow> bool) \<Rightarrow> nat \<Rightarrow> AutoBuffer \<Rightarrow> AutoBuffer cres" where
  "ab_FitSize ae mem_ok len b =
     (if len > ab_capacity b then
        (if ab_unitsize b = 0 then Inl DivByZero
         else
           let mallocsize = ab_mallocsize len (ab_unitsize b);
               p = (if mem_ok mallocsize \<and> 0 < mallocsize then
                      Some (take mallocsize (case ab_parray b of None \<Rightarrow> [] | Some xs \<Rightarrow> xs)
                            @ replicate (mallocsize - length (case ab_parray b of None \<Rightarrow> [] | Some xs \<Rightarrow> xs)) 0)
                    else None)
           in ASSERT ae (p \<noteq> None)
               (ASSERT ae (len \<le> 10 * 1024 * 1024)
                 (ASSERT ae (p \<noteq> None)
                   (bindE (block_write p (int (ab_capacity b))
                             (replicate (size_sub mallocsize (ab_capacity b)) 0))
                     (\<lambda>arr. if p = None then Inl MemFault
                            else Inr (b\<lparr>ab_parray := arr, ab_capacity := mallocsize\<rparr>))))))
      else Inr b)"

definition ab_Seek :: "int \<Rightarrow> TSeek \<Rightarrow> AutoBuffer \<Rightarrow> AutoBuffer" where
  "ab_Seek offset eorigin b =
     (let pos = (case eorigin of
                   SeekStart \<Rightarrow> offset
                 | SeekCur \<Rightarrow> ab_pos b + offset
                 | SeekEnd \<Rightarrow> to_off (size_add (ab_length b) (to_size offset)));
          pos = (if pos < 0 then 0 else pos);
          pos = (if to_size pos > ab_length b then to_off (ab_length b) else pos)
      in b\<lparr>ab_pos := pos\<rparr>)"

definition ab_SetLength :: "bool \<Rightarrow> int \<Rightarrow> nat \<Rightarrow> AutoBuffer \<Rightarrow> AutoBuffer cres" where
  "ab_SetLength ae pos lenght b =
     ASSERT ae (0 \<le> pos)
       (ASSERT ae (to_size pos \<le> lenght)
         (ASSERT ae (lenght \<le> ab_capacity b)
           (Inr (ab_Seek pos SeekStart (b\<lparr>ab_length := lenght\<rparr>)))))"

definition ab_AllocWrite :: "bool \<Rightarrow> (nat \<Rightarrow> bool) \<Rightarrow> nat \<Rightarrow> bool \<Rightarrow> AutoBuffer \<Rightarrow> AutoBuffer cres" where
  "ab_AllocWrite ae mem_ok readytowrite changelength b =
     (let nLen = size_add (to_size (ab_pos b)) readytowrite
      in bindE (ab_FitSize ae mem_ok nLen b) (\<lambda>b.
           Inr (if changelength then b\<lparr>ab_length := max nLen (ab_length b)\<rparr> else b)))"

definition ab_AddCapacity :: "bool \<Rightarrow> (nat \<Rightarrow> bool) \<Rightarrow> nat \<Rightarrow> AutoBuffer \<Rightarrow> AutoBuffer cres" where
  "ab_AddCapacity ae mem_ok len b = ab_FitSize ae mem_ok (size_add (ab_capacity b) len) b"

text \<open>\<open>Write(const off_t&, const void*, size_t)\<close>; the source is a buffer or \<open>NULL\<close>.\<close>

definition ab_WriteAt ::
  "bool \<Rightarrow> (nat \<Rightarrow> bool) \<Rightarrow> int \<Rightarrow> byte list option \<Rightarrow> nat \<Rightarrow> AutoBuffer \<Rightarrow> AutoBuffer cres" where
  "ab_WriteAt ae mem_ok pos pbuffer len b =
     ASSERT ae (pbuffer \<noteq> None \<or> len = 0)
       (ASSERT ae (0 \<le> pos)
         (ASSERT ae (to_size pos \<le> ab_length b)
           (let nLen = size_add (to_size pos) len
            in bindE (ab_FitSize ae mem_ok nLen b) (\<lambda>b.
                 let b = b\<lparr>ab_length := max nLen (ab_length b)\<rparr>
                 in bindE (block_read pbuffer 0 len) (\<lambda>bytes.
                      bindE (block_write (ab_parray b) pos bytes) (\<lambda>arr.
                        Inr (b\<lparr>ab_parray := arr\<rparr>)))))))"

text \<open>\<open>Write(const void*, size_t)\<close>: at the cursor, which then advances.\<close>

definition ab_Write ::
  "bool \<Rightarrow> (nat \<Rightarrow> bool) \<Rightarrow> byte list option \<Rightarrow> nat \<Rightarrow> AutoBuffer \<Rightarrow> AutoBuffer cres" where
  "ab_Write ae mem_ok pbuffer len b =
     bindE (ab_WriteAt ae mem_ok (ab_pos b) pbuffer len b) (\<lambda>b.
       Inr (ab_Seek (to_off len) SeekCur b))"

text \<open>\<open>Write(off_t&, ...)\<close>: the caller's position advances.\<close>

definition ab_WriteRef ::
  "bool \<Rightarrow> (nat \<Rightarrow> bool) \<Rightarrow> int \<Rightarrow> byte list option \<Rightarrow> nat \<Rightarrow> AutoBuffer \<Rightarrow> (int \<times> AutoBuffer) cres" where
  "ab_WriteRef ae mem_ok pos pbuffer len b =
     bindE (ab_WriteAt ae mem_ok pos pbuffer len b) (\<lambda>b.
       Inr (to_off (size_add (to_size pos) len), b))"

text \<open>\<open>Write(TSeek, ...)\<close>: at the start, the cursor or the end; \<open>pos\<close> is a local \<open>off_t\<close>.\<close>

definition ab_WriteSeek ::
  "bool \<Rightarrow> (nat \<Rightarrow> bool) \<Rightarrow> TSeek \<Rightarrow> byte list option \<Rightarrow> nat \<Rightarrow> AutoBuffer \<Rightarrow> AutoBuffer cres" where
  "ab_WriteSeek ae mem_ok seek pbuffer len b =
     (let pos = (case seek of SeekStart \<Rightarrow> 0 | SeekCur \<Rightarrow> ab_pos b | SeekEnd \<Rightarrow> to_off (ab_length b))
      in bindE (ab_WriteRef ae mem_ok pos pbuffer len b) (\<lambda>(_, b). Inr b))"

text \<open>
  \<open>Read(const off_t&, void*, size_t)\<close>: how much is read is computed from the
  argument \<open>pos\<close>; the bytes are copied from \<open>PosPtr()\<close>, the cursor.
\<close>

definition ab_ReadAt :: "bool \<Rightarrow> int \<Rightarrow> nat \<Rightarrow> AutoBuffer \<Rightarrow> byte list cres" where
  "ab_ReadAt ae pos len b =
     ASSERT ae (0 \<le> pos)
       (ASSERT ae (to_size pos \<le> ab_length b)
         (let readlen = min (size_sub (ab_length b) (to_size pos)) len
          in block_read (ab_parray b) (ab_pos b) readlen))"

definition ab_Read :: "bool \<Rightarrow> nat \<Rightarrow> AutoBuffer \<Rightarrow> (byte list \<times> AutoBuffer) cres" where
  "ab_Read ae len b =
     bindE (ab_ReadAt ae (ab_pos b) len b) (\<lambda>bytes.
       Inr (bytes, ab_Seek (int (length bytes)) SeekCur b))"

definition ab_ReadRef :: "bool \<Rightarrow> int \<Rightarrow> nat \<Rightarrow> AutoBuffer \<Rightarrow> (byte list \<times> int) cres" where
  "ab_ReadRef ae pos len b =
     bindE (ab_ReadAt ae pos len b) (\<lambda>bytes. Inr (bytes, pos + int (length bytes)))"

text \<open>\<open>Read(const off_t&, AutoBuffer&, size_t)\<close> appends to another buffer at its cursor.\<close>

definition ab_ReadAtInto ::
  "bool \<Rightarrow> (nat \<Rightarrow> bool) \<Rightarrow> int \<Rightarrow> AutoBuffer \<Rightarrow> nat \<Rightarrow> AutoBuffer \<Rightarrow> (nat \<times> AutoBuffer) cres" where
  "ab_ReadAtInto ae mem_ok pos rhs len b =
     (let readlen = min (size_sub (ab_length b) (to_size pos)) len
      in bindE (block_read (ab_parray b) (ab_pos b) readlen) (\<lambda>bytes.
           bindE (ab_Write ae mem_ok (Some bytes) readlen rhs) (\<lambda>rhs. Inr (readlen, rhs))))"

definition ab_ReadInto ::
  "bool \<Rightarrow> (nat \<Rightarrow> bool) \<Rightarrow> AutoBuffer \<Rightarrow> nat \<Rightarrow> AutoBuffer \<Rightarrow> (nat \<times> AutoBuffer \<times> AutoBuffer) cres" where
  "ab_ReadInto ae mem_ok rhs len b =
     bindE (ab_ReadAtInto ae mem_ok (ab_pos b) rhs len b) (\<lambda>(readlen, rhs).
       Inr (readlen, rhs, ab_Seek (to_off readlen) SeekCur b))"

definition ab_ReadRefInto ::
  "bool \<Rightarrow> (nat \<Rightarrow> bool) \<Rightarrow> int \<Rightarrow> AutoBuffer \<Rightarrow> nat \<Rightarrow> AutoBuffer \<Rightarrow> (nat \<times> AutoBuffer \<times> int) cres" where
  "ab_ReadRefInto ae mem_ok pos rhs len b =
     bindE (ab_ReadAtInto ae mem_ok pos rhs len b) (\<lambda>(readlen, rhs).
       Inr (readlen, rhs, pos + to_off readlen))"

text \<open>\<open>Move\<close>: a positive length opens a zeroed gap at the front, others drop a prefix.\<close>

definition ab_Move :: "bool \<Rightarrow> (nat \<Rightarrow> bool) \<Rightarrow> int \<Rightarrow> AutoBuffer \<Rightarrow> AutoBuffer cres" where
  "ab_Move ae mem_ok move_len b =
     (if 0 < move_len then
        bindE (ab_FitSize ae mem_ok (size_add (ab_length b) (to_size move_len)) b) (\<lambda>b.
        bindE (block_read (ab_parray b) 0 (ab_length b)) (\<lambda>bytes.
        bindE (block_write (ab_parray b) move_len bytes) (\<lambda>arr.
        bindE (block_write arr 0 (replicate (to_size move_len) 0)) (\<lambda>arr.
          ab_SetLength ae (ab_pos b + move_len) (size_add (ab_length b) (to_size move_len))
            (b\<lparr>ab_parray := arr\<rparr>)))))
      else
        let mv = to_size (- move_len);
            mv = (if mv > ab_length b then ab_length b else mv)
        in bindE (block_read (ab_parray b) (int mv) (ab_length b - mv)) (\<lambda>bytes.
           bindE (block_write (ab_parray b) 0 bytes) (\<lambda>arr.
             ab_SetLength ae (if mv < to_size (ab_pos b) then ab_pos b - int mv else 0)
               (ab_length b - mv) (b\<lparr>ab_parray := arr\<rparr>))))"

text \<open>\<open>Reset\<close> frees the block; the freed block is returned as the second component.\<close>

definition ab_Reset :: "AutoBuffer \<Rightarrow> AutoBuffer \<times> byte list option" where
  "ab_Reset b =
     (b\<lparr>ab_parray := None, ab_pos := 0, ab_length := 0, ab_capacity := 0\<rparr>, ab_parray b)"

definition ab_Attach :: "byte list option \<Rightarrow> nat \<Rightarrow> AutoBuffer \<Rightarrow> AutoBuffer" where
  "ab_Attach pbuffer len b =
     (let b = fst (ab_Reset b) in b\<lparr>ab_parray := pbuffer, ab_length := len, ab_capacity := len\<rparr>)"

definition ab_AttachBuffer :: "AutoBuffer \<Rightarrow> AutoBuffer \<Rightarrow> AutoBuffer \<times> AutoBuffer" where
  "ab_AttachBuffer rhs b =
     (let b = fst (ab_Reset b);
          b = b\<lparr>ab_parray := ab_parray rhs, ab_pos := ab_pos rhs, ab_length := ab_length rhs,
                ab_capacity := ab_capacity rhs\<rparr>;
          rhs = fst (ab_Reset (rhs\<lparr>ab_parray := None\<rparr>))
      in (b, rhs))"

definition ab_Detach :: "AutoBuffer \<Rightarrow> (byte list option \<times> nat) \<times> AutoBuffer" where
  "ab_Detach b =
     (let ret = ab_parray b;
          b = b\<lparr>ab_parray := None\<rparr>;
          nLen = ab_length b
      in ((ret, nLen), fst (ab_Reset b)))"

text \<open>The constructors that take initial bytes.\<close>

definition AutoBuffer_attach :: "byte list option \<Rightarrow> nat \<Rightarrow> nat \<Rightarrow> AutoBuffer" where
  "AutoBuffer_attach pbuffer len nSize = ab_Attach pbuffer len (AutoBuffer_new nSize)"

definition AutoBuffer_copy ::
  "bool \<Rightarrow> (nat \<Rightarrow> bool) \<Rightarrow> byte list option \<Rightarrow> nat \<Rightarrow> nat \<Rightarrow> AutoBuffer cres" where
  "AutoBuffer_copy ae mem_ok pbuffer len nSize =
     ab_WriteAt ae mem_ok 0 pbuffer len (AutoBuffer_new nSize)"

section \<open>Invariant and abstraction\<close>

abbreviation ab_block :: "AutoBuffer \<Rightarrow> byte list" where
  "ab_block b \<equiv> (case ab_parray b of None \<Rightarrow> [] | Some xs \<Rightarrow> xs)"

definition ab_inv :: "AutoBuffer \<Rightarrow> bool" where
  "ab_inv b \<longleftrightarrow> length (ab_block b) = ab_capacity b \<and> (ab_parray b = None \<longrightarrow> ab_capacity b = 0)
     \<and> 0 \<le> ab_pos b \<and> nat (ab_pos b) \<le> ab_length b \<and> ab_length b \<le> ab_capacity b
     \<and> 0 < ab_unitsize b \<and> ab_unitsize b < 4611686018427387904 \<and> ab_capacity b < 4611686018427387904"

text \<open>The abstract value: the bytes in use.\<close>

definition ab_contents :: "AutoBuffer \<Rightarrow> byte list" where
  "ab_contents b = take (ab_length b) (ab_block b)"

text \<open>The size \<open>__FitSize\<close> allocates: \<open>len\<close> rounded up to a multiple of the unit.\<close>

definition round_up :: "nat \<Rightarrow> nat \<Rightarrow> nat" where
  "round_up len unit = (len + unit - 1) div unit * unit"

lemma round_up_bounds:
  assumes "0 < unit"
  shows "len \<le> round_up len unit" "round_up len unit < len + unit" "unit dvd round_up len unit"
proof -
  let ?x = "len + unit - 1"
  have "?x div unit * unit + ?x mod unit = ?x" and "?x mod unit < unit"
    using assms by simp_all
  then show "len \<le> round_up len unit" "round_up len unit < len + unit"
    using assms unfolding round_up_def by linarith+
qed (simp add: round_up_def)

lemma fit_mallocsize:
  assumes "0 < unit" "unit < 4611686018427387904" "len < 4611686018427387904" "0 < len"
  shows "ab_mallocsize len unit = round_up len unit"
proof -
  have "size_sub (size_add len unit) 1 = len + unit - 1" using assms by simp
  moreover have "(len + unit - 1) div unit * unit < SIZE_MOD"
    using round_up_bounds(2) [of unit len] assms by (simp add: round_up_def)
  ultimately show ?thesis by (simp add: ab_mallocsize_def round_up_def size_mul_def)
qed

definition fits :: "(nat \<Rightarrow> bool) \<Rightarrow> nat \<Rightarrow> AutoBuffer \<Rightarrow> bool" where
  "fits mem_ok len b \<longleftrightarrow> len \<le> 10 * 1024 * 1024 \<and>
     (len > ab_capacity b \<longrightarrow> mem_ok (round_up len (ab_unitsize b)) \<and> round_up len (ab_unitsize b) < 4611686018427387904)"

lemma FitSize_grow:
  assumes inv: "ab_inv b" and "fits mem_ok len b" and "len > ab_capacity b"
  shows "ab_FitSize ae mem_ok len b =
    Inr (b\<lparr>ab_parray := Some (ab_block b @ replicate (round_up len (ab_unitsize b) - ab_capacity b) 0),
          ab_capacity := round_up len (ab_unitsize b)\<rparr>)"
proof -
  let ?m = "round_up len (ab_unitsize b)"
  have u: "0 < ab_unitsize b" "ab_unitsize b < 4611686018427387904" using inv by (simp_all add: ab_inv_def)
  have l: "len < 4611686018427387904" "len \<le> 10485760" using assms(2) by (auto simp: fits_def)
  have ms: "ab_mallocsize len (ab_unitsize b) = ?m"
    using fit_mallocsize [OF u l(1)] assms(3) by simp
  have m: "ab_capacity b < ?m" "?m < 4611686018427387904" "mem_ok ?m"
    using round_up_bounds [OF u(1), of len] assms by (auto simp: fits_def)
  have blk: "length (ab_block b) = ab_capacity b" using inv by (simp add: ab_inv_def)
  have sub: "size_sub ?m (ab_capacity b) = ?m - ab_capacity b" using m by simp
  have wr: "block_write (Some (ab_block b @ replicate (?m - ab_capacity b) 0)) (int (ab_capacity b))
              (replicate (?m - ab_capacity b) 0)
            = Inr (Some (ab_block b @ replicate (?m - ab_capacity b) 0))"
    using m blk by (simp add: block_write_def put_at_def)
  have tk: "take ?m (ab_block b) = ab_block b" using m blk by simp
  show ?thesis
    using assms(3) u m l blk by (simp add: ab_FitSize_def ms Let_def sub wr tk)
qed

lemma FitSize_noop: "\<not> len > ab_capacity b \<Longrightarrow> ab_FitSize ae mem_ok len b = Inr b"
  by (simp add: ab_FitSize_def)

lemma FitSize_ok:
  assumes "ab_inv b" and "fits mem_ok len b"
  obtains b' where "ab_FitSize ae mem_ok len b = Inr b'" "ab_inv b'" "len \<le> ab_capacity b'"
    "ab_capacity b \<le> ab_capacity b'"
    "take (ab_capacity b) (ab_block b') = ab_block b" "ab_contents b' = ab_contents b"
    "\<forall>i. ab_capacity b \<le> i \<and> i < ab_capacity b' \<longrightarrow> ab_block b' ! i = 0"
    "ab_pos b' = ab_pos b" "ab_length b' = ab_length b" "ab_unitsize b' = ab_unitsize b"
proof (cases "len > ab_capacity b")
  case True
  let ?m = "round_up len (ab_unitsize b)"
  let ?b' = "b\<lparr>ab_parray := Some (ab_block b @ replicate (?m - ab_capacity b) 0), ab_capacity := ?m\<rparr>"
  have m: "len \<le> ?m" using round_up_bounds(1) [of "ab_unitsize b" len] assms(1) by (simp add: ab_inv_def)
  have blk: "length (ab_block b) = ab_capacity b" using assms(1) by (simp add: ab_inv_def)
  have "ab_inv ?b'" using assms m True by (auto simp: ab_inv_def fits_def)
  moreover have "ab_contents ?b' = ab_contents b"
    using assms(1) by (simp add: ab_contents_def ab_inv_def)
  moreover have "\<forall>i. ab_capacity b \<le> i \<and> i < ?m \<longrightarrow> ab_block ?b' ! i = 0"
    using blk by (auto simp: nth_append)
  moreover have "take (ab_capacity b) (ab_block ?b') = ab_block b" using blk by simp
  ultimately show ?thesis
    using that [of ?b'] FitSize_grow [OF assms True] m True by simp
next
  case False
  show ?thesis
    by (rule that [of b]) (use assms(1) False FitSize_noop in \<open>auto simp: ab_inv_def\<close>)
qed

lemma ab_inv_sizes:
  assumes "ab_inv b"
  shows "to_size (ab_pos b) = nat (ab_pos b)" "ab_length b < 4611686018427387904"
    "nat (ab_pos b) < 4611686018427387904" "ab_pos b < 4611686018427387904"
    "length (ab_contents b) = ab_length b"
  using assms by (auto simp: ab_inv_def ab_contents_def)

lemma WriteAt_ok:
  assumes inv: "ab_inv b" and p: "0 \<le> pos" "nat pos \<le> ab_length b"
    and fit: "fits mem_ok (nat pos + length bs) b"
  obtains b' where "ab_WriteAt ae mem_ok pos (Some bs) (length bs) b = Inr b'" "ab_inv b'"
    "ab_contents b' = put_at (ab_contents b) (nat pos) bs" "ab_pos b' = ab_pos b"
    "ab_length b' = max (nat pos + length bs) (ab_length b)" "ab_unitsize b' = ab_unitsize b"
proof -
  obtain b1 where b1: "ab_FitSize ae mem_ok (nat pos + length bs) b = Inr b1" "ab_inv b1"
    "nat pos + length bs \<le> ab_capacity b1" "ab_contents b1 = ab_contents b"
    "ab_pos b1 = ab_pos b" "ab_length b1 = ab_length b" "ab_unitsize b1 = ab_unitsize b"
    using FitSize_ok [OF inv fit] by metis
  have sz: "to_size pos = nat pos" "size_add (nat pos) (length bs) = nat pos + length bs"
    using p fit ab_inv_sizes [OF inv] by (simp_all add: fits_def)
  define n where "n = max (nat pos + length bs) (ab_length b)"
  define b2 where "b2 = b1\<lparr>ab_length := n, ab_parray := (if bs = [] then ab_parray b1
       else Some (put_at (ab_block b1) (nat pos) bs))\<rparr>"
  have len1: "length (ab_block b1) = ab_capacity b1" using b1(2) by (simp add: ab_inv_def)
  have wr: "block_write (ab_parray b1) pos bs = Inr (ab_parray b2)"
  proof (cases "bs = []")
    case True
    then show ?thesis by (simp add: block_write_def b2_def)
  next
    case False
    then have "ab_parray b1 \<noteq> None" using b1(2,3) by (auto simp: ab_inv_def)
    then show ?thesis using False b1(3) len1 p by (auto simp: block_write_def b2_def)
  qed
  have rd: "block_read (Some bs) 0 (length bs) = Inr bs"
    by (simp add: block_read_def)
  have run: "ab_WriteAt ae mem_ok pos (Some bs) (length bs) b = Inr b2"
    using p sz b1(1) wr rd b1(5,6) by (simp add: ab_WriteAt_def Let_def b2_def n_def)
  have blk2: "ab_block b2 = put_at (ab_block b1) (nat pos) bs" by (simp add: b2_def)
  have "ab_inv b2"
    using b1 len1 blk2 inv by (auto simp: ab_inv_def b2_def n_def)
  moreover have "ab_contents b2 = put_at (ab_contents b1) (nat pos) bs"
    using p b1(2,3,6) take_put_at_max [of "nat pos" "ab_length b" "ab_block b1" bs] len1
    by (simp add: ab_contents_def blk2 b2_def n_def ab_inv_def)
  ultimately show ?thesis
    using that [OF run] b1 by (simp add: b2_def n_def)
qed

lemma Seek_pos:
  assumes "ab_inv b" "- 4611686018427387904 < off" "off < 4611686018427387904"
  shows "ab_pos (ab_Seek off orig b) =
     (let target = (case orig of SeekStart \<Rightarrow> off | SeekCur \<Rightarrow> ab_pos b + off
                                | SeekEnd \<Rightarrow> int (ab_length b) + off)
      in max 0 (min (int (ab_length b)) target))"
proof -
  have e: "to_off (size_add (ab_length b) (to_size off)) = int (ab_length b) + off"
    using assms ab_inv_sizes(2) [OF assms(1)] by (intro to_off_add)
  have o: "to_off (ab_length b) = int (ab_length b)"
    using ab_inv_sizes(2) [OF assms(1)] by simp
  show ?thesis
    using assms ab_inv_sizes [OF assms(1)]
    by (cases orig) (auto simp: ab_Seek_def Let_def e o ab_inv_def)
qed

lemma Seek_frame [simp]:
  "ab_contents (ab_Seek off orig b) = ab_contents b" "ab_length (ab_Seek off orig b) = ab_length b"
  "ab_capacity (ab_Seek off orig b) = ab_capacity b" "ab_parray (ab_Seek off orig b) = ab_parray b"
  "ab_unitsize (ab_Seek off orig b) = ab_unitsize b"
  by (simp_all add: ab_Seek_def Let_def ab_contents_def)

lemma Seek_inv:
  assumes "ab_inv b" "- 4611686018427387904 < off" "off < 4611686018427387904"
  shows "ab_inv (ab_Seek off orig b)"
  using assms Seek_pos [OF assms, of orig] by (auto simp: ab_inv_def Let_def)

lemma Write_ok:
  assumes inv: "ab_inv b" and fit: "fits mem_ok (nat (ab_pos b) + length bs) b"
  obtains b' where "ab_Write ae mem_ok (Some bs) (length bs) b = Inr b'" "ab_inv b'"
    "ab_contents b' = put_at (ab_contents b) (nat (ab_pos b)) bs"
    "ab_pos b' = ab_pos b + int (length bs)"
proof -
  have p: "0 \<le> ab_pos b" "nat (ab_pos b) \<le> ab_length b" using inv by (simp_all add: ab_inv_def)
  obtain b1 where b1: "ab_WriteAt ae mem_ok (ab_pos b) (Some bs) (length bs) b = Inr b1" "ab_inv b1"
    "ab_contents b1 = put_at (ab_contents b) (nat (ab_pos b)) bs" "ab_pos b1 = ab_pos b"
    "ab_length b1 = max (nat (ab_pos b) + length bs) (ab_length b)"
    using WriteAt_ok [OF inv p fit] by metis
  have l: "length bs < 4611686018427387904" using fit by (simp add: fits_def)
  let ?b' = "ab_Seek (to_off (length bs)) SeekCur b1"
  have o: "to_off (length bs) = int (length bs)" using l by simp
  have "ab_pos ?b' = ab_pos b + int (length bs)"
    using Seek_pos [OF b1(2), of "int (length bs)" SeekCur] l b1(4,5) p by (simp add: o Let_def)
  moreover have "ab_inv ?b'" using Seek_inv [OF b1(2)] l by (simp add: o)
  ultimately show ?thesis
    using that [of ?b'] b1 by (simp add: ab_Write_def)
qed

lemma block_read_contents:
  assumes "ab_inv b" "p + n \<le> ab_length b"
  shows "block_read (ab_parray b) (int p) n = Inr (get_at (ab_contents b) p n)"
proof (cases "n = 0")
  case False
  then have "ab_parray b \<noteq> None" using assms by (auto simp: ab_inv_def)
  then show ?thesis
    using False assms by (auto simp: block_read_def ab_inv_def ab_contents_def get_at_def drop_take min_def)
qed (simp add: block_read_def)

lemma Read_ok:
  fixes len :: nat
  assumes inv: "ab_inv b"
  defines "n \<equiv> min len (ab_length b - nat (ab_pos b))"
  shows "\<exists>b'. ab_Read ae len b = Inr (get_at (ab_contents b) (nat (ab_pos b)) n, b')
     \<and> ab_inv b' \<and> ab_contents b' = ab_contents b \<and> ab_pos b' = ab_pos b + int n"
proof -
  have p: "0 \<le> ab_pos b" "nat (ab_pos b) \<le> ab_length b" using inv by (simp_all add: ab_inv_def)
  note sz = ab_inv_sizes [OF inv]
  have n: "min (size_sub (ab_length b) (nat (ab_pos b))) len = n"
    using sz p by (simp add: n_def)
  have le: "nat (ab_pos b) + n \<le> ab_length b" using p by (simp add: n_def)
  have rd: "ab_ReadAt ae (ab_pos b) len b = Inr (get_at (ab_contents b) (nat (ab_pos b)) n)"
    using block_read_contents [OF inv le] p sz(1) by (simp add: ab_ReadAt_def n)
  have sl: "length (get_at (ab_contents b) (nat (ab_pos b)) n) = n" using le sz(5) by simp
  have b: "int n < 4611686018427387904" using le sz(2) by linarith
  let ?b' = "ab_Seek (int n) SeekCur b"
  have "ab_pos ?b' = ab_pos b + int n"
    using Seek_pos [OF inv, of "int n" SeekCur] b p le by (simp add: Let_def)
  moreover have "ab_inv ?b'" using Seek_inv [OF inv, of "int n"] b by simp
  moreover have "ab_Read ae len b = Inr (get_at (ab_contents b) (nat (ab_pos b)) n, ?b')"
    using rd sl by (simp add: ab_Read_def)
  ultimately show ?thesis by auto
qed

interpretation ab: cursor_stream ab_inv ab_contents "\<lambda>b. nat (ab_pos b)"
  "\<lambda>n b. fits mem_ok (nat (ab_pos b) + n) b"
  "\<lambda>bs b. ab_Write ae mem_ok (Some bs) (length bs) b" "ab_Read ae"
  "\<lambda>p b. ab_Seek (int p) SeekStart b"
proof unfold_locales
  fix b assume "ab_inv b"
  then show "nat (ab_pos b) \<le> length (ab_contents b)" by (simp add: ab_inv_def ab_contents_def)
next
  fix b and bs :: "byte list" assume "ab_inv b" "fits mem_ok (nat (ab_pos b) + length bs) b"
  then obtain b' where "ab_Write ae mem_ok (Some bs) (length bs) b = Inr b'" "ab_inv b'"
    "ab_contents b' = put_at (ab_contents b) (nat (ab_pos b)) bs" "ab_pos b' = ab_pos b + int (length bs)"
    by (rule Write_ok)
  then show "\<exists>b'. ab_Write ae mem_ok (Some bs) (length bs) b = Inr b' \<and> ab_inv b' \<and>
      ab_contents b' = put_at (ab_contents b) (nat (ab_pos b)) bs \<and>
      nat (ab_pos b') = nat (ab_pos b) + length bs"
    using \<open>ab_inv b\<close> by (auto simp: ab_inv_def nat_add_distrib)
next
  fix b n assume inv: "ab_inv b"
  show "\<exists>b'. ab_Read ae n b = Inr (get_at (ab_contents b) (nat (ab_pos b))
        (min n (length (ab_contents b) - nat (ab_pos b))), b') \<and> ab_inv b' \<and> ab_contents b' = ab_contents b \<and>
      nat (ab_pos b') = nat (ab_pos b) + min n (length (ab_contents b) - nat (ab_pos b))"
  proof -
    have p: "0 \<le> ab_pos b" using inv by (simp add: ab_inv_def)
    then have nt: "nat (ab_pos b + int k) = nat (ab_pos b) + k" for k by (simp add: nat_add_distrib)
    from Read_ok [OF inv, of ae n] obtain b' where
      "ab_Read ae n b = Inr (get_at (ab_contents b) (nat (ab_pos b)) (min n (ab_length b - nat (ab_pos b))), b')"
      "ab_inv b'" "ab_contents b' = ab_contents b"
      "ab_pos b' = ab_pos b + int (min n (ab_length b - nat (ab_pos b)))" by blast
    then show ?thesis
      by (intro exI [of _ b']) (simp only: ab_inv_sizes(5) [OF inv] nt)
  qed
next
  fix b p assume b: "ab_inv b" "p \<le> length (ab_contents b)"
  note sz = ab_inv_sizes [OF b(1)]
  have p: "int p < 4611686018427387904" using b sz by linarith
  show "ab_inv (ab_Seek (int p) SeekStart b) \<and>
      ab_contents (ab_Seek (int p) SeekStart b) = ab_contents b \<and>
      nat (ab_pos (ab_Seek (int p) SeekStart b)) = p"
    using Seek_inv [OF b(1), of "int p"] Seek_pos [OF b(1), of "int p" SeekStart] p b(2) sz
    by (simp add: Let_def)
qed

lemma Move_forward_ok:
  assumes inv: "ab_inv b" and n: "0 < n" and fit: "fits mem_ok (ab_length b + n) b"
  shows "\<exists>b'. ab_Move ae mem_ok (int n) b = Inr b' \<and> ab_inv b'
     \<and> ab_contents b' = replicate n 0 @ ab_contents b \<and> ab_pos b' = ab_pos b + int n"
proof -
  note sz = ab_inv_sizes [OF inv]
  have small: "ab_length b + n < 4611686018427387904" using fit by (simp add: fits_def)
  obtain b1 where b1: "ab_FitSize ae mem_ok (ab_length b + n) b = Inr b1" "ab_inv b1"
    "ab_length b + n \<le> ab_capacity b1" "ab_contents b1 = ab_contents b"
    "ab_pos b1 = ab_pos b" "ab_length b1 = ab_length b"
    using FitSize_ok [OF inv fit] by metis
  obtain xs where xs: "ab_parray b1 = Some xs" "length xs = ab_capacity b1"
    using b1(2,3) n by (cases "ab_parray b1") (auto simp: ab_inv_def)
  define c where "c = ab_contents b"
  have c: "length c = ab_length b" "take (ab_length b) xs = c"
    using sz(5) b1(4,6) xs by (simp_all add: c_def ab_contents_def)
  define ys where "ys = put_at (put_at xs n c) 0 (replicate n 0)"
  have rd: "block_read (ab_parray b1) 0 (ab_length b1) = Inr c"
    using block_read_contents [OF b1(2), of 0 "ab_length b1"] b1(4,6) c
    by (simp add: get_at_def c_def)
  have w1: "block_write (ab_parray b1) (int n) c = Inr (Some (put_at xs n c))"
    using xs c b1(3) by (auto simp: block_write_def)
  have w2: "block_write (Some (put_at xs n c)) 0 (replicate n 0) = Inr (Some ys)"
    using xs c b1(3) n by (auto simp: block_write_def ys_def)
  have ts: "to_size (int n) = n" "size_add (ab_length b) n = ab_length b + n" using small by simp_all
  define b2 where "b2 = b1\<lparr>ab_parray := Some ys, ab_length := ab_length b + n\<rparr>"
  have ys: "length ys = ab_capacity b1" "take (ab_length b + n) ys = replicate n 0 @ c"
    using xs c b1(3) by (simp_all add: ys_def put_at_def)
  have inv2: "ab_inv b2" using b1 ys xs by (auto simp: b2_def ab_inv_def)
  have run: "ab_Move ae mem_ok (int n) b = Inr (ab_Seek (ab_pos b + int n) SeekStart b2)"
    using n b1 rd w1 w2 ts small inv
    by (auto simp: ab_Move_def ab_SetLength_def b2_def ab_inv_def ASSERT_def)
  have bnd: "ab_pos b + int n < 4611686018427387904" "0 \<le> ab_pos b" "nat (ab_pos b) \<le> ab_length b"
    using inv small by (auto simp: ab_inv_def)
  have "ab_pos (ab_Seek (ab_pos b + int n) SeekStart b2) = ab_pos b + int n"
    using Seek_pos [OF inv2, of "ab_pos b + int n" SeekStart] bnd by (simp add: Let_def b2_def)
  moreover have "ab_inv (ab_Seek (ab_pos b + int n) SeekStart b2)" using Seek_inv [OF inv2] bnd by simp
  moreover have "ab_contents b2 = replicate n 0 @ c" using ys by (simp add: ab_contents_def b2_def)
  ultimately show ?thesis using run by (simp add: c_def)
qed

lemma Move_backward_ok:
  assumes inv: "ab_inv b" and n: "n < 4611686018427387904"
  shows "\<exists>b'. ab_Move ae mem_ok (- int n) b = Inr b' \<and> ab_inv b'
     \<and> ab_contents b' = drop n (ab_contents b) \<and> ab_pos b' = max 0 (ab_pos b - int n)"
proof -
  note sz = ab_inv_sizes [OF inv]
  define mv where "mv = min n (ab_length b)"
  define c where "c = get_at (ab_contents b) mv (ab_length b - mv)"
  have p: "0 \<le> ab_pos b" "nat (ab_pos b) \<le> ab_length b" using inv by (simp_all add: ab_inv_def)
  have c: "c = drop n (ab_contents b)" "length c = ab_length b - mv"
    using sz(5) by (auto simp: c_def mv_def get_at_def min_def)
  have rd: "block_read (ab_parray b) (int mv) (ab_length b - mv) = Inr c"
    using block_read_contents [OF inv, of mv "ab_length b - mv"] by (simp add: c_def mv_def)
  define arr where "arr = (if c = [] then ab_parray b else Some (put_at (ab_block b) 0 c))"
  have wr: "block_write (ab_parray b) 0 c = Inr arr"
    using c(2) inv by (auto simp: block_write_def arr_def ab_inv_def mv_def split: option.splits)
  define np where "np = max 0 (ab_pos b - int n)"
  define b2 where "b2 = b\<lparr>ab_parray := arr, ab_length := ab_length b - mv\<rparr>"
  have tsn: "to_size (int n) = n" using n by simp
  have nle: "nat np \<le> ab_length b - mv" "0 \<le> np" "np < 4611686018427387904"
    using p sz by (auto simp: np_def mv_def min_def)
  have pp: "(if mv < to_size (ab_pos b) then ab_pos b - int mv else 0) = np"
    using p sz by (auto simp: np_def mv_def min_def)
  have blk: "(case arr of None \<Rightarrow> [] | Some xs \<Rightarrow> xs) = put_at (ab_block b) 0 c"
    by (simp add: arr_def)
  have lb: "length (put_at (ab_block b) 0 c) = ab_capacity b"
  proof -
    have "0 + length c \<le> length (ab_block b)" using inv c(2) by (auto simp: ab_inv_def)
    then have "length (put_at (ab_block b) 0 c) = length (ab_block b)" by (rule length_put_at)
    then show ?thesis using inv by (simp add: ab_inv_def)
  qed
  have np0: "nat (ab_pos (b2\<lparr>ab_pos := np\<rparr>)) \<le> ab_length b2" using nle by (simp add: b2_def)
  have inv2: "ab_inv (b2\<lparr>ab_pos := np\<rparr>)"
    using inv nle lb blk by (auto simp: ab_inv_def b2_def arr_def)
  have mvd: "(if ab_length b < n then ab_length b else n) = mv" by (auto simp: mv_def)
  have run: "ab_Move ae mem_ok (- int n) b = Inr (ab_Seek np SeekStart b2)"
    using tsn rd wr pp nle inv
    by (auto simp: ab_Move_def ab_SetLength_def mvd b2_def ab_inv_def ASSERT_def Let_def)
  have "ab_Seek np SeekStart b2 = b2\<lparr>ab_pos := np\<rparr>"
    using nle by (simp add: ab_Seek_def b2_def Let_def)
  moreover have "ab_contents (b2\<lparr>ab_pos := np\<rparr>) = c"
    using c(2) by (simp add: ab_contents_def b2_def blk put_at_def)
  ultimately show ?thesis using run inv2 c(1) by (simp add: np_def)
qed

lemma AutoBuffer_new_simps [simp]:
  "ab_contents (AutoBuffer_new u) = []" "ab_pos (AutoBuffer_new u) = 0"
  "ab_length (AutoBuffer_new u) = 0" "ab_capacity (AutoBuffer_new u) = 0"
  "ab_unitsize (AutoBuffer_new u) = u"
  by (simp_all add: AutoBuffer_new_def ab_contents_def)

lemma AutoBuffer_new_ok:
  "0 < u \<Longrightarrow> u \<le> 1024 \<Longrightarrow> ab_inv (AutoBuffer_new u)"
  "0 < u \<Longrightarrow> u \<le> 1024 \<Longrightarrow> len \<le> 1024 \<Longrightarrow> fits (\<lambda>_. True) len (AutoBuffer_new u)"
  using round_up_bounds(2) [of u len] by (simp_all add: AutoBuffer_new_def ab_inv_def fits_def)

section \<open>Properties\<close>





text \<open>
  writing bytes at the cursor, seeking back and reading as many bytes returns
  exactly the bytes written and leaves the cursor behind them.
\<close>

theorem AutoBuffer_write_read:
  assumes "ab_inv b" and "fits mem_ok (nat (ab_pos b) + length bs) b" and "bs \<noteq> []"
  shows "\<exists>b1 b2. ab_Write ae mem_ok (Some bs) (length bs) b = Inr b1
     \<and> ab_Read ae (length bs) (ab_Seek (int (nat (ab_pos b))) SeekStart b1) = Inr (bs, b2)
     \<and> ab_contents b2 = ab_contents b1 \<and> nat (ab_pos b2) = nat (ab_pos b1) \<and> ab_inv b2"
  by (rule ab.write_read_back [OF assms])

theorem AutoBuffer_write_read_witness:
  "\<exists>b1 b2. ab_Write True (\<lambda>_. True) (Some [7, 8]) 2 (AutoBuffer_new 16) = Inr b1
     \<and> ab_Read True 2 (ab_Seek 0 SeekStart b1) = Inr ([7, 8], b2)"
  using AutoBuffer_write_read [of "AutoBuffer_new 16" "\<lambda>_. True" "[7, 8]" True]
  by (simp add: AutoBuffer_new_ok numeral_2_eq_2) blast

text \<open>
  \<open>Move(n)\<close> with a positive argument puts \<open>n\<close> zero bytes in front of the contents,
  with a negative one drops the first \<open>n\<close> bytes (all of them if there are fewer); the
  cursor follows its byte, stopping at the start.
\<close>

theorem AutoBuffer_move:
  assumes "ab_inv b" and "0 < n" and "fits mem_ok (ab_length b + n) b"
  shows "(\<exists>b'. ab_Move ae mem_ok (int n) b = Inr b' \<and> ab_inv b'
            \<and> ab_contents b' = replicate n 0 @ ab_contents b \<and> ab_pos b' = ab_pos b + int n)
       \<and> (\<exists>b'. ab_Move ae mem_ok (- int n) b = Inr b' \<and> ab_inv b'
            \<and> ab_contents b' = drop n (ab_contents b) \<and> ab_pos b' = max 0 (ab_pos b - int n))"
proof -
  have "n < 4611686018427387904" using assms(3) by (simp add: fits_def)
  then show ?thesis
    using Move_forward_ok [OF assms] Move_backward_ok [OF assms(1)] by blast
qed

theorem AutoBuffer_move_witness:
  "\<exists>b'. ab_Move True (\<lambda>_. True) 2 (AutoBuffer_new 16) = Inr b' \<and> ab_contents b' = [0, 0]"
  using AutoBuffer_move [of "AutoBuffer_new 16" 2 "\<lambda>_. True" True]
  by (simp add: AutoBuffer_new_ok numeral_2_eq_2) blast

text \<open>
  a positioned read does not read at its position. The bytes \<open>Read(pos, ...)\<close>
  returns come from the cursor: with the cursor at the end of a full block, reading
  at position 0 leaves the owned block.
\<close>

theorem AutoBuffer_positioned_read_uses_cursor:
  assumes "ab_inv b" and "nat pos \<le> ab_length b" and "0 \<le> pos"
    and "len \<le> ab_length b - nat pos" and "0 < len"
  shows "(ab_pos b + int len \<le> int (ab_length b) \<longrightarrow>
            ab_ReadAt ae pos len b = Inr (get_at (ab_contents b) (nat (ab_pos b)) len))
       \<and> (int (ab_capacity b) < ab_pos b + int len \<longrightarrow> ab_ReadAt ae pos len b = Inl MemFault)"
proof -
  note sz = ab_inv_sizes [OF assms(1)]
  have p: "0 \<le> ab_pos b" "nat (ab_pos b) \<le> ab_length b" using assms(1) by (simp_all add: ab_inv_def)
  have m: "min (size_sub (ab_length b) (to_size pos)) len = len" using assms sz by simp
  have run: "ab_ReadAt ae pos len b = block_read (ab_parray b) (ab_pos b) len"
    using assms(2,3) sz(2) m by (simp add: ab_ReadAt_def)
  have "ab_pos b + int len \<le> int (ab_length b) \<Longrightarrow>
          block_read (ab_parray b) (ab_pos b) len = Inr (get_at (ab_contents b) (nat (ab_pos b)) len)"
    using block_read_contents [OF assms(1), of "nat (ab_pos b)" len] p by simp
  moreover have "int (ab_capacity b) < ab_pos b + int len \<Longrightarrow>
          block_read (ab_parray b) (ab_pos b) len = Inl MemFault"
    using assms(1,5) p by (auto simp: block_read_def ab_inv_def split: option.splits)
  ultimately show ?thesis using run by simp
qed

theorem AutoBuffer_positioned_read_uses_cursor_witness:
  "ab_ReadAt False 0 1 \<lparr>ab_parray = Some [9], ab_pos = 1, ab_length = 1, ab_capacity = 1, ab_unitsize = 1\<rparr>
   = Inl MemFault"
  using AutoBuffer_positioned_read_uses_cursor
    [of "\<lparr>ab_parray = Some [9], ab_pos = 1, ab_length = 1, ab_capacity = 1, ab_unitsize = 1\<rparr>" 0 1 False]
  by (simp add: ab_inv_def)

end
