(* ===== verification/BufferIO.thy ===== *)
theory BufferIO
  imports Cursor
begin

text \<open>
  Model of \<open>utils/bufferio.h\<close> and \<open>utils/bufferio.cc\<close>: a cursor over a block of fixed
  capacity that the caller provides. Several comparisons of the source cast the
  64-bit position to \<open>unsigned int\<close>; the cast is written out as \<open>mod 2^32\<close>.
\<close>

section \<open>State and operations\<close>

record BufferIO =
  bi_parray :: "byte list option"
  bi_pos :: int
  bi_length :: nat
  bi_cap :: nat

definition to_uint :: "int \<Rightarrow> nat" where
  "to_uint x = nat (x mod 4294967296)"

definition BufferIO_new :: "byte list option \<Rightarrow> nat \<Rightarrow> BufferIO" where
  "BufferIO_new ptr cap = \<lparr>bi_parray = ptr, bi_pos = 0, bi_length = 0, bi_cap = cap\<rparr>"

definition BufferIO_new_len :: "bool \<Rightarrow> byte list option \<Rightarrow> nat \<Rightarrow> nat \<Rightarrow> BufferIO cres" where
  "BufferIO_new_len ae ptr len cap =
     (let b = \<lparr>bi_parray = ptr, bi_pos = 0, bi_length = len, bi_cap = cap\<rparr>
      in ASSERT ae (bi_length b \<le> bi_cap b) (Inr b))"

definition bi_Reset :: "BufferIO \<Rightarrow> BufferIO" where
  "bi_Reset b = b\<lparr>bi_parray := None, bi_pos := 0, bi_length := 0, bi_cap := 0\<rparr>"

definition bi_Seek :: "int \<Rightarrow> TSeek \<Rightarrow> BufferIO \<Rightarrow> BufferIO" where
  "bi_Seek nOffset eOrigin b =
     (let pos = (case eOrigin of
                   SeekStart \<Rightarrow> nOffset
                 | SeekCur \<Rightarrow> bi_pos b + nOffset
                 | SeekEnd \<Rightarrow> to_off (size_add (bi_length b) (to_size nOffset)));
          pos = (if pos < 0 then 0 else pos);
          pos = (if to_uint pos > bi_length b then to_off (bi_length b) else pos)
      in b\<lparr>bi_pos := pos\<rparr>)"

definition bi_WriteAt ::
  "bool \<Rightarrow> byte list option \<Rightarrow> nat \<Rightarrow> int \<Rightarrow> BufferIO \<Rightarrow> BufferIO cres" where
  "bi_WriteAt ae pBuffer nLen nPos b =
     ASSERT ae (pBuffer \<noteq> None)
       (ASSERT ae (0 \<le> nPos)
         (ASSERT ae (to_uint nPos \<le> bi_length b)
           (let copylen = min nLen (size_sub (bi_cap b) (to_size nPos));
                b = b\<lparr>bi_length := max (bi_length b) (size_add copylen (to_size nPos))\<rparr>
            in bindE (block_read pBuffer 0 copylen) (\<lambda>bytes.
                 bindE (block_write (bi_parray b) nPos bytes) (\<lambda>arr.
                   Inr (b\<lparr>bi_parray := arr\<rparr>))))))"

definition bi_Write :: "bool \<Rightarrow> byte list option \<Rightarrow> nat \<Rightarrow> BufferIO \<Rightarrow> BufferIO cres" where
  "bi_Write ae pBuffer nLen b =
     bindE (bi_WriteAt ae pBuffer nLen (bi_pos b) b) (\<lambda>b. Inr (bi_Seek (to_off nLen) SeekCur b))"

text \<open>As in \<open>AutoBuffer\<close>, the bytes come from the cursor (\<open>EmptyBuffer()\<close>), not from \<open>nPos\<close>.\<close>

definition bi_ReadAt :: "bool \<Rightarrow> nat \<Rightarrow> int \<Rightarrow> BufferIO \<Rightarrow> byte list cres" where
  "bi_ReadAt ae nLen nPos b =
     ASSERT ae (0 \<le> nPos)
       (ASSERT ae (to_uint nPos < bi_length b)
         (let nRead = min (size_sub (bi_length b) (to_size nPos)) nLen
          in block_read (bi_parray b) (bi_pos b) nRead))"

definition bi_Read :: "bool \<Rightarrow> nat \<Rightarrow> BufferIO \<Rightarrow> (byte list \<times> BufferIO) cres" where
  "bi_Read ae nLen b =
     bindE (bi_ReadAt ae nLen (bi_pos b) b) (\<lambda>bytes.
       Inr (bytes, bi_Seek (int (length bytes)) SeekCur b))"

definition bi_UpdateCursor :: "bool \<Rightarrow> int \<Rightarrow> nat \<Rightarrow> BufferIO \<Rightarrow> BufferIO cres" where
  "bi_UpdateCursor ae position len b =
     ASSERT ae (0 \<le> position)
       (ASSERT ae (to_size position \<le> len)
         (ASSERT ae (len \<le> bi_cap b)
           (Inr (bi_Seek position SeekStart
                  (b\<lparr>bi_length := (if bi_cap b < len then bi_cap b else len)\<rparr>)))))"

definition bi_Attach :: "byte list option \<Rightarrow> nat \<Rightarrow> nat \<Rightarrow> BufferIO \<Rightarrow> BufferIO" where
  "bi_Attach pBuffer nLen maxlen b =
     (let b = bi_Reset b in b\<lparr>bi_parray := pBuffer, bi_length := nLen, bi_cap := maxlen\<rparr>)"

definition bi_AttachFull :: "byte list option \<Rightarrow> nat \<Rightarrow> BufferIO \<Rightarrow> BufferIO" where
  "bi_AttachFull pBuffer nLen b = bi_Attach pBuffer nLen nLen b"

section \<open>Invariant and abstraction\<close>

abbreviation bi_block :: "BufferIO \<Rightarrow> byte list" where
  "bi_block b \<equiv> (case bi_parray b of None \<Rightarrow> [] | Some xs \<Rightarrow> xs)"

text \<open>Blocks of at most 2 GB, so that the casts to \<open>unsigned int\<close> lose nothing.\<close>

definition bi_inv :: "BufferIO \<Rightarrow> bool" where
  "bi_inv b \<longleftrightarrow> length (bi_block b) = bi_cap b \<and> 0 \<le> bi_pos b \<and> nat (bi_pos b) \<le> bi_length b
     \<and> bi_length b \<le> bi_cap b \<and> bi_cap b < 2147483648"

definition bi_contents :: "BufferIO \<Rightarrow> byte list" where
  "bi_contents b = take (bi_length b) (bi_block b)"

lemma to_uint_small [simp]: "0 \<le> x \<Longrightarrow> x < 4294967296 \<Longrightarrow> to_uint x = nat x"
  by (simp add: to_uint_def)

lemma bi_inv_sizes:
  assumes "bi_inv b"
  shows "to_size (bi_pos b) = nat (bi_pos b)" "to_uint (bi_pos b) = nat (bi_pos b)"
    "bi_length b < 2147483648" "bi_pos b < 2147483648" "0 \<le> bi_pos b" "nat (bi_pos b) \<le> bi_length b"
    "length (bi_contents b) = bi_length b"
  using assms by (auto simp: bi_inv_def bi_contents_def)

lemma bi_Seek_pos:
  assumes "bi_inv b" "- 2147483648 < off" "off < 2147483648"
  shows "bi_Seek off orig b = b\<lparr>bi_pos :=
     (let target = (case orig of SeekStart \<Rightarrow> off | SeekCur \<Rightarrow> bi_pos b + off
                                | SeekEnd \<Rightarrow> int (bi_length b) + off)
      in max 0 (min (int (bi_length b)) target))\<rparr>"
proof -
  have e: "to_off (size_add (bi_length b) (to_size off)) = int (bi_length b) + off"
    using assms bi_inv_sizes(3) [OF assms(1)] by (intro to_off_add) simp_all
  have o: "to_off (bi_length b) = int (bi_length b)"
    using bi_inv_sizes(3) [OF assms(1)] by simp
  show ?thesis
    using assms bi_inv_sizes [OF assms(1)] by (cases orig) (auto simp: bi_Seek_def Let_def e o)
qed

lemma bi_Seek_inv:
  assumes "bi_inv b" "- 2147483648 < off" "off < 2147483648"
  shows "bi_inv (bi_Seek off orig b)" "bi_contents (bi_Seek off orig b) = bi_contents b"
  using assms bi_Seek_pos [OF assms, of orig] by (auto simp: bi_inv_def bi_contents_def Let_def)

text \<open>A write places as many bytes as the capacity leaves room for.\<close>

lemma bi_WriteAt_ok:
  assumes inv: "bi_inv b" and p: "0 \<le> pos" "nat pos \<le> bi_length b"
    and l: "length bs < 2147483648"
  defines "cs \<equiv> take (bi_cap b - nat pos) bs"
  shows "\<exists>b'. bi_WriteAt ae (Some bs) (length bs) pos b = Inr b' \<and> bi_inv b'
     \<and> bi_contents b' = put_at (bi_contents b) (nat pos) cs \<and> bi_pos b' = bi_pos b
     \<and> bi_cap b' = bi_cap b \<and> bi_length b' = max (bi_length b) (nat pos + length cs)"
proof -
  have cap: "bi_length b \<le> bi_cap b" "bi_cap b < 2147483648" "length (bi_block b) = bi_cap b"
    using inv by (simp_all add: bi_inv_def)
  have sz: "to_size pos = nat pos" "to_uint pos = nat pos" using p cap by simp_all
  have cl: "min (length bs) (size_sub (bi_cap b) (nat pos)) = length cs"
    using p cap by (simp add: cs_def min.commute)
  have fitc: "nat pos + length cs \<le> bi_cap b" using p cap by (auto simp: cs_def)
  have add: "size_add (length cs) (nat pos) = nat pos + length cs" using fitc cap by simp
  have rd: "block_read (Some bs) 0 (length cs) = Inr cs"
    by (auto simp: block_read_def get_at_def cs_def min_def)
  define arr where "arr = (if cs = [] then bi_parray b else Some (put_at (bi_block b) (nat pos) cs))"
  have wr: "block_write (bi_parray b) pos cs = Inr arr"
    using fitc cap p by (auto simp: block_write_def arr_def split: option.splits)
  define b2 where "b2 = b\<lparr>bi_length := max (bi_length b) (nat pos + length cs), bi_parray := arr\<rparr>"
  have run: "bi_WriteAt ae (Some bs) (length bs) pos b = Inr b2"
    using p sz rd wr by (simp add: bi_WriteAt_def Let_def cl add b2_def)
  have blk: "(case arr of None \<Rightarrow> [] | Some xs \<Rightarrow> xs) = put_at (bi_block b) (nat pos) cs"
    by (simp add: arr_def)
  have "bi_inv b2" using inv fitc blk cap by (auto simp: bi_inv_def b2_def)
  moreover have "bi_contents b2 = put_at (bi_contents b) (nat pos) cs"
    using take_put_at_max [of "nat pos" "bi_length b" "bi_block b" cs] p cap fitc
    by (simp add: bi_contents_def b2_def blk max.commute)
  ultimately show ?thesis using run by (auto simp: b2_def)
qed

lemma bi_Write_ok:
  assumes inv: "bi_inv b" and l: "length bs < 2147483648"
  defines "cs \<equiv> take (bi_cap b - nat (bi_pos b)) bs"
  shows "\<exists>b'. bi_Write ae (Some bs) (length bs) b = Inr b' \<and> bi_inv b'
     \<and> bi_contents b' = put_at (bi_contents b) (nat (bi_pos b)) cs
     \<and> bi_pos b' = min (int (bi_length b')) (bi_pos b + int (length bs)) \<and> bi_cap b' = bi_cap b
     \<and> bi_length b' = max (bi_length b) (nat (bi_pos b) + length cs)"
proof -
  note sz = bi_inv_sizes [OF inv]
  obtain b1 where b1: "bi_WriteAt ae (Some bs) (length bs) (bi_pos b) b = Inr b1" "bi_inv b1"
    "bi_contents b1 = put_at (bi_contents b) (nat (bi_pos b)) cs" "bi_pos b1 = bi_pos b"
    "bi_cap b1 = bi_cap b" "bi_length b1 = max (bi_length b) (nat (bi_pos b) + length cs)"
    using bi_WriteAt_ok [OF inv sz(5,6) l] by (auto simp: cs_def)
  have o: "to_off (length bs) = int (length bs)" using l by simp
  let ?b' = "bi_Seek (int (length bs)) SeekCur b1"
  have pos: "bi_pos ?b' = min (int (bi_length ?b')) (bi_pos b + int (length bs))"
    using bi_Seek_pos [OF b1(2), of "int (length bs)" SeekCur] l b1(4) sz(5) by (simp add: Let_def)
  have fr: "bi_cap ?b' = bi_cap b" "bi_length ?b' = bi_length b1"
    using b1(5) by (simp_all add: bi_Seek_def Let_def)
  have inv': "bi_inv ?b'" "bi_contents ?b' = bi_contents b1"
    using bi_Seek_inv [OF b1(2), of "int (length bs)"] l by simp_all
  show ?thesis
    using b1(1,3,6) pos fr inv' by (intro exI [of _ ?b']) (simp add: bi_Write_def o)
qed

lemma bi_Read_ok:
  assumes inv: "bi_inv b" and lt: "nat (bi_pos b) < bi_length b"
  shows "\<exists>b'. bi_Read ae n b =
       Inr (get_at (bi_contents b) (nat (bi_pos b)) (min n (bi_length b - nat (bi_pos b))), b')
     \<and> bi_inv b' \<and> bi_contents b' = bi_contents b
     \<and> bi_pos b' = bi_pos b + int (min n (bi_length b - nat (bi_pos b)))"
proof -
  note sz = bi_inv_sizes [OF inv]
  define k where "k = min n (bi_length b - nat (bi_pos b))"
  have k: "min (bi_length b - nat (bi_pos b)) n = k" by (simp add: k_def min.commute)
  have le: "nat (bi_pos b) + k \<le> bi_length b" using sz by (simp add: k_def)
  have rd: "block_read (bi_parray b) (bi_pos b) k = Inr (get_at (bi_contents b) (nat (bi_pos b)) k)"
    using inv le by (auto simp: block_read_def bi_inv_def bi_contents_def get_at_def drop_take min_def
        split: option.splits)
  have at: "bi_ReadAt ae n (bi_pos b) b = Inr (get_at (bi_contents b) (nat (bi_pos b)) k)"
    using sz lt rd by (simp add: bi_ReadAt_def k)
  have len: "length (get_at (bi_contents b) (nat (bi_pos b)) k) = k" using le sz(7) by simp
  have ks: "int k < 2147483648" using le sz(3) by linarith
  let ?b' = "bi_Seek (int k) SeekCur b"
  have "bi_pos ?b' = bi_pos b + int k"
    using bi_Seek_pos [OF inv, of "int k" SeekCur] ks le sz by (simp add: Let_def)
  moreover have "bi_inv ?b'" "bi_contents ?b' = bi_contents b"
    using bi_Seek_inv [OF inv, of "int k"] ks by simp_all
  ultimately show ?thesis
    using at len unfolding k_def [symmetric] by (intro exI [of _ ?b']) (simp add: bi_Read_def)
qed

interpretation bi: cursor_stream bi_inv bi_contents "\<lambda>b. nat (bi_pos b)"
  "\<lambda>n b. nat (bi_pos b) + n \<le> bi_cap b" "\<lambda>bs b. bi_Write ae (Some bs) (length bs) b" "bi_Read ae"
  "\<lambda>p b. bi_Seek (int p) SeekStart b"
proof unfold_locales
  fix b assume "bi_inv b"
  then show "nat (bi_pos b) \<le> length (bi_contents b)" by (simp add: bi_inv_def bi_contents_def)
next
  fix b and bs :: "byte list" assume b: "bi_inv b" "nat (bi_pos b) + length bs \<le> bi_cap b"
  note sz = bi_inv_sizes [OF b(1)]
  have "bi_cap b < 2147483648" using b(1) by (simp add: bi_inv_def)
  then have l: "length bs < 2147483648" using b(2) by linarith
  have tk: "take (bi_cap b - nat (bi_pos b)) bs = bs" using b(2) by simp
  obtain b' where "bi_Write ae (Some bs) (length bs) b = Inr b'" "bi_inv b'"
    "bi_contents b' = put_at (bi_contents b) (nat (bi_pos b)) bs"
    "bi_pos b' = min (int (bi_length b')) (bi_pos b + int (length bs))"
    "bi_length b' = max (bi_length b) (nat (bi_pos b) + length bs)"
    using bi_Write_ok [OF b(1) l, of ae] unfolding tk by blast
  moreover from this(4,5) have "nat (bi_pos b') = nat (bi_pos b) + length bs" using sz(5) by auto
  ultimately show "\<exists>b'. bi_Write ae (Some bs) (length bs) b = Inr b' \<and> bi_inv b' \<and>
      bi_contents b' = put_at (bi_contents b) (nat (bi_pos b)) bs \<and>
      nat (bi_pos b') = nat (bi_pos b) + length bs" by blast
next
  fix b n assume b: "bi_inv b" "nat (bi_pos b) < length (bi_contents b)"
  note sz = bi_inv_sizes [OF b(1)]
  have nt: "nat (bi_pos b + int k) = nat (bi_pos b) + k" for k using sz(5) by (simp add: nat_add_distrib)
  obtain b' where "bi_Read ae n b =
       Inr (get_at (bi_contents b) (nat (bi_pos b)) (min n (bi_length b - nat (bi_pos b))), b')"
    "bi_inv b'" "bi_contents b' = bi_contents b"
    "bi_pos b' = bi_pos b + int (min n (bi_length b - nat (bi_pos b)))"
    using bi_Read_ok [OF b(1), of ae n] b(2) sz(7) by auto
  then show "\<exists>b'. bi_Read ae n b = Inr (get_at (bi_contents b) (nat (bi_pos b))
        (min n (length (bi_contents b) - nat (bi_pos b))), b') \<and> bi_inv b' \<and> bi_contents b' = bi_contents b \<and>
      nat (bi_pos b') = nat (bi_pos b) + min n (length (bi_contents b) - nat (bi_pos b))"
    by (intro exI [of _ b']) (simp only: sz(7) nt)
next
  fix b p assume b: "bi_inv b" "p \<le> length (bi_contents b)"
  note sz = bi_inv_sizes [OF b(1)]
  have p: "int p < 2147483648" using b sz by linarith
  show "bi_inv (bi_Seek (int p) SeekStart b) \<and>
      bi_contents (bi_Seek (int p) SeekStart b) = bi_contents b \<and>
      nat (bi_pos (bi_Seek (int p) SeekStart b)) = p"
    using bi_Seek_inv [OF b(1), of "int p" SeekStart] bi_Seek_pos [OF b(1), of "int p" SeekStart] p b(2) sz
    by (simp add: Let_def)
qed

section \<open>Properties\<close>

text \<open>
  a write into a fixed buffer never leaves the caller's block: it stores the
  prefix of the bytes that the remaining capacity holds, drops the rest silently, and
  keeps every other byte; cursor and length stay within the capacity.
\<close>

theorem BufferIO_write_truncates:
  assumes "bi_inv b" and "length bs < 2147483648"
  shows "\<exists>b'. bi_Write ae (Some bs) (length bs) b = Inr b' \<and> bi_inv b' \<and> bi_cap b' = bi_cap b
     \<and> bi_contents b' = put_at (bi_contents b) (nat (bi_pos b)) (take (bi_cap b - nat (bi_pos b)) bs)
     \<and> bi_pos b' = min (int (bi_length b')) (bi_pos b + int (length bs))"
  using bi_Write_ok [OF assms] by blast

theorem BufferIO_write_truncates_witness:
  "\<exists>b'. bi_Write True (Some [1, 2, 3]) 3 (BufferIO_new (Some [0, 0]) 2) = Inr b'
        \<and> bi_contents b' = [1, 2]"
  using BufferIO_write_truncates [of "BufferIO_new (Some [0, 0]) 2" "[1, 2, 3]" True]
  by (simp add: BufferIO_new_def bi_inv_def bi_contents_def put_at_def numeral_3_eq_3) blast

text \<open>
  the fixed buffer satisfies the same stream contract as the growing one: what is
  written within the capacity is read back unchanged.
\<close>

theorem BufferIO_write_read:
  assumes "bi_inv b" and "nat (bi_pos b) + length bs \<le> bi_cap b" and "bs \<noteq> []"
  shows "\<exists>b1 b2. bi_Write ae (Some bs) (length bs) b = Inr b1
     \<and> bi_Read ae (length bs) (bi_Seek (int (nat (bi_pos b))) SeekStart b1) = Inr (bs, b2)
     \<and> bi_contents b2 = bi_contents b1 \<and> nat (bi_pos b2) = nat (bi_pos b1) \<and> bi_inv b2"
  by (rule bi.write_read_back [OF assms])

theorem BufferIO_write_read_witness:
  "\<exists>b1 b2. bi_Write True (Some [7, 8]) 2 (BufferIO_new (Some [0, 0, 0]) 3) = Inr b1
     \<and> bi_Read True 2 (bi_Seek 0 SeekStart b1) = Inr ([7, 8], b2)"
  using BufferIO_write_read [of "BufferIO_new (Some [0, 0, 0]) 3" "[7, 8]" True]
  by (simp add: BufferIO_new_def bi_inv_def numeral_2_eq_2) blast

end
