(* ===== verification/StrUtils.thy ===== *)
theory StrUtils
  imports Prelude "HOL-Library.Sublist"
begin

text \<open>
  Model of \<open>utils/strutils.h\<close> and \<open>utils/strutils.cc\<close>: URL encoding, trimming, case
  mapping, prefix and suffix tests, the tokenizer with \<open>SplitToken\<close> and \<open>MergeToken\<close>,
  hexadecimal conversion, number parsing and character replacement. A \<open>std::string\<close> is
  the list of its bytes (\<open>char\<close>); the classification functions of \<open>ctype.h\<close> are those
  of the C locale.
\<close>

section \<open>Characters\<close>

abbreviation code :: "char \<Rightarrow> nat" where "code c \<equiv> of_char c"

definition isspace :: "char \<Rightarrow> bool" where
  "isspace c \<longleftrightarrow> code c = 32 \<or> (9 \<le> code c \<and> code c \<le> 13)"

definition tolower :: "char \<Rightarrow> char" where
  "tolower c = (if 65 \<le> code c \<and> code c \<le> 90 then char_of (code c + 32) else c)"

definition toupper :: "char \<Rightarrow> char" where
  "toupper c = (if 97 \<le> code c \<and> code c \<le> 122 then char_of (code c - 32) else c)"

definition hex_upper :: "nat \<Rightarrow> char" where
  "hex_upper n = (if n < 10 then char_of (48 + n) else char_of (55 + n))"

definition hex_lower :: "nat \<Rightarrow> char" where
  "hex_lower n = (if n < 10 then char_of (48 + n) else char_of (87 + n))"

section \<open>URL encoding\<close>

definition url_safe :: "char \<Rightarrow> bool" where
  "url_safe ch \<longleftrightarrow>
     (65 \<le> code ch \<and> code ch \<le> 90) \<or> (97 \<le> code ch \<and> code ch \<le> 122) \<or>
     (48 \<le> code ch \<and> code ch \<le> 57) \<or>
     ch = CHR ''.'' \<or> ch = CHR ''-'' \<or> ch = CHR ''_'' \<or> ch = CHR ''*''"

text \<open>\<open>"%%%02X"\<close>: a percent sign and two upper-case hexadecimal digits.\<close>

definition percent02X :: "char \<Rightarrow> string" where
  "percent02X ch = [CHR ''%'', hex_upper (code ch div 16), hex_upper (code ch mod 16)]"

fun URLEncode :: "string \<Rightarrow> string \<Rightarrow> string" where
  "URLEncode [] encode_url = encode_url"
| "URLEncode (ch # url) encode_url =
     (if url_safe ch then URLEncode url (encode_url @ [ch])
      else if ch = CHR '' '' then URLEncode url (encode_url @ [CHR ''+''])
      else URLEncode url (encode_url @ percent02X ch))"

section \<open>Trimming\<close>

text \<open>Index of the first character that is not white space, or the length.\<close>

fun skip_space :: "string \<Rightarrow> nat" where
  "skip_space [] = 0"
| "skip_space (c # cs) = (if \<not> isspace c then 0 else Suc (skip_space cs))"

definition TrimLeft :: "string \<Rightarrow> string" where
  "TrimLeft t = (let i = skip_space t in if i = length t then [] else drop i t)"

text \<open>The backward loop from iterator \<open>i\<close>.\<close>

fun trim_right_from :: "string \<Rightarrow> nat \<Rightarrow> string" where
  "trim_right_from t 0 = (if \<not> isspace (t ! 0) then take 1 t else [])"
| "trim_right_from t (Suc i) =
     (if \<not> isspace (t ! Suc i) then take (Suc (Suc i)) t else trim_right_from t i)"

definition TrimRight :: "string \<Rightarrow> string" where
  "TrimRight str = (if str = [] then str else trim_right_from str (length str - 1))"

definition Trim :: "string \<Rightarrow> string" where
  "Trim t =
     (let i = skip_space t
      in if i = length t then []
         else let t = drop i t in trim_right_from t (length t - 1))"

section \<open>Case, prefix, suffix\<close>

definition ToLower :: "string \<Rightarrow> string" where "ToLower t = map tolower t"
definition ToUpper :: "string \<Rightarrow> string" where "ToUpper t = map toupper t"

text \<open>\<open>std::string::find\<close> and \<open>rfind\<close>; \<open>None\<close> is \<open>npos\<close>.\<close>

fun str_find :: "string \<Rightarrow> string \<Rightarrow> nat option" where
  "str_find [] sub = (if sub = [] then Some 0 else None)"
| "str_find (c # cs) sub =
     (if take (length sub) (c # cs) = sub then Some 0 else map_option Suc (str_find cs sub))"

fun str_rfind :: "string \<Rightarrow> string \<Rightarrow> nat option" where
  "str_rfind [] sub = (if sub = [] then Some 0 else None)"
| "str_rfind (c # cs) sub =
     (case str_rfind cs sub of
        Some i \<Rightarrow> Some (Suc i)
      | None \<Rightarrow> if take (length sub) (c # cs) = sub then Some 0 else None)"

definition StartsWith :: "string \<Rightarrow> string \<Rightarrow> bool" where
  "StartsWith str substr \<longleftrightarrow> str_find str substr = Some 0"

definition EndsWith :: "string \<Rightarrow> string \<Rightarrow> bool" where
  "EndsWith str substr \<longleftrightarrow>
     (case str_rfind str substr of
        None \<Rightarrow> False
      | Some i \<Rightarrow> i = size_sub (length str) (length substr))"

text \<open>The part of a string a C function sees: up to the first NUL.\<close>

definition c_str :: "string \<Rightarrow> string" where
  "c_str s = takeWhile (\<lambda>c. code c \<noteq> 0) s"

text \<open>The fallback \<open>wcscasecmp\<close>, on two NUL-terminated arrays given without the NUL.\<close>

fun wcscasecmp :: "(nat \<Rightarrow> nat) \<Rightarrow> nat list \<Rightarrow> nat list \<Rightarrow> int" where
  "wcscasecmp towlower [] s2 = (case s2 of [] \<Rightarrow> 0 | c # _ \<Rightarrow> - int c)"
| "wcscasecmp towlower (a # s1) s2 =
     (let c1 = towlower a; c2 = towlower (case s2 of [] \<Rightarrow> 0 | b # _ \<Rightarrow> b)
      in if c1 \<noteq> c2 then int c1 - int c2 else wcscasecmp towlower s1 (tl s2))"

definition EqualsIgnoreCase :: "string \<Rightarrow> string \<Rightarrow> bool" where
  "EqualsIgnoreCase str1 str2 \<longleftrightarrow> map tolower (c_str str1) = map tolower (c_str str2)"

definition EqualsIgnoreCase_w :: "(nat \<Rightarrow> nat) \<Rightarrow> nat list \<Rightarrow> nat list \<Rightarrow> bool" where
  "EqualsIgnoreCase_w towlower str1 str2 \<longleftrightarrow>
     wcscasecmp towlower (takeWhile (\<lambda>c. c \<noteq> 0) str1) (takeWhile (\<lambda>c. c \<noteq> 0) str2) = 0"

section \<open>Tokenizer\<close>

record Tokenizer =
  tk_offset :: nat
  tk_string :: string
  tk_token :: string
  tk_delimiters :: string

definition Tokenizer_new :: "string \<Rightarrow> string \<Rightarrow> Tokenizer" where
  "Tokenizer_new str delimiters =
     \<lparr>tk_offset = 0, tk_string = str, tk_token = [], tk_delimiters = delimiters\<rparr>"

text \<open>\<open>find_first_of\<close> and \<open>find_first_not_of\<close> from an offset.\<close>

fun find_from :: "(char \<Rightarrow> bool) \<Rightarrow> string \<Rightarrow> nat option" where
  "find_from P [] = None"
| "find_from P (c # cs) = (if P c then Some 0 else map_option Suc (find_from P cs))"

definition find_first_of :: "string \<Rightarrow> string \<Rightarrow> nat \<Rightarrow> nat option" where
  "find_first_of s delims off = map_option ((+) off) (find_from (\<lambda>c. c \<in> set delims) (drop off s))"

definition find_first_not_of :: "string \<Rightarrow> string \<Rightarrow> nat \<Rightarrow> nat option" where
  "find_first_not_of s delims off = map_option ((+) off) (find_from (\<lambda>c. c \<notin> set delims) (drop off s))"

definition NextToken_delims :: "string \<Rightarrow> Tokenizer \<Rightarrow> bool \<times> Tokenizer" where
  "NextToken_delims delimiters t =
     (case find_first_not_of (tk_string t) delimiters (tk_offset t) of
        None \<Rightarrow> (False, t\<lparr>tk_offset := length (tk_string t)\<rparr>)
      | Some i \<Rightarrow>
          (case find_first_of (tk_string t) delimiters i of
             None \<Rightarrow> (True, t\<lparr>tk_token := take (length (tk_string t) - i) (drop i (tk_string t)),
                              tk_offset := length (tk_string t)\<rparr>)
           | Some j \<Rightarrow> (True, t\<lparr>tk_token := take (j - i) (drop i (tk_string t)), tk_offset := j\<rparr>)))"

definition NextToken :: "Tokenizer \<Rightarrow> bool \<times> Tokenizer" where
  "NextToken t = NextToken_delims (tk_delimiters t) t"

definition Tokenizer_Reset :: "Tokenizer \<Rightarrow> Tokenizer" where
  "Tokenizer_Reset t = t\<lparr>tk_offset := 0\<rparr>"

lemma find_from_Some:
  "find_from P xs = Some i \<longleftrightarrow> i < length xs \<and> P (xs ! i) \<and> (\<forall>k < i. \<not> P (xs ! k))"
proof (induction xs arbitrary: i)
  case (Cons c cs)
  show ?case
  proof (cases i)
    case 0
    then show ?thesis by auto
  next
    case (Suc k)
    then show ?thesis using Cons.IH [of k] by (auto simp: less_Suc_eq_0_disj)
  qed
qed simp

lemma find_from_None: "find_from P xs = None \<longleftrightarrow> (\<forall>x \<in> set xs. \<not> P x)"
  by (induction xs) auto

lemma NextToken_progress:
  assumes "NextToken t = (True, t')"
  shows "tk_offset t < tk_offset t' \<and> tk_offset t' \<le> length (tk_string t) \<and> tk_string t' = tk_string t
         \<and> tk_delimiters t' = tk_delimiters t"
proof -
  obtain i where i: "find_first_not_of (tk_string t) (tk_delimiters t) (tk_offset t) = Some i"
    using assms by (auto simp: NextToken_def NextToken_delims_def split: option.splits)
  then have off: "tk_offset t \<le> i" "i < length (tk_string t)" "tk_string t ! i \<notin> set (tk_delimiters t)"
    by (auto simp: find_first_not_of_def find_from_Some)
  show ?thesis
  proof (cases "find_first_of (tk_string t) (tk_delimiters t) i")
    case None
    then show ?thesis using assms i off by (auto simp: NextToken_def NextToken_delims_def)
  next
    case (Some j)
    then have "i \<le> j" "j < length (tk_string t)" "tk_string t ! j \<in> set (tk_delimiters t)"
      by (auto simp: find_first_of_def find_from_Some)
    moreover from this off have "i \<noteq> j" by auto
    ultimately show ?thesis using assms i off Some by (auto simp: NextToken_def NextToken_delims_def)
  qed
qed

text \<open>The loop of \<open>SplitToken\<close>: it ends because every token moves the offset forward.\<close>

function split_loop :: "Tokenizer \<Rightarrow> string list \<Rightarrow> string list" where
  "split_loop t ss =
     (case NextToken t of (found, t') \<Rightarrow> if found then split_loop t' (ss @ [tk_token t']) else ss)"
  by pat_completeness auto
termination
  by (relation "measure (\<lambda>(t, ss). length (tk_string t) - tk_offset t)")
    (auto dest!: NextToken_progress [OF sym])

declare split_loop.simps [simp del]

definition SplitToken :: "string \<Rightarrow> string \<Rightarrow> string list \<Rightarrow> string list" where
  "SplitToken str delimiters ss = split_loop (Tokenizer_new str delimiters) ss"

fun merge_loop :: "string list \<Rightarrow> string \<Rightarrow> string \<Rightarrow> string" where
  "merge_loop [] delimiter result = result"
| "merge_loop [x] delimiter result = result @ x"
| "merge_loop (x # y # ys) delimiter result = merge_loop (y # ys) delimiter (result @ x @ delimiter)"

definition MergeToken :: "string list \<Rightarrow> string \<Rightarrow> string \<Rightarrow> bool \<times> string" where
  "MergeToken ts delimiter result =
     (if ts = [] then (False, result)
      else if delimiter = [] then (False, result)
      else (True, merge_loop ts delimiter []))"

section \<open>Hexadecimal and numbers\<close>

fun Hex2Str :: "string \<Rightarrow> string" where
  "Hex2Str [] = []"
| "Hex2Str (c # cs) = [hex_lower (code c div 16), hex_lower (code c mod 16)] @ Hex2Str cs"

definition hexval :: "char \<Rightarrow> nat option" where
  "hexval c = (if 48 \<le> code c \<and> code c \<le> 57 then Some (code c - 48)
               else if 97 \<le> code c \<and> code c \<le> 102 then Some (code c - 87)
               else if 65 \<le> code c \<and> code c \<le> 70 then Some (code c - 55)
               else None)"

fun hex_digits :: "string \<Rightarrow> nat \<Rightarrow> nat" where
  "hex_digits [] acc = acc"
| "hex_digits (c # cs) acc = (case hexval c of None \<Rightarrow> acc | Some d \<Rightarrow> hex_digits cs (16 * acc + d))"

text \<open>\<open>strtol(s, &p, 16)\<close> on a NUL-terminated string of a few characters.\<close>

definition strtol16 :: "string \<Rightarrow> int" where
  "strtol16 s =
     (let s = dropWhile isspace (c_str s);
          neg = (s \<noteq> [] \<and> hd s = CHR ''-'');
          s = (if s \<noteq> [] \<and> (hd s = CHR ''-'' \<or> hd s = CHR ''+'') then tl s else s);
          s = (if length s > 2 \<and> s ! 0 = CHR ''0'' \<and> tolower (s ! 1) = CHR ''x'' \<and> hexval (s ! 2) \<noteq> None
               then drop 2 s else s)
      in if neg then - int (hex_digits s 0) else int (hex_digits s 0))"

text \<open>\<open>Str2Hex\<close>: at most 64 bytes (the size of \<open>outbuffer\<close>) are produced.\<close>

fun str2hex_loop :: "string \<Rightarrow> nat \<Rightarrow> nat \<Rightarrow> string" where
  "str2hex_loop ptr i 0 = []"
| "str2hex_loop ptr i (Suc n) =
     char_of (nat (strtol16 [ptr ! (i * 2), ptr ! (i * 2 + 1)] mod 256)) # str2hex_loop ptr (Suc i) n"

definition Str2Hex :: "string \<Rightarrow> string" where
  "Str2Hex str =
     (let len = length str div 2; len = (if len > 64 then 64 else len) in str2hex_loop str 0 len)"

definition digitval :: "char \<Rightarrow> nat option" where
  "digitval c = (if 48 \<le> code c \<and> code c \<le> 57 then Some (code c - 48) else None)"

fun dec_digits :: "string \<Rightarrow> nat \<Rightarrow> nat" where
  "dec_digits [] acc = acc"
| "dec_digits (c # cs) acc = (case digitval c of None \<Rightarrow> acc | Some d \<Rightarrow> dec_digits cs (10 * acc + d))"

text \<open>
  \<open>std::stringstream >> unsigned int\<close>: leading white space and a sign are accepted; no
  digit, or a value above \<open>UINT_MAX\<close>, sets the fail bit; a minus sign negates modulo \<open>2^32\<close>.
\<close>

definition Str2UInt :: "string \<Rightarrow> nat" where
  "Str2UInt str =
     (let s = dropWhile isspace (c_str str);
          neg = (s \<noteq> [] \<and> hd s = CHR ''-'');
          s = (if s \<noteq> [] \<and> (hd s = CHR ''-'' \<or> hd s = CHR ''+'') then tl s else s);
          v = dec_digits s 0
      in if s = [] \<or> digitval (hd s) = None then 0
         else if v \<ge> 4294967296 then 0
         else if neg then (4294967296 - v) mod 4294967296 else v)"

definition ReplaceChar :: "string \<Rightarrow> char \<Rightarrow> char \<Rightarrow> string" where
  "ReplaceChar input_str be_replaced replace_with =
     map (\<lambda>c. if be_replaced = c then replace_with else c) (c_str input_str)"

section \<open>Reference definitions\<close>

text \<open>The inverse of the encoding: a decoder for the form encoding of URLs.\<close>

fun url_decode :: "string \<Rightarrow> string" where
  "url_decode [] = []"
| "url_decode (c # cs) =
     (if c = CHR ''+'' then CHR '' '' # url_decode cs
      else if c = CHR ''%'' then
        (case cs of
           h # l # rest \<Rightarrow>
             (case (hexval h, hexval l) of
                (Some a, Some b) \<Rightarrow> char_of (16 * a + b) # url_decode rest
              | _ \<Rightarrow> c # url_decode cs)
         | _ \<Rightarrow> c # url_decode cs)
      else c # url_decode cs)"

text \<open>The maximal runs of characters outside \<open>D\<close>.\<close>

function runs :: "(char \<Rightarrow> bool) \<Rightarrow> string \<Rightarrow> string list" where
  "runs D s =
     (case dropWhile D s of
        [] \<Rightarrow> []
      | c # cs \<Rightarrow> takeWhile (\<lambda>x. \<not> D x) (c # cs) # runs D (dropWhile (\<lambda>x. \<not> D x) cs))"
  by pat_completeness auto
termination
proof (relation "measure (\<lambda>(D, s). length s)", goal_cases)
  case (2 D s c cs)
  have "length (dropWhile D s) \<le> length s" by (rule length_dropWhile_le)
  moreover have "length (dropWhile (\<lambda>x. \<not> D x) cs) \<le> length cs" by (rule length_dropWhile_le)
  ultimately show ?case using 2 by simp
qed simp

declare runs.simps [simp del]

section \<open>Lemmas\<close>

lemma hexval_hex:
  assumes "n < 16"
  shows "hexval (hex_upper n) = Some n" "hexval (hex_lower n) = Some n"
  using assms by (auto simp: hexval_def hex_upper_def hex_lower_def)

definition url_enc1 :: "char \<Rightarrow> string" where
  "url_enc1 ch = (if url_safe ch then [ch] else if ch = CHR '' '' then [CHR ''+''] else percent02X ch)"

lemma URLEncode_concat: "URLEncode url acc = acc @ concat (map url_enc1 url)"
  by (induction url acc rule: URLEncode.induct) (auto simp: url_enc1_def)

lemma code_less: "code c < 256"
  by (rule nat_of_char_less_256)

lemma nibbles: "code c div 16 < 16" "code c mod 16 < 16"
  using less_mult_imp_div_less [of "code c" 16 16] code_less [of c] by simp_all

lemma not_safe_special: "\<not> url_safe (CHR ''+'')" "\<not> url_safe (CHR ''%'')"
  by (auto simp: url_safe_def)

lemma url_decode_enc1: "url_decode (url_enc1 ch @ rest) = ch # url_decode rest"
proof (cases "url_safe ch")
  case True
  then have "ch \<noteq> CHR ''+''" "ch \<noteq> CHR ''%''" using not_safe_special by auto
  with True show ?thesis by (simp add: url_enc1_def)
next
  case False
  show ?thesis
  proof (cases "ch = CHR '' ''")
    case True
    with False show ?thesis by (simp add: url_enc1_def)
  next
    case sp: False
    note nibbles [of ch]
    moreover have "char_of (16 * (code ch div 16) + code ch mod 16) = ch"
      using mult_div_mod_eq [of 16 "code ch"] by (simp only: char_of_char)
    ultimately show ?thesis
      using False sp by (simp add: url_enc1_def percent02X_def hexval_hex)
  qed
qed

lemma url_decode_encode: "url_decode (concat (map url_enc1 s)) = s"
  by (induction s) (simp_all add: url_decode_enc1)

lemma url_enc1_chars: "c \<in> set (url_enc1 ch) \<Longrightarrow> url_safe c \<or> c = CHR ''+'' \<or> c = CHR ''%''"
proof -
  have h: "n < 16 \<Longrightarrow> url_safe (hex_upper n)" for n
    by (auto simp: url_safe_def hex_upper_def)
  assume "c \<in> set (url_enc1 ch)"
  moreover note nibbles [of ch]
  ultimately show ?thesis using h by (auto simp: url_enc1_def percent02X_def split: if_splits)
qed

lemma skip_space_length: "skip_space t = length (takeWhile isspace t)"
  by (induction t) auto

lemma TrimLeft_dropWhile: "TrimLeft t = dropWhile isspace t"
proof -
  have "skip_space t = length t \<longleftrightarrow> dropWhile isspace t = []"
    by (metis append_Nil2 skip_space_length takeWhile_dropWhile_id length_append add_cancel_right_right
        length_0_conv)
  moreover have "drop (skip_space t) t = dropWhile isspace t"
    by (simp add: skip_space_length dropWhile_eq_drop)
  ultimately show ?thesis by (auto simp: TrimLeft_def Let_def)
qed

lemma trim_right_from_rev:
  "i < length t \<Longrightarrow> trim_right_from t i = rev (dropWhile isspace (rev (take (Suc i) t)))"
proof (induction t i rule: trim_right_from.induct)
  case (1 t)
  then show ?case by (cases t) auto
next
  case (2 t i)
  have "take (Suc (Suc i)) t = take (Suc i) t @ [t ! Suc i]"
    using 2(2) by (simp add: take_Suc_conv_app_nth)
  with 2 show ?case by simp
qed

lemma TrimRight_rev: "TrimRight t = rev (dropWhile isspace (rev t))"
  using trim_right_from_rev [of "length t - 1" t] by (cases "t = []") (simp_all add: TrimRight_def)

lemma Trim_compose: "Trim t = TrimRight (TrimLeft t)"
  by (auto simp: Trim_def TrimLeft_def TrimRight_def Let_def)

lemma find_from_takeWhile:
  "find_from P xs = (if dropWhile (\<lambda>x. \<not> P x) xs = [] then None
                     else Some (length (takeWhile (\<lambda>x. \<not> P x) xs)))"
  by (induction xs) auto

lemma NextToken_runs:
  fixes t :: Tokenizer
  defines "D \<equiv> (\<lambda>c. c \<in> set (tk_delimiters t))"
  defines "r \<equiv> drop (tk_offset t) (tk_string t)"
  shows "dropWhile D r = [] \<Longrightarrow> fst (NextToken t) = False"
    and "dropWhile D r = c # cs \<Longrightarrow>
      \<exists>t'. NextToken t = (True, t') \<and> tk_token t' = takeWhile (\<lambda>x. \<not> D x) (c # cs)
           \<and> drop (tk_offset t') (tk_string t') = dropWhile (\<lambda>x. \<not> D x) cs
           \<and> tk_string t' = tk_string t \<and> tk_delimiters t' = tk_delimiters t"
proof -
  assume "dropWhile D r = []"
  then have "find_from (\<lambda>c. c \<notin> set (tk_delimiters t)) r = None"
    by (simp add: find_from_takeWhile D_def)
  then show "fst (NextToken t) = False"
    by (simp add: NextToken_def NextToken_delims_def find_first_not_of_def r_def)
next
  assume c: "dropWhile D r = c # cs"
  let ?i = "tk_offset t + length (takeWhile D r)"
  let ?s = "tk_string t"
  have nD: "\<not> D c" using c by (metis hd_dropWhile list.discI list.sel(1))
  have i: "find_first_not_of ?s (tk_delimiters t) (tk_offset t) = Some ?i"
    using c by (simp add: find_first_not_of_def find_from_takeWhile D_def r_def)
  have di: "drop ?i ?s = c # cs"
    using c by (simp add: r_def dropWhile_eq_drop add.commute)
  have j: "find_first_of ?s (tk_delimiters t) ?i =
     (if dropWhile (\<lambda>x. \<not> D x) (c # cs) = [] then None
      else Some (?i + length (takeWhile (\<lambda>x. \<not> D x) (c # cs))))"
  proof -
    have "find_first_of ?s (tk_delimiters t) ?i = map_option ((+) ?i) (find_from D (drop ?i ?s))"
      by (simp only: find_first_of_def D_def)
    then show ?thesis unfolding di find_from_takeWhile by (simp only: if_distrib option.map)
  qed
  show "\<exists>t'. NextToken t = (True, t') \<and> tk_token t' = takeWhile (\<lambda>x. \<not> D x) (c # cs)
           \<and> drop (tk_offset t') (tk_string t') = dropWhile (\<lambda>x. \<not> D x) cs
           \<and> tk_string t' = tk_string t \<and> tk_delimiters t' = tk_delimiters t"
  proof (cases "dropWhile (\<lambda>x. \<not> D x) (c # cs) = []")
    case True
    then have tw: "takeWhile (\<lambda>x. \<not> D x) (c # cs) = c # cs"
      by (metis append_Nil2 takeWhile_dropWhile_id)
    have "length ?s - ?i = length (drop ?i ?s)" by (simp only: length_drop)
    then have "length ?s - ?i = length (c # cs)" by (simp only: di)
    moreover have "dropWhile (\<lambda>x. \<not> D x) cs = []" using True nD by simp
    ultimately show ?thesis
      using True i j di by (simp only: NextToken_def NextToken_delims_def tw) (simp del: dropWhile_eq_Nil_conv)
  next
    case False
    let ?k = "length (takeWhile (\<lambda>x. \<not> D x) (c # cs))"
    have "take ?k (c # cs) = takeWhile (\<lambda>x. \<not> D x) (c # cs)"
      by (metis takeWhile_eq_take)
    moreover have "drop (?i + ?k) ?s = dropWhile (\<lambda>x. \<not> D x) cs"
    proof -
      have "drop (?i + ?k) ?s = drop ?k (drop ?i ?s)" by (simp add: add.commute)
      also have "\<dots> = dropWhile (\<lambda>x. \<not> D x) (c # cs)" by (simp only: di dropWhile_eq_drop)
      finally show ?thesis using nD by simp
    qed
    ultimately show ?thesis
      using False i j di by (simp add: NextToken_def NextToken_delims_def)
  qed
qed

lemma runs_unfold:
  "dropWhile D s = [] \<Longrightarrow> runs D s = []"
  "dropWhile D s = c # cs \<Longrightarrow>
     runs D s = takeWhile (\<lambda>x. \<not> D x) (c # cs) # runs D (dropWhile (\<lambda>x. \<not> D x) cs)"
  by (subst runs.simps, simp only: list.case)+

lemma split_loop_runs:
  "split_loop t ss = ss @ runs (\<lambda>c. c \<in> set (tk_delimiters t)) (drop (tk_offset t) (tk_string t))"
proof (induction t ss rule: split_loop.induct)
  case (1 t ss)
  let ?D = "\<lambda>c. c \<in> set (tk_delimiters t)"
  let ?r = "drop (tk_offset t) (tk_string t)"
  show ?case
  proof (cases "dropWhile ?D ?r")
    case Nil
    then have "fst (NextToken t) = False" by (rule NextToken_runs(1))
    then show ?thesis
      using runs_unfold(1) [OF Nil] by (cases "NextToken t") (simp add: split_loop.simps [of t ss])
  next
    case (Cons c cs)
    obtain t' where t': "NextToken t = (True, t')" "tk_token t' = takeWhile (\<lambda>x. \<not> ?D x) (c # cs)"
      "drop (tk_offset t') (tk_string t') = dropWhile (\<lambda>x. \<not> ?D x) cs"
      "tk_delimiters t' = tk_delimiters t"
      using NextToken_runs(2) [OF Cons] by blast
    have "split_loop t' (ss @ [tk_token t']) = (ss @ [tk_token t']) @ runs ?D (dropWhile (\<lambda>x. \<not> ?D x) cs)"
      using 1 [of True t'] t' by simp
    then show ?thesis
      using runs_unfold(2) [OF Cons] t' by (simp add: split_loop.simps [of t ss])
  qed
qed

lemma filter_takeWhile_dropWhile: "filter P xs = takeWhile P xs @ filter P (dropWhile P xs)"
  by (induction xs) auto

lemma runs_props:
  "concat (runs D s) = filter (\<lambda>c. \<not> D c) s \<and> (\<forall>x \<in> set (runs D s). x \<noteq> [] \<and> (\<forall>c \<in> set x. \<not> D c))"
proof (induction D s rule: runs.induct)
  case (1 D s)
  have f: "filter (\<lambda>c. \<not> D c) s = filter (\<lambda>c. \<not> D c) (dropWhile D s)"
    by (metis (mono_tags, lifting) append_Nil filter_append filter_False set_takeWhileD takeWhile_dropWhile_id)
  show ?case
  proof (cases "dropWhile D s")
    case Nil
    then show ?thesis by (simp only: f runs_unfold(1)) simp
  next
    case (Cons c cs)
    have nD: "\<not> D c" using Cons by (metis hd_dropWhile list.discI list.sel(1))
    have tk: "filter (\<lambda>c. \<not> D c) (c # cs) =
        takeWhile (\<lambda>x. \<not> D x) (c # cs) @ filter (\<lambda>c. \<not> D c) (dropWhile (\<lambda>x. \<not> D x) cs)"
      using nD filter_takeWhile_dropWhile [of "\<lambda>x. \<not> D x" cs] by simp
    define x where "x = takeWhile (\<lambda>x. \<not> D x) (c # cs)"
    define rs where "rs = runs D (dropWhile (\<lambda>x. \<not> D x) cs)"
    have r: "runs D s = x # rs" by (simp only: runs_unfold(2) [OF Cons] x_def rs_def)
    have fs: "filter (\<lambda>c. \<not> D c) s = x @ concat rs"
      unfolding x_def rs_def by (simp only: f [unfolded Cons tk] 1 [OF Cons, THEN conjunct1])
    have x: "x \<noteq> []" "\<forall>y \<in> set x. \<not> D y"
      using nD by (simp add: x_def) (use set_takeWhileD in \<open>force simp: x_def\<close>)
    have rs: "\<forall>x \<in> set rs. x \<noteq> [] \<and> (\<forall>c \<in> set x. \<not> D c)" unfolding rs_def by (rule 1 [OF Cons, THEN conjunct2])
    show ?thesis unfolding r fs using x rs by simp
  qed
qed

lemma runs_skip: "\<forall>c \<in> set d. D c \<Longrightarrow> runs D (d @ s) = runs D s"
  by (simp add: runs.simps [of D "d @ s"] runs.simps [of D s])

lemma runs_token:
  assumes "x \<noteq> []" "\<forall>c \<in> set x. \<not> D c" "s = [] \<or> D (hd s)"
  shows "runs D (x @ s) = x # runs D s"
proof -
  obtain c cs where x: "x = c # cs" using assms(1) by (cases x) auto
  have nD: "\<not> D c" "\<forall>y \<in> set cs. \<not> D y" using assms(2) x by auto
  have dw: "dropWhile D (x @ s) = c # (cs @ s)" using nD x by simp
  have s: "takeWhile (\<lambda>x. \<not> D x) s = []" "dropWhile (\<lambda>x. \<not> D x) s = s"
    using assms(3) by (cases s; auto)+
  have tw: "takeWhile (\<lambda>x. \<not> D x) (c # (cs @ s)) = x" "dropWhile (\<lambda>x. \<not> D x) (cs @ s) = s"
    using nD s x by (simp_all add: takeWhile_append dropWhile_append)
  show ?thesis by (simp only: runs_unfold(2) [OF dw] tw)
qed

lemma runs_merge:
  assumes "d \<noteq> []" "\<forall>c \<in> set d. D c" "\<forall>x \<in> set ts. x \<noteq> [] \<and> (\<forall>c \<in> set x. \<not> D c)" "ts \<noteq> []"
  shows "\<exists>m. merge_loop ts d acc = acc @ m \<and> runs D m = ts"
  using assms(3,4)
proof (induction ts arbitrary: acc rule: induct_list012)
  case (2 x)
  then have "runs D (x @ []) = x # runs D []" by (intro runs_token) auto
  then show ?case by (auto simp: runs.simps [of D "[]"])
next
  case (3 x y zs)
  obtain m where m: "merge_loop (y # zs) d (acc @ x @ d) = (acc @ x @ d) @ m" "runs D m = y # zs"
    using "3.IH"(2) [of "acc @ x @ d"] "3.prems" by auto
  have "runs D (x @ d @ m) = x # runs D (d @ m)"
    using "3.prems" assms(1,2) by (intro runs_token) (auto simp: hd_append)
  then have "runs D (x @ d @ m) = x # y # zs" using assms(2) m(2) by (simp add: runs_skip)
  then show ?case using m(1) by (intro exI [of _ "x @ d @ m"]) simp
qed simp

lemma str_find_0: "str_find s sub = Some 0 \<longleftrightarrow> take (length sub) s = sub"
  by (cases s) auto

lemma str_rfind_sound:
  "str_rfind s sub = Some i \<Longrightarrow> i \<le> length s \<and> take (length sub) (drop i s) = sub"
  by (induction s arbitrary: i) (auto split: if_splits option.splits)

lemma str_rfind_complete:
  "take (length sub) (drop j s) = sub \<Longrightarrow> j \<le> length s \<Longrightarrow> \<exists>i \<ge> j. str_rfind s sub = Some i"
proof (induction s arbitrary: j)
  case (Cons c cs)
  show ?case
  proof (cases j)
    case 0
    then show ?thesis using Cons.prems by (cases "str_rfind cs sub") auto
  next
    case (Suc k)
    then obtain i where "i \<ge> k" "str_rfind cs sub = Some i" using Cons by auto
    with Suc show ?thesis by auto
  qed
qed auto

lemma EndsWith_suffix:
  assumes "length str < SIZE_MOD"
  shows "EndsWith str substr \<longleftrightarrow> suffix substr str"
proof
  assume "EndsWith str substr"
  then obtain i where i: "str_rfind str substr = Some i" "i = size_sub (length str) (length substr)"
    by (auto simp: EndsWith_def split: option.splits)
  have s: "i \<le> length str" "take (length substr) (drop i str) = substr"
    using str_rfind_sound [OF i(1)] by auto
  have "length (take (length substr) (drop i str)) = length substr" by (simp only: s(2))
  then have le: "length substr \<le> length str" by simp
  then have "i = length str - length substr" using i(2) assms by simp
  then have "length (drop i str) = length substr" using le by simp
  then have "drop i str = substr" using s(2) by simp
  then show "suffix substr str" by (metis suffix_drop)
next
  assume "suffix substr str"
  then obtain xs where xs: "str = xs @ substr" by (auto simp: suffix_def)
  obtain i where i: "i \<ge> length xs" "str_rfind str substr = Some i"
    using str_rfind_complete [of substr "length xs" str] xs by auto
  have "i \<le> length xs"
  proof -
    have "length (take (length substr) (drop i str)) = length substr"
      using str_rfind_sound [OF i(2)] by simp
    then show ?thesis using str_rfind_sound [OF i(2)] xs by (cases "substr = []") auto
  qed
  then have "i = size_sub (length str) (length substr)" using i(1) xs assms by simp
  then show "EndsWith str substr" using i(2) by (simp add: EndsWith_def)
qed

lemma Hex2Str_nth:
  "i < length s \<Longrightarrow> Hex2Str s ! (i * 2) = hex_lower (code (s ! i) div 16)
                 \<and> Hex2Str s ! (i * 2 + 1) = hex_lower (code (s ! i) mod 16)"
proof (induction s arbitrary: i)
  case (Cons c cs)
  then show ?case by (cases i) auto
qed simp

lemma length_Hex2Str: "length (Hex2Str s) = 2 * length s"
  by (induction s) auto

lemma strtol16_byte:
  assumes "a < 16" "b < 16"
  shows "strtol16 [hex_lower a, hex_lower b] = int (16 * a + b)"
proof -
  have c: "c_str [hex_lower a, hex_lower b] = [hex_lower a, hex_lower b]"
    using assms by (auto simp: c_str_def hex_lower_def)
  have n: "\<not> isspace (hex_lower a)" "hex_lower a \<noteq> CHR ''-''" "hex_lower a \<noteq> CHR ''+''"
  proof -
    have "code (hex_lower a) \<ge> 48" using assms by (simp add: hex_lower_def)
    moreover have "code (CHR ''-'') = 45" "code (CHR ''+'') = 43" by simp_all
    ultimately show "\<not> isspace (hex_lower a)" "hex_lower a \<noteq> CHR ''-''" "hex_lower a \<noteq> CHR ''+''"
      by (auto simp: isspace_def)
  qed
  show ?thesis using n assms by (simp add: strtol16_def c hexval_hex)
qed

lemma str2hex_loop_inverse:
  "i + n \<le> length s \<Longrightarrow> str2hex_loop (Hex2Str s) i n = take n (drop i s)"
proof (induction n arbitrary: i)
  case (Suc n)
  then have i: "i < length s" by simp
  have byte: "16 * (code (s ! i) div 16) + code (s ! i) mod 16 = code (s ! i)" by simp
  have "strtol16 [Hex2Str s ! (i * 2), Hex2Str s ! (i * 2 + 1)] = int (code (s ! i))"
    using Hex2Str_nth [OF i] strtol16_byte [OF nibbles] byte by metis
  then show ?case
    using Suc i by (simp add: Cons_nth_drop_Suc [symmetric])
qed simp

section \<open>Properties\<close>

text \<open>
  C40: URL encoding appends only characters that need no further encoding (letters,
  digits, \<open>. - _ * + %\<close>), and it loses nothing: decoding gives the original bytes back.
\<close>

theorem URLEncode_roundtrip:
  "\<exists>enc. URLEncode url acc = acc @ enc \<and> url_decode enc = url
     \<and> (\<forall>c \<in> set enc. url_safe c \<or> c = CHR ''+'' \<or> c = CHR ''%'')"
  using url_enc1_chars
  by (intro exI [of _ "concat (map url_enc1 url)"]) (auto simp: URLEncode_concat url_decode_encode)

theorem URLEncode_roundtrip_witness:
  "URLEncode ''a b/c'' [] = ''a+b%2Fc''
   \<and> (\<exists>enc. URLEncode ''a b/c'' [] = [] @ enc \<and> url_decode enc = ''a b/c'')"
proof -
  have "URLEncode ''a b/c'' [] = ''a+b%2Fc''" by code_simp
  with URLEncode_roundtrip [of "''a b/c''" "[]"] show ?thesis by blast
qed

text \<open>
  \<open>Trim\<close> removes exactly the white space around a string: the input is white space,
  the result, white space; the result neither starts nor ends with white space; and
  \<open>Trim\<close> is \<open>TrimRight\<close> after \<open>TrimLeft\<close>.
\<close>

theorem Trim_exact:
  "Trim s = TrimRight (TrimLeft s)
   \<and> (\<exists>l r. s = l @ Trim s @ r \<and> (\<forall>c \<in> set l \<union> set r. isspace c))
   \<and> (Trim s \<noteq> [] \<longrightarrow> \<not> isspace (hd (Trim s)) \<and> \<not> isspace (last (Trim s)))"
proof -
  define m where "m = dropWhile isspace s"
  have t: "Trim s = rev (dropWhile isspace (rev m))"
    by (simp add: Trim_compose TrimRight_rev TrimLeft_dropWhile m_def)
  define r where "r = rev (takeWhile isspace (rev m))"
  have m: "m = Trim s @ r"
    using takeWhile_dropWhile_id [of isspace "rev m"] by (metis t r_def rev_append rev_rev_ident)
  have s: "s = takeWhile isspace s @ m" by (simp add: m_def)
  have ws: "\<forall>c \<in> set (takeWhile isspace s) \<union> set r. isspace c"
    by (auto simp: r_def dest: set_takeWhileD)
  have "Trim s \<noteq> [] \<Longrightarrow> \<not> isspace (last (Trim s))"
    using hd_dropWhile [of isspace "rev m"] by (simp add: t last_rev)
  moreover have "Trim s \<noteq> [] \<Longrightarrow> \<not> isspace (hd (Trim s))"
    using hd_dropWhile [of isspace s] m by (metis m_def append_is_Nil_conv hd_append2)
  ultimately show ?thesis using s m ws Trim_compose by (metis append.assoc)
qed

theorem Trim_exact_witness:
  "Trim '' ab c  '' = ''ab c'' \<and> \<not> isspace (hd (Trim '' ab c  ''))"
proof -
  have "Trim '' ab c  '' = ''ab c''" by code_simp
  with Trim_exact [of "'' ab c  ''"] show ?thesis by (metis list.discI)
qed

text \<open>
  \<open>SplitToken\<close> terminates and appends the non-empty, delimiter-free tokens of the
  string in order, losing no other character; \<open>MergeToken\<close> followed by \<open>SplitToken\<close> with
  the same delimiter returns the tokens that were merged.
\<close>

theorem SplitToken_spec:
  assumes "ts \<noteq> []" and "d \<noteq> []" and "\<forall>x \<in> set ts. x \<noteq> [] \<and> (\<forall>c \<in> set x. c \<notin> set d)"
  shows "(\<exists>tokens. SplitToken str delims ss = ss @ tokens
            \<and> (\<forall>x \<in> set tokens. x \<noteq> [] \<and> (\<forall>c \<in> set x. c \<notin> set delims))
            \<and> concat tokens = filter (\<lambda>c. c \<notin> set delims) str)
       \<and> (\<exists>m. MergeToken ts d result = (True, m) \<and> SplitToken m d [] = ts)"
proof -
  have "SplitToken str delims ss = ss @ runs (\<lambda>c. c \<in> set delims) str"
    by (simp add: SplitToken_def split_loop_runs Tokenizer_new_def)
  moreover obtain m where "merge_loop ts d [] = m" "runs (\<lambda>c. c \<in> set d) m = ts"
    using runs_merge [of d "\<lambda>c. c \<in> set d" ts "[]"] assms by auto
  ultimately show ?thesis
    using runs_props [of "\<lambda>c. c \<in> set delims" str] assms
    by (auto simp: MergeToken_def SplitToken_def split_loop_runs Tokenizer_new_def)
qed

theorem SplitToken_spec_witness:
  "\<exists>m. MergeToken [''ab'', ''c''] '', '' [] = (True, m) \<and> SplitToken m '', '' [] = [''ab'', ''c'']"
  using SplitToken_spec [of "[''ab'', ''c'']" "'', ''"] by simp

text \<open>
  \<open>StartsWith\<close> and \<open>EndsWith\<close>, written with \<open>find\<close> and \<open>rfind\<close>, decide exactly the
  prefix and the suffix relation on every string.
\<close>

theorem StartsWith_EndsWith_correct:
  assumes "length str < SIZE_MOD"
  shows "(StartsWith str substr \<longleftrightarrow> prefix substr str) \<and> (EndsWith str substr \<longleftrightarrow> suffix substr str)"
proof -
  have "StartsWith str substr \<longleftrightarrow> prefix substr str"
    by (metis StartsWith_def str_find_0 prefix_def append_take_drop_id append_eq_conv_conj)
  then show ?thesis using EndsWith_suffix [OF assms] by blast
qed

theorem StartsWith_EndsWith_correct_witness: "EndsWith ''aabaab'' ''aab'' \<and> StartsWith ''aabaab'' ''aab''"
  using StartsWith_EndsWith_correct [of "''aabaab''" "''aab''"] by (simp add: suffix_def prefix_def)

text \<open>
  \<open>Str2Hex\<close> inverts \<open>Hex2Str\<close> on its first 64 bytes and silently drops the rest: the
  fixed output buffer bounds the result.
\<close>

theorem Str2Hex_Hex2Str: "Str2Hex (Hex2Str s) = take 64 s"
proof -
  have "str2hex_loop (Hex2Str s) 0 (min 64 (length s)) = take (min 64 (length s)) (drop 0 s)"
    by (rule str2hex_loop_inverse) simp
  moreover have "take (min 64 (length s)) s = take 64 s" by (auto simp: min_def)
  moreover have "(if length s > 64 then 64 else length s) = min 64 (length s)" by auto
  ultimately show ?thesis by (simp add: Str2Hex_def length_Hex2Str Let_def)
qed

end
