(* ===== verification/MsgQueue.thy ===== *)
theory MsgQueue
  imports TimeUtils Atomic "HOL-Library.Sublist"
begin

text \<open>
  Model of \<open>utils/msgqueue.h\<close> and \<open>utils/msgqueue.cc\<close>: messages, handlers, the queue
  with its three dispatch loops, and the wrapper that creates the queue lazily.

  A queue operation runs under the queue's mutex, so it is one step on the record
  \<open>MsgQueue\<close>. The dispatch loops release the mutex while a handler runs; what other
  threads (or the handler itself) do to the queue meanwhile is an explicit list of
  client operations. A message is identified by its sequence number, which plays the
  part of its address.

  Wherever the source erases a list node and then reads the erased iterator
  (\<open>lst_msg.erase(it); delete(*it);\<close>) the model follows the evident intent, deletes
  the message, and records the access to freed memory in the flag \<open>q_dangling\<close>.
\<close>

section \<open>Tasks and messages\<close>

record TaskWrapper =
  obj_task :: "nat option"
  fpn_task :: "nat option"

text \<open>\<open>TaskWrapper::DoTask\<close>: the tasks it starts, in order.\<close>

definition TaskWrapper_DoTask :: "TaskWrapper \<Rightarrow> nat list" where
  "TaskWrapper_DoTask tw =
     (case obj_task tw of None \<Rightarrow> [] | Some t \<Rightarrow> [t]) @ (case fpn_task tw of None \<Rightarrow> [] | Some f \<Rightarrow> [f])"

datatype MsgTimerType = kAfter | kImmediately

record Msg =
  m_task :: "TaskWrapper option"
  m_timer :: MsgTimerType
  m_after :: int
  m_period :: int
  m_seq :: int
  m_id :: int
  m_handler :: int
  m_record_time :: u64
  m_broadcast :: bool
  m_runable :: bool
  m_handling :: bool

definition INVALID_MSG_ID :: int where "INVALID_MSG_ID = -1"
definition DEFAULT_HANDLER_ID :: int where "DEFAULT_HANDLER_ID = 0"

text \<open>The constructors; \<open>now\<close> is the value of \<open>gettickcount()\<close>.\<close>

definition Msg_tasklet :: "nat option \<Rightarrow> Msg" where
  "Msg_tasklet k =
     \<lparr>m_task = Some \<lparr>obj_task = k, fpn_task = None\<rparr>, m_timer = kImmediately, m_after = 0, m_period = 0,
      m_seq = -1, m_id = INVALID_MSG_ID, m_handler = DEFAULT_HANDLER_ID, m_record_time = 0,
      m_broadcast = False, m_runable = True, m_handling = False\<rparr>"

definition Msg_tasklet_after :: "u64 \<Rightarrow> nat option \<Rightarrow> int \<Rightarrow> Msg" where
  "Msg_tasklet_after now k after =
     \<lparr>m_task = Some \<lparr>obj_task = k, fpn_task = None\<rparr>, m_timer = kAfter, m_after = after, m_period = 0,
      m_seq = -1, m_id = INVALID_MSG_ID, m_handler = DEFAULT_HANDLER_ID, m_record_time = now,
      m_broadcast = False, m_runable = True, m_handling = False\<rparr>"

definition Msg_fn :: "nat option \<Rightarrow> Msg" where
  "Msg_fn f =
     \<lparr>m_task = Some \<lparr>obj_task = None, fpn_task = f\<rparr>, m_timer = kImmediately, m_after = 0, m_period = 0,
      m_seq = -1, m_id = INVALID_MSG_ID, m_handler = DEFAULT_HANDLER_ID, m_record_time = 0,
      m_broadcast = False, m_runable = (f \<noteq> None), m_handling = False\<rparr>"

definition Msg_fn_after :: "u64 \<Rightarrow> nat option \<Rightarrow> int \<Rightarrow> Msg" where
  "Msg_fn_after now f after =
     \<lparr>m_task = Some \<lparr>obj_task = None, fpn_task = f\<rparr>, m_timer = kAfter, m_after = after, m_period = 0,
      m_seq = -1, m_id = INVALID_MSG_ID, m_handler = DEFAULT_HANDLER_ID, m_record_time = now,
      m_broadcast = False, m_runable = (f \<noteq> None), m_handling = False\<rparr>"

definition Msg_plain :: "int \<Rightarrow> int \<Rightarrow> Msg" where
  "Msg_plain msg_id handler_id =
     \<lparr>m_task = None, m_timer = kImmediately, m_after = 0, m_period = 0,
      m_seq = -1, m_id = msg_id, m_handler = handler_id, m_record_time = 0,
      m_broadcast = False, m_runable = False, m_handling = False\<rparr>"

definition Msg_plain_after :: "u64 \<Rightarrow> int \<Rightarrow> int \<Rightarrow> int \<Rightarrow> Msg" where
  "Msg_plain_after now msg_id handler_id after =
     \<lparr>m_task = None, m_timer = kAfter, m_after = after, m_period = 0,
      m_seq = -1, m_id = msg_id, m_handler = handler_id, m_record_time = now,
      m_broadcast = False, m_runable = False, m_handling = False\<rparr>"

definition Msg_DoTask :: "Msg \<Rightarrow> nat list" where
  "Msg_DoTask m = (case m_task m of Some tw \<Rightarrow> if m_runable m then TaskWrapper_DoTask tw else [] | None \<Rightarrow> [])"

definition Msg_SetId :: "int \<Rightarrow> int \<Rightarrow> Msg \<Rightarrow> Msg" where
  "Msg_SetId msg_id handler_id m = m\<lparr>m_id := msg_id, m_handler := handler_id\<rparr>"

definition Msg_SetBroadcast :: "bool \<Rightarrow> Msg \<Rightarrow> Msg" where
  "Msg_SetBroadcast b m = m\<lparr>m_broadcast := b\<rparr>"

section \<open>Handlers\<close>

datatype handler_class = BaseHandler | DefaultHandler

record Handler =
  h_id :: int
  h_broadcast :: bool
  h_name :: string
  h_class :: handler_class

definition Handler_new :: "string \<Rightarrow> Handler" where
  "Handler_new name = \<lparr>h_id = -1, h_broadcast = False, h_name = name, h_class = BaseHandler\<rparr>"

definition Handler_SetId :: "int \<Rightarrow> Handler \<Rightarrow> Handler" where
  "Handler_SetId i h = h\<lparr>h_id := i\<rparr>"

definition DefaultHandler_new :: "int \<Rightarrow> string \<Rightarrow> Handler" where
  "DefaultHandler_new i name = \<lparr>h_id = i, h_broadcast = False, h_name = name, h_class = DefaultHandler\<rparr>"

text \<open>\<open>Handle\<close>: both classes start the message's task if it is runable; the rest is logging.\<close>

definition Handle :: "Handler \<Rightarrow> Msg \<Rightarrow> nat list" where
  "Handle h m =
     (case h_class h of
        BaseHandler \<Rightarrow> Msg_DoTask m
      | DefaultHandler \<Rightarrow> if m_runable m then Msg_DoTask m else [])"

section \<open>The queue\<close>

record MsgQueue =
  q_handlers :: "Handler list"
  q_msgs :: "Msg list"
  q_exit :: bool
  q_exit_done :: bool
  q_name :: string
  q_seq :: int
  q_dangling :: bool

definition MsgQueue_new :: "string \<Rightarrow> MsgQueue" where
  "MsgQueue_new name =
     \<lparr>q_handlers = [], q_msgs = [], q_exit = False, q_exit_done = True, q_name = name, q_seq = 0,
      q_dangling = False\<rparr>"

fun has_handler_loop :: "int \<Rightarrow> Handler list \<Rightarrow> bool \<Rightarrow> bool" where
  "has_handler_loop i [] found = found"
| "has_handler_loop i (h # hs) found = has_handler_loop i hs (if i = h_id h then True else found)"

definition has_handler :: "int \<Rightarrow> MsgQueue \<Rightarrow> bool" where
  "has_handler i q = has_handler_loop i (q_handlers q) False"

definition send_msg :: "Msg \<Rightarrow> MsgQueue \<Rightarrow> int \<times> MsgQueue" where
  "send_msg msg q =
     (if \<not> has_handler (m_handler msg) q then (-1, q)
      else let msg = msg\<lparr>m_seq := q_seq q\<rparr>
           in (m_seq msg, q\<lparr>q_seq := q_seq q + 1, q_msgs := q_msgs q @ [msg]\<rparr>))"

definition send_msg_id :: "int \<Rightarrow> int \<Rightarrow> MsgQueue \<Rightarrow> int \<times> MsgQueue" where
  "send_msg_id msg_id handler_id q = send_msg (Msg_plain msg_id handler_id) q"

definition send_msg_after :: "u64 \<Rightarrow> int \<Rightarrow> int \<Rightarrow> int \<Rightarrow> MsgQueue \<Rightarrow> int \<times> MsgQueue" where
  "send_msg_after now msg_id handler_id after q = send_msg (Msg_plain_after now msg_id handler_id after) q"

text \<open>
  The four cancel loops share their shape: walk the list, erase the matching messages
  that are not being handled. They differ in what a matching running message does
  (\<open>stop_running\<close>: break off) and in whether one erased message is enough
  (\<open>only_one\<close>). The number of erased messages is returned with the list.
\<close>

fun cancel_scan :: "(Msg \<Rightarrow> bool) \<Rightarrow> bool \<Rightarrow> bool \<Rightarrow> Msg list \<Rightarrow> Msg list \<times> nat" where
  "cancel_scan P stop_running only_one [] = ([], 0)"
| "cancel_scan P stop_running only_one (m # ms) =
     (if P m then
        (if \<not> m_handling m then
           (if only_one then (ms, 1)
            else let (r, n) = cancel_scan P stop_running only_one ms in (r, Suc n))
         else if stop_running then (m # ms, 0)
         else let (r, n) = cancel_scan P stop_running only_one ms in (m # r, n))
      else let (r, n) = cancel_scan P stop_running only_one ms in (m # r, n))"

definition cancel_with :: "(Msg \<Rightarrow> bool) \<Rightarrow> bool \<Rightarrow> bool \<Rightarrow> MsgQueue \<Rightarrow> MsgQueue" where
  "cancel_with P stop_running only_one q =
     (case cancel_scan P stop_running only_one (q_msgs q) of (ms, n) \<Rightarrow>
        q\<lparr>q_msgs := ms, q_dangling := (q_dangling q \<or> 0 < n)\<rparr>)"

definition cancel_msg_seq :: "int \<Rightarrow> MsgQueue \<Rightarrow> MsgQueue" where
  "cancel_msg_seq seq q =
     (if seq > q_seq q then q else cancel_with (\<lambda>m. m_seq m = seq) True False q)"

definition cancel_msg_like :: "Msg \<Rightarrow> MsgQueue \<Rightarrow> MsgQueue" where
  "cancel_msg_like msg q =
     cancel_with (\<lambda>m. m_id msg = m_id m \<and> m_handler msg = m_handler m) True False q"

definition cancel_msg_handler :: "int \<Rightarrow> MsgQueue \<Rightarrow> MsgQueue" where
  "cancel_msg_handler handler_id q = cancel_with (\<lambda>m. handler_id = m_handler m) False False q"

definition cancel_msg_id :: "int \<Rightarrow> int \<Rightarrow> MsgQueue \<Rightarrow> MsgQueue" where
  "cancel_msg_id msg_id handler_id q =
     cancel_with (\<lambda>m. msg_id = m_id m \<and> handler_id = m_handler m) True True q"

text \<open>\<open>add_handler(NULL)\<close> is \<open>None\<close>.\<close>

definition add_handler :: "Handler option \<Rightarrow> MsgQueue \<Rightarrow> MsgQueue" where
  "add_handler handler q =
     (case handler of
        None \<Rightarrow> q
      | Some h \<Rightarrow>
          if \<not> has_handler_loop (h_id h) (q_handlers q) False
          then q\<lparr>q_handlers := q_handlers q @ [h]\<rparr> else q)"

text \<open>\<open>_remove_handler\<close> erases the handler and all its messages, running or not.\<close>

definition remove_handler :: "int \<Rightarrow> MsgQueue \<Rightarrow> MsgQueue" where
  "remove_handler handler_id q =
     (let erased_h = filter (\<lambda>h. handler_id = h_id h) (q_handlers q);
          erased_m = filter (\<lambda>m. handler_id = m_handler m) (q_msgs q)
      in q\<lparr>q_handlers := filter (\<lambda>h. handler_id \<noteq> h_id h) (q_handlers q),
           q_msgs := filter (\<lambda>m. handler_id \<noteq> m_handler m) (q_msgs q),
           q_dangling := (q_dangling q \<or> erased_h \<noteq> [] \<or> erased_m \<noteq> [])\<rparr>)"

definition queue_clear :: "MsgQueue \<Rightarrow> MsgQueue" where
  "queue_clear q =
     q\<lparr>q_handlers := [], q_msgs := [],
       q_dangling := (q_dangling q \<or> q_handlers q \<noteq> [] \<or> q_msgs q \<noteq> [])\<rparr>"

definition MsgQueue_delete :: "MsgQueue \<Rightarrow> MsgQueue" where
  "MsgQueue_delete q = queue_clear (q\<lparr>q_exit := True\<rparr>)"

text \<open>
  \<open>_wait_exit\<close> sleeps until the dispatch loop has reported its end; \<open>quit\<close> gets past
  it only then.
\<close>

definition wait_exit :: "MsgQueue \<Rightarrow> MsgQueue cres" where
  "wait_exit q = (if \<not> q_exit_done q then Inl WouldBlock else Inr q)"

definition quit_request :: "MsgQueue \<Rightarrow> MsgQueue" where
  "quit_request q = snd (send_msg_id INVALID_MSG_ID DEFAULT_HANDLER_ID (q\<lparr>q_exit := True\<rparr>))"

definition queue_quit :: "MsgQueue \<Rightarrow> MsgQueue cres" where
  "queue_quit q = wait_exit (quit_request q)"

subsection \<open>Waiting for messages\<close>

text \<open>
  The waits re-examine the list after every wake-up; the list argument holds the
  queue as seen at each examination, the result is the number of sleeps.
\<close>

fun wait_while :: "('s \<Rightarrow> bool) \<Rightarrow> 's list \<Rightarrow> nat option" where
  "wait_while found [] = None"
| "wait_while found (s # obs) = (if found s then map_option Suc (wait_while found obs) else Some 0)"

definition found_seq :: "int \<Rightarrow> MsgQueue \<Rightarrow> bool" where
  "found_seq seq q = list_ex (\<lambda>m. seq = m_seq m) (q_msgs q)"

definition found_handler :: "int \<Rightarrow> MsgQueue \<Rightarrow> bool" where
  "found_handler handler q = list_ex (\<lambda>m. handler = m_handler m) (q_msgs q)"

definition found_msg :: "int \<Rightarrow> int \<Rightarrow> MsgQueue \<Rightarrow> bool" where
  "found_msg msg_id handler_id q = list_ex (\<lambda>m. msg_id = m_id m \<and> handler_id = m_handler m) (q_msgs q)"

definition wait_done_seq_done :: "int \<Rightarrow> MsgQueue \<Rightarrow> MsgQueue list \<Rightarrow> nat option" where
  "wait_done_seq_done seq q obs = (if seq > q_seq q then Some 0 else wait_while (found_seq seq) obs)"

definition wait_all_msg_done :: "int \<Rightarrow> MsgQueue list \<Rightarrow> nat option" where
  "wait_all_msg_done handler obs = wait_while (found_handler handler) obs"

definition wait_msg_done :: "int \<Rightarrow> int \<Rightarrow> MsgQueue list \<Rightarrow> nat option" where
  "wait_msg_done msg_id handler_id obs = wait_while (found_msg msg_id handler_id) obs"

subsection \<open>Dispatching\<close>

datatype client_op =
    SendMsg Msg
  | CancelSeq int
  | CancelLike Msg
  | CancelHandler int
  | CancelId int int
  | RequestQuit

fun client_step :: "client_op \<Rightarrow> MsgQueue \<Rightarrow> MsgQueue" where
  "client_step (SendMsg m) q = snd (send_msg m q)"
| "client_step (CancelSeq s) q = cancel_msg_seq s q"
| "client_step (CancelLike m) q = cancel_msg_like m q"
| "client_step (CancelHandler h) q = cancel_msg_handler h q"
| "client_step (CancelId i h) q = cancel_msg_id i h q"
| "client_step RequestQuit q = quit_request q"

definition client_steps :: "client_op list \<Rightarrow> MsgQueue \<Rightarrow> MsgQueue" where
  "client_steps cops q = fold client_step cops q"

definition accepts :: "Handler \<Rightarrow> Msg \<Rightarrow> bool" where
  "accepts h m \<longleftrightarrow> m_handler m = h_id h \<or> (m_broadcast m \<and> h_broadcast h)"

definition set_handling :: "bool \<Rightarrow> int \<Rightarrow> MsgQueue \<Rightarrow> MsgQueue" where
  "set_handling b s q =
     q\<lparr>q_msgs := map (\<lambda>m. if m_seq m = s then m\<lparr>m_handling := b\<rparr> else m) (q_msgs q)\<rparr>"

text \<open>
  The handler loop of \<open>enter_timer_loop\<close>: handlers are visited in the order of their
  registration until \<open>exit\<close> is set; \<open>during h\<close> is what happens to the queue while the
  mutex is released for handler \<open>h\<close>. The first result is the trace of handlers that
  ran. The set of registered handlers does not change during a delivery.
\<close>

fun timer_deliver ::
  "(Handler \<Rightarrow> client_op list) \<Rightarrow> Msg \<Rightarrow> Handler list \<Rightarrow> MsgQueue \<Rightarrow> Handler list \<times> MsgQueue" where
  "timer_deliver during m [] q = ([], q)"
| "timer_deliver during m (h # hs) q =
     (if q_exit q then ([], q)
      else if accepts h m then
        (let q = set_handling True (m_seq m) q;
             q = client_steps (during h) q;
             q = set_handling False (m_seq m) q;
             (tr, q) = timer_deliver during m hs q
         in (h # tr, q))
      else timer_deliver during m hs q)"

text \<open>\<open>lst_msg.erase(msg); delete(*msg)\<close>.\<close>

definition erase_msg :: "int \<Rightarrow> MsgQueue \<Rightarrow> MsgQueue" where
  "erase_msg s q = q\<lparr>q_msgs := filter (\<lambda>m. m_seq m \<noteq> s) (q_msgs q), q_dangling := True\<rparr>"

text \<open>
  The scan of \<open>enter_timer_loop\<close>: the position of the first message that is due and
  the waiting time. \<open>None\<close> is \<open>msg == msg_end\<close>: the last message was not due.
\<close>

fun timer_scan :: "u64 \<Rightarrow> int \<Rightarrow> int \<Rightarrow> Msg list \<Rightarrow> nat option \<times> int" where
  "timer_scan now wait_time_min wait_time [] = (None, wait_time)"
| "timer_scan now wait_time_min wait_time (m # ms) =
     (case m_timer m of
        kImmediately \<Rightarrow> (Some 0, 0)
      | kAfter \<Rightarrow>
          let time_cost = gettickspan now (m_record_time m)
          in if m_after m \<le> time_cost then (Some 0, 0)
             else
               let wait_time = m_after m - time_cost
               in if wait_time < 0 then (Some 0, 0)
                  else if wait_time_min = 0
                  then (case timer_scan now wait_time wait_time ms of (r, w) \<Rightarrow> (map_option Suc r, w))
                  else (case timer_scan now wait_time_min
                               (if wait_time_min < wait_time then wait_time_min else wait_time) ms
                        of (r, w) \<Rightarrow> (map_option Suc r, w)))"

text \<open>
  The inner waiting loop: \<open>obs\<close> tells, for each wake-up, whether the list is empty then.
  \<open>None\<close>: still asleep.
\<close>

fun timer_wait :: "int \<Rightarrow> bool \<Rightarrow> bool list \<Rightarrow> int option" where
  "timer_wait wait_time is_empty [] =
     (if is_empty \<or> wait_time > 0 then None else Some wait_time)"
| "timer_wait wait_time is_empty (e # obs) =
     (if is_empty \<or> wait_time > 0 then timer_wait (if e then 10 * 60 * 1000 else 0) e obs
      else Some wait_time)"

text \<open>
  One round of \<open>enter_timer_loop\<close> after the waiting loop has been left, on a
  non-empty list: the new waiting time, the handlers that ran, and the queue.
\<close>

definition timer_round ::
  "u64 \<Rightarrow> (Handler \<Rightarrow> client_op list) \<Rightarrow> int \<Rightarrow> MsgQueue \<Rightarrow> int \<times> Handler list \<times> MsgQueue" where
  "timer_round now during wait_time q =
     (let q = q\<lparr>q_exit_done := False\<rparr>
      in case timer_scan now 0 wait_time (q_msgs q) of
           (None, w) \<Rightarrow> (w, [], q)
         | (Some i, w) \<Rightarrow>
             (let m = q_msgs q ! i;
                  (tr, q) = timer_deliver during m (q_handlers q) q
              in (w, tr, erase_msg (m_seq m) q)))"

definition loop_exit :: "MsgQueue \<Rightarrow> MsgQueue" where
  "loop_exit q = q\<lparr>q_exit_done := True\<rparr>"

text \<open>
  The handler loop of \<open>do_task\<close> and \<open>enter_loop\<close> works on the front message, without
  marking it as being handled; afterwards the front of the list is popped.
\<close>

fun front_deliver ::
  "(Handler \<Rightarrow> client_op list) \<Rightarrow> Msg \<Rightarrow> Handler list \<Rightarrow> MsgQueue \<Rightarrow> Handler list \<times> MsgQueue" where
  "front_deliver during m [] q = ([], q)"
| "front_deliver during m (h # hs) q =
     (if q_exit q then ([], q)
      else if accepts h m then
        (let (tr, q) = front_deliver during m hs (client_steps (during h) q) in (h # tr, q))
      else front_deliver during m hs q)"

definition front_round ::
  "(Handler \<Rightarrow> client_op list) \<Rightarrow> MsgQueue \<Rightarrow> Handler list \<times> MsgQueue" where
  "front_round during q =
     (let q = q\<lparr>q_exit_done := False\<rparr>;
          (tr, q) = front_deliver during (hd (q_msgs q)) (q_handlers q) q
      in (tr, q\<lparr>q_msgs := tl (q_msgs q)\<rparr>))"

text \<open>
  \<open>do_task\<close>: rounds until the list is empty or \<open>exit\<close> is set. \<open>env k\<close> is the
  interference of round \<open>k\<close>; \<open>None\<close>: the fuel (number of rounds) is used up.
\<close>

fun do_task ::
  "nat \<Rightarrow> (nat \<Rightarrow> Handler \<Rightarrow> client_op list) \<Rightarrow> MsgQueue \<Rightarrow> ((Msg \<times> Handler list) list \<times> MsgQueue) option" where
  "do_task 0 env q = (if q_msgs q \<noteq> [] \<and> \<not> q_exit q then None else Some ([], loop_exit q))"
| "do_task (Suc n) env q =
     (if q_msgs q \<noteq> [] \<and> \<not> q_exit q then
        (case front_round (env n) q of (tr, q') \<Rightarrow>
           map_option (\<lambda>(log, r). ((hd (q_msgs q), tr) # log, r)) (do_task n env q'))
      else Some ([], loop_exit q))"

section \<open>The queue invariant\<close>

text \<open>
  The list is ordered by strictly increasing sequence numbers below the counter, every
  message is addressed to a registered handler, and no two handlers share an id.
\<close>

definition queue_inv :: "MsgQueue \<Rightarrow> bool" where
  "queue_inv q \<longleftrightarrow>
     0 \<le> q_seq q \<and> sorted_wrt (<) (map m_seq (q_msgs q))
     \<and> (\<forall>m\<in>set (q_msgs q). 0 \<le> m_seq m \<and> m_seq m < q_seq q)
     \<and> (\<forall>m\<in>set (q_msgs q). m_handler m \<in> h_id ` set (q_handlers q))
     \<and> distinct (map h_id (q_handlers q))"

lemma has_handler_loop_iff [simp]: "has_handler_loop i hs b \<longleftrightarrow> b \<or> i \<in> h_id ` set hs"
  by (induction hs arbitrary: b) auto

lemma has_handler_iff: "has_handler i q \<longleftrightarrow> i \<in> h_id ` set (q_handlers q)"
  by (simp add: has_handler_def)

lemma queue_inv_new: "queue_inv (MsgQueue_new name)"
  by (simp add: queue_inv_def MsgQueue_new_def)

text \<open>The invariant only looks at sequence numbers and handler ids.\<close>

lemma queue_inv_cong:
  assumes "queue_inv q"
    and "map m_seq (q_msgs q') = map m_seq (q_msgs q)"
    and "map m_handler (q_msgs q') = map m_handler (q_msgs q)"
    and "q_seq q' = q_seq q" and "q_handlers q' = q_handlers q"
  shows "queue_inv q'"
proof -
  have s: "m_seq ` set (q_msgs q') = m_seq ` set (q_msgs q)"
    and h: "m_handler ` set (q_msgs q') = m_handler ` set (q_msgs q)"
    using assms(2,3) by (metis list.set_map)+
  have "m_seq ` set (q_msgs q') \<subseteq> {0..<q_seq q}"
    unfolding s using assms(1) by (auto simp: queue_inv_def)
  moreover have "m_handler ` set (q_msgs q') \<subseteq> h_id ` set (q_handlers q)"
    unfolding h using assms(1) by (auto simp: queue_inv_def)
  ultimately show ?thesis
    using assms(1,2,4,5) by (auto simp: queue_inv_def image_subset_iff)
qed

lemma subseq_set_subset: "subseq xs ys \<Longrightarrow> set xs \<subseteq> set ys"
  by (induction rule: list_emb.induct) auto

lemma subseq_sorted_wrt: "subseq xs ys \<Longrightarrow> sorted_wrt R ys \<Longrightarrow> sorted_wrt R xs"
  by (induction rule: list_emb.induct) (auto dest: subseq_set_subset)

lemma queue_inv_subseq:
  assumes "queue_inv q" and "subseq (q_msgs q') (q_msgs q)"
    and "q_seq q' = q_seq q" and "q_handlers q' = q_handlers q"
  shows "queue_inv q'"
  using assms subseq_sorted_wrt[OF subseq_map[OF assms(2), of m_seq], of "(<)"]
    subseq_set_subset[OF assms(2)]
  by (auto simp: queue_inv_def)

lemma cancel_scan_subseq: "subseq (fst (cancel_scan P sr oo ms)) ms"
  by (induction ms) (auto split: prod.splits)

lemma cancel_with_fields [simp]:
  "q_msgs (cancel_with P sr oo q) = fst (cancel_scan P sr oo (q_msgs q))"
  "q_seq (cancel_with P sr oo q) = q_seq q"
  "q_handlers (cancel_with P sr oo q) = q_handlers q"
  "q_exit (cancel_with P sr oo q) = q_exit q"
  by (simp_all add: cancel_with_def split: prod.splits)

lemma queue_inv_cancel_with: "queue_inv q \<Longrightarrow> queue_inv (cancel_with P sr oo q)"
  by (erule queue_inv_subseq) (simp_all add: cancel_scan_subseq)

lemma queue_inv_send: "queue_inv q \<Longrightarrow> queue_inv (snd (send_msg m q))"
  by (auto simp: send_msg_def queue_inv_def has_handler_iff sorted_wrt_append)

lemma queue_inv_quit: "queue_inv q \<Longrightarrow> queue_inv (quit_request q)"
  unfolding quit_request_def send_msg_id_def
  by (rule queue_inv_send) (simp add: queue_inv_def)

lemmas cancel_defs = cancel_msg_seq_def cancel_msg_like_def cancel_msg_handler_def cancel_msg_id_def

lemma queue_inv_client_step: "queue_inv q \<Longrightarrow> queue_inv (client_step c q)"
  by (cases c) (simp_all add: cancel_defs queue_inv_send queue_inv_cancel_with queue_inv_quit)

lemma client_steps_simps [simp]:
  "client_steps [] q = q" "client_steps (c # cs) q = client_steps cs (client_step c q)"
  by (simp_all add: client_steps_def)

lemma queue_inv_client_steps: "queue_inv q \<Longrightarrow> queue_inv (client_steps cs q)"
  by (induction cs arbitrary: q) (simp_all add: queue_inv_client_step)

lemma send_msg_handlers [simp]: "q_handlers (snd (send_msg m q)) = q_handlers q"
  by (simp add: send_msg_def)

lemma client_step_handlers [simp]: "q_handlers (client_step c q) = q_handlers q"
  by (cases c) (simp_all add: cancel_defs quit_request_def send_msg_id_def)

lemma client_steps_handlers [simp]: "q_handlers (client_steps cs q) = q_handlers q"
  by (induction cs arbitrary: q) simp_all

lemma set_handling_fields [simp]:
  "q_seq (set_handling b s q) = q_seq q"
  "q_handlers (set_handling b s q) = q_handlers q"
  "q_exit (set_handling b s q) = q_exit q"
  "map m_seq (q_msgs (set_handling b s q)) = map m_seq (q_msgs q)"
  "map m_handler (q_msgs (set_handling b s q)) = map m_handler (q_msgs q)"
  by (simp_all add: set_handling_def)

lemma set_handling_origin:
  assumes "y \<in> set (q_msgs (set_handling b s q))"
  obtains x where "x \<in> set (q_msgs q)" "m_seq y = m_seq x" "m_handler y = m_handler x"
  using assms by (auto simp: set_handling_def)

lemma queue_inv_set_handling: "queue_inv q \<Longrightarrow> queue_inv (set_handling b s q)"
  by (erule queue_inv_cong) simp_all

lemma queue_inv_exit_done: "queue_inv q \<Longrightarrow> queue_inv (q\<lparr>q_exit_done := b\<rparr>)"
  by (simp add: queue_inv_def)

lemma queue_inv_erase_msg: "queue_inv q \<Longrightarrow> queue_inv (erase_msg s q)"
  by (erule queue_inv_subseq) (simp_all add: erase_msg_def)

lemma queue_inv_timer_deliver: "queue_inv q \<Longrightarrow> queue_inv (snd (timer_deliver during m hs q))"
  by (induction hs arbitrary: q)
    (simp_all add: Let_def queue_inv_set_handling queue_inv_client_steps case_prod_beta)

lemma queue_inv_front_deliver: "queue_inv q \<Longrightarrow> queue_inv (snd (front_deliver during m hs q))"
  by (induction hs arbitrary: q) (simp_all add: queue_inv_client_steps case_prod_beta)

lemma queue_inv_timer_round: "queue_inv q \<Longrightarrow> queue_inv (snd (snd (timer_round now during w q)))"
  by (simp add: timer_round_def Let_def queue_inv_exit_done queue_inv_erase_msg
      queue_inv_timer_deliver case_prod_beta split: option.split)

lemma subseq_tl: "subseq (tl xs) xs"
  by (cases xs) auto

lemma queue_inv_front_round:
  assumes "queue_inv q" shows "queue_inv (snd (front_round during q))"
proof -
  obtain tr r where r: "front_deliver during (hd (q_msgs q)) (q_handlers q) (q\<lparr>q_exit_done := False\<rparr>) = (tr, r)"
    by (cases "front_deliver during (hd (q_msgs q)) (q_handlers q) (q\<lparr>q_exit_done := False\<rparr>)")
  have "queue_inv r"
    using queue_inv_front_deliver[OF queue_inv_exit_done[OF assms], of during "hd (q_msgs q)" "q_handlers q" False] r
    by simp
  then have "queue_inv (r\<lparr>q_msgs := tl (q_msgs r)\<rparr>)"
    by (rule queue_inv_subseq) (simp_all add: subseq_tl)
  then show ?thesis
    by (simp add: front_round_def Let_def r)
qed

lemma queue_inv_add_handler: "queue_inv q \<Longrightarrow> queue_inv (add_handler h q)"
  by (auto simp: add_handler_def queue_inv_def split: option.splits)

lemma queue_inv_remove_handler: "queue_inv q \<Longrightarrow> queue_inv (remove_handler i q)"
  by (auto simp: remove_handler_def queue_inv_def Let_def sorted_wrt_filter sorted_wrt_map
      intro: distinct_map_filter)

lemma queue_inv_clear: "queue_inv q \<Longrightarrow> queue_inv (queue_clear q)"
  by (simp add: queue_clear_def queue_inv_def)

declare queue_inv_new [inv_intros] queue_inv_client_steps [inv_intros] queue_inv_add_handler [inv_intros]
  queue_inv_remove_handler [inv_intros] queue_inv_timer_round [inv_intros] queue_inv_front_round [inv_intros]
  queue_inv_send [inv_intros]

section \<open>What the scan of the timer loop finds\<close>

definition due :: "u64 \<Rightarrow> Msg \<Rightarrow> bool" where
  "due now m \<longleftrightarrow> m_timer m = kImmediately \<or> m_after m \<le> gettickspan now (m_record_time m)"

definition remaining :: "u64 \<Rightarrow> Msg \<Rightarrow> int" where
  "remaining now m = m_after m - gettickspan now (m_record_time m)"

lemma timer_scan_Cons:
  "timer_scan now wm w (m # ms) =
     (if due now m then (Some 0, 0)
      else if wm = 0 then (case timer_scan now (remaining now m) (remaining now m) ms of (r, v) \<Rightarrow> (map_option Suc r, v))
      else (case timer_scan now wm (min wm (remaining now m)) ms of (r, v) \<Rightarrow> (map_option Suc r, v)))"
  by (cases "m_timer m") (simp_all add: due_def remaining_def Let_def min_def)

lemma not_due_remaining: "\<not> due now m \<Longrightarrow> 0 < remaining now m"
  by (simp add: due_def remaining_def)

declare timer_scan.simps(2) [simp del]

lemma timer_scan_found:
  "\<exists>m\<in>set ms. due now m \<Longrightarrow>
     timer_scan now wm w ms = (Some (length (takeWhile (\<lambda>m. \<not> due now m) ms)), 0)"
proof (induction ms arbitrary: wm w)
  case (Cons m ms)
  then show ?case by (cases "due now m") (simp_all add: timer_scan_Cons)
qed simp

lemma timer_scan_min:
  "\<forall>m\<in>set ms. \<not> due now m \<Longrightarrow> 0 < wm \<Longrightarrow>
     timer_scan now wm w ms = (None, if ms = [] then w else min wm (remaining now (last ms)))"
proof (induction ms arbitrary: w)
  case (Cons m ms)
  then show ?case by (simp add: timer_scan_Cons)
qed simp

lemma timer_scan_none:
  "\<forall>m\<in>set ms. \<not> due now m \<Longrightarrow> ms \<noteq> [] \<Longrightarrow>
     timer_scan now 0 w ms = (None, min (remaining now (hd ms)) (remaining now (last ms)))"
  by (cases ms) (simp_all add: timer_scan_Cons timer_scan_min not_due_remaining)

section \<open>Delivery\<close>

lemma client_step_exit: "RequestQuit \<noteq> c \<Longrightarrow> q_exit (client_step c q) = q_exit q"
  by (cases c) (simp_all add: cancel_defs send_msg_def Let_def)

lemma client_steps_exit: "RequestQuit \<notin> set cs \<Longrightarrow> q_exit (client_steps cs q) = q_exit q"
  by (induction cs arbitrary: q) (simp_all add: client_step_exit)

lemma timer_deliver_trace:
  "\<not> q_exit q \<Longrightarrow> \<forall>h. RequestQuit \<notin> set (during h) \<Longrightarrow>
     fst (timer_deliver during m hs q) = filter (\<lambda>h. accepts h m) hs"
  by (induction hs arbitrary: q) (simp_all add: Let_def case_prod_beta client_steps_exit)

lemma front_deliver_idle:
  "\<not> q_exit q \<Longrightarrow> front_deliver (\<lambda>h. []) m hs q = (filter (\<lambda>h. accepts h m) hs, q)"
  by (induction hs arbitrary: q) simp_all

lemma cancel_scan_running: "m \<in> set ms \<Longrightarrow> m_handling m \<Longrightarrow> m \<in> set (fst (cancel_scan P sr oo ms))"
  by (induction ms) (auto split: prod.splits)

lemma client_step_running:
  "m \<in> set (q_msgs q) \<Longrightarrow> m_handling m \<Longrightarrow> m \<in> set (q_msgs (client_step c q))"
  by (cases c) (simp_all add: cancel_defs cancel_scan_running quit_request_def send_msg_id_def send_msg_def Let_def)

lemma client_steps_running:
  "m \<in> set (q_msgs q) \<Longrightarrow> m_handling m \<Longrightarrow> m \<in> set (q_msgs (client_steps cs q))"
  by (induction cs arbitrary: q) (simp_all add: client_step_running)

lemma cancel_scan_all: "fst (cancel_scan P False False ms) = filter (\<lambda>m. \<not> P m \<or> m_handling m) ms"
  by (induction ms) (auto split: prod.splits)

lemma cancel_scan_idle:
  "\<forall>m\<in>set ms. P m \<longrightarrow> \<not> m_handling m \<Longrightarrow> fst (cancel_scan P sr False ms) = filter (\<lambda>m. \<not> P m) ms"
  by (induction ms) (auto split: prod.splits)

lemma cancel_scan_first:
  "fst (cancel_scan P True True (ms @ m # rest)) =
     (if m_handling m then ms @ m # rest else ms @ rest)"
  if "P m" "\<forall>x\<in>set ms. \<not> P x"
  using that by (induction ms) (auto split: prod.splits)

lemma cancel_scan_absent: "\<forall>x\<in>set ms. \<not> P x \<Longrightarrow> fst (cancel_scan P sr oo ms) = ms"
  by (induction ms) (auto split: prod.splits)

lemma cancel_scan_unique:
  "sorted_wrt (<) (map m_seq ms) \<Longrightarrow>
     fst (cancel_scan (\<lambda>m. m_seq m = s) True False ms) = filter (\<lambda>m. m_seq m \<noteq> s \<or> m_handling m) ms"
proof (induction ms)
  case (Cons m ms)
  have "m_seq m = s \<Longrightarrow> filter (\<lambda>m. m_seq m \<noteq> s \<or> m_handling m) ms = ms"
    using Cons.prems by (auto simp: filter_id_conv)
  then show ?case
    using Cons by (auto split: prod.splits)
qed simp

lemma timer_deliver_idle:
  "\<forall>h\<in>set hs. \<not> accepts h m \<Longrightarrow> timer_deliver during m hs q = ([], q)"
  by (induction hs) simp_all

lemma set_handling_absorb [simp]: "set_handling b s (set_handling c s q) = set_handling b s q"
  by (simp add: set_handling_def comp_def if_distrib)

lemma timer_deliver_quiet:
  "\<not> q_exit q \<Longrightarrow>
     snd (timer_deliver (\<lambda>h. []) m hs q) =
       (if list_ex (\<lambda>h. accepts h m) hs then set_handling False (m_seq m) q else q)"
  by (induction hs arbitrary: q) (simp_all add: Let_def case_prod_beta)

lemma filter_set_handling:
  "filter (\<lambda>m. m_seq m \<noteq> s) (map (\<lambda>m. if m_seq m = s then m\<lparr>m_handling := b\<rparr> else m) ms)
     = filter (\<lambda>m. m_seq m \<noteq> s) ms"
  by (induction ms) simp_all

lemma erase_msg_set_handling: "erase_msg s (set_handling b s q) = erase_msg s q"
  by (simp add: erase_msg_def set_handling_def filter_set_handling)

text \<open>Sequence numbers identify list positions.\<close>

lemma queue_inv_filter_seq:
  assumes "queue_inv q" and "q_msgs q = xs @ m # ys"
  shows "filter (\<lambda>x. m_seq x \<noteq> m_seq m) (q_msgs q) = xs @ ys"
proof -
  have "sorted_wrt (<) (map m_seq xs @ m_seq m # map m_seq ys)"
    using assms by (simp add: queue_inv_def)
  then have "(\<forall>x\<in>set xs. m_seq x \<noteq> m_seq m) \<and> (\<forall>y\<in>set ys. m_seq y \<noteq> m_seq m)"
    by (auto simp: sorted_wrt_append)
  then show ?thesis
    unfolding assms(2) by (auto simp: filter_id_conv)
qed

lemma queue_inv_seq_unique:
  assumes "queue_inv q" and "x \<in> set (q_msgs q)" and "y \<in> set (q_msgs q)" and "m_seq x = m_seq y"
  shows "x = y"
proof -
  have "distinct (map m_seq (q_msgs q))"
    using assms(1) by (simp add: queue_inv_def strict_sorted_iff)
  then show ?thesis
    using assms(2-4) by (auto simp: distinct_map dest: inj_onD)
qed

lemma first_due_split:
  assumes "\<exists>m\<in>set ms. P m"
  obtains xs m ys where "ms = xs @ m # ys" "P m" "\<forall>x\<in>set xs. \<not> P x"
    "takeWhile (\<lambda>x. \<not> P x) ms = xs"
proof -
  obtain xs m ys where "ms = xs @ m # ys" "P m" "\<forall>x\<in>set xs. \<not> P x"
    using split_list_first_prop[OF assms] by blast
  moreover from this have "takeWhile (\<lambda>x. \<not> P x) ms = xs"
    by (simp add: takeWhile_append2)
  ultimately show ?thesis using that by blast
qed

section \<open>The contract clients rely on\<close>

text \<open>
  What the wrapper (and every component that sends messages) needs of a queue: handlers
  can be registered, a message is accepted exactly if its receiver is registered, and a
  refused message leaves the queue as it was.
\<close>

locale handler_queue =
  fixes qinv :: "'q \<Rightarrow> bool"
    and has :: "int \<Rightarrow> 'q \<Rightarrow> bool"
    and register :: "'h \<Rightarrow> 'q \<Rightarrow> 'q"
    and ident :: "'h \<Rightarrow> int"
    and send :: "'m \<Rightarrow> 'q \<Rightarrow> int \<times> 'q"
    and receiver :: "'m \<Rightarrow> int"
    and next_seq :: "'q \<Rightarrow> int"
  assumes register_inv: "qinv q \<Longrightarrow> qinv (register h q)"
    and register_has: "has (ident h) (register h q)"
    and send_inv: "qinv q \<Longrightarrow> qinv (snd (send m q))"
    and send_accepted: "has (receiver m) q \<Longrightarrow> fst (send m q) = next_seq q"
    and send_refused: "\<not> has (receiver m) q \<Longrightarrow> send m q = (-1, q)"
    and next_seq_nonneg: "qinv q \<Longrightarrow> 0 \<le> next_seq q"
begin

lemma send_result: "qinv q \<Longrightarrow> fst (send m q) = -1 \<longleftrightarrow> \<not> has (receiver m) q"
  using send_accepted[of m q] send_refused[of m q] next_seq_nonneg[of q] by (cases "has (receiver m) q") auto

lemma send_to_registered:
  assumes "qinv q" and "receiver m = ident h"
  shows "fst (send m (register h q)) = next_seq (register h q) \<and> 0 \<le> next_seq (register h q)
    \<and> qinv (snd (send m (register h q)))"
  using assms register_inv register_has[of h q]
  by (simp add: send_accepted next_seq_nonneg send_inv)

end

interpretation mq: handler_queue queue_inv has_handler "\<lambda>h. add_handler (Some h)" h_id send_msg m_handler q_seq
proof unfold_locales
  show "has_handler (h_id h) (add_handler (Some h) q)" for h q
    by (auto simp: add_handler_def has_handler_iff)
  show "queue_inv q \<Longrightarrow> 0 \<le> q_seq q" for q
    by (simp add: queue_inv_def)
  show "queue_inv q \<Longrightarrow> queue_inv (snd (send_msg m q))" for q m
    by (rule queue_inv_send)
qed (simp_all add: inv_intros send_msg_def Let_def)

section \<open>Properties of the queue\<close>




text \<open>A queue with one handler and two messages; the second is due.\<close>

definition demo_queue :: MsgQueue where
  "demo_queue =
     (let q = add_handler (Some (DefaultHandler_new 0 ''d'')) (MsgQueue_new ''q'');
          q = snd (send_msg_after 0 1 0 1000 q)
      in snd (send_msg_id 2 0 q))"

lemmas demo_defs = demo_queue_def Let_def add_handler_def MsgQueue_new_def DefaultHandler_new_def
  send_msg_after_def send_msg_id_def send_msg_def has_handler_iff Msg_plain_def Msg_plain_after_def

lemma demo_queue_inv: "queue_inv demo_queue"
  unfolding demo_queue_def Let_def send_msg_after_def send_msg_id_def
  by (intro inv_intros)




text \<open>
  When no message is due the loop goes to sleep for the smaller of the remaining
  times of the \<^emph>\<open>first\<close> and the \<^emph>\<open>last\<close> message: \<open>wait_time_min\<close> is set once and never
  lowered. A message in between that is due sooner is therefore delivered late, as in
  the witness (remaining times 100, 10, 50: the loop sleeps 50).
\<close>

theorem timer_wait_time:
  assumes "q_msgs q \<noteq> []" and "\<forall>m\<in>set (q_msgs q). \<not> due now m"
  shows "timer_round now during w q =
    (min (remaining now (hd (q_msgs q))) (remaining now (last (q_msgs q))), [], q\<lparr>q_exit_done := False\<rparr>)"
  using timer_scan_none[OF assms(2,1)] by (simp add: timer_round_def Let_def)

definition late_queue :: MsgQueue where
  "late_queue =
     (let q = add_handler (Some (DefaultHandler_new 0 ''d'')) (MsgQueue_new ''q'');
          q = snd (send_msg_after 0 1 0 100 q);
          q = snd (send_msg_after 0 2 0 10 q)
      in snd (send_msg_after 0 3 0 50 q))"

theorem timer_wait_time_witness:
  "fst (timer_round 0 (\<lambda>h. []) 0 late_queue) = 50 \<and> (\<exists>m\<in>set (q_msgs late_queue). remaining 0 m = 10)"
  using timer_wait_time[of late_queue 0 "\<lambda>h. []" 0]
  by (simp add: late_queue_def demo_defs due_def remaining_def gettickspan_def)



text \<open>
  What cancelling removes. By sequence number and by handler: exactly the matching
  messages that are not being handled. By message id and handler: the first match if it
  is not being handled, otherwise nothing. By example message, when none of the matches
  is being handled: all of them.
\<close>

theorem cancel_exact:
  assumes "queue_inv q" and "q_msgs q = xs @ m # ys"
    and "\<forall>x\<in>set xs. \<not> (m_id x = m_id m \<and> m_handler x = m_handler m)"
  shows "q_msgs (cancel_msg_seq s q) = filter (\<lambda>x. m_seq x \<noteq> s \<or> m_handling x) (q_msgs q)
    \<and> q_msgs (cancel_msg_handler h q) = filter (\<lambda>x. m_handler x \<noteq> h \<or> m_handling x) (q_msgs q)
    \<and> q_msgs (cancel_msg_id (m_id m) (m_handler m) q) = (if m_handling m then q_msgs q else xs @ ys)
    \<and> (\<not> list_ex m_handling (q_msgs q) \<longrightarrow>
        q_msgs (cancel_msg_like m q) = filter (\<lambda>x. m_id x \<noteq> m_id m \<or> m_handler x \<noteq> m_handler m) (q_msgs q))"
proof -
  have sorted: "sorted_wrt (<) (map m_seq (q_msgs q))" and below: "\<forall>x\<in>set (q_msgs q). m_seq x < q_seq q"
    using assms(1) by (auto simp: queue_inv_def)
  have "q_msgs (cancel_msg_seq s q) = filter (\<lambda>x. m_seq x \<noteq> s \<or> m_handling x) (q_msgs q)"
  proof (cases "s > q_seq q")
    case True
    then have "filter (\<lambda>x. m_seq x \<noteq> s \<or> m_handling x) (q_msgs q) = q_msgs q"
      using below by (intro filter_True) auto
    then show ?thesis using True by (simp add: cancel_msg_seq_def)
  next
    case False
    then show ?thesis by (simp add: cancel_msg_seq_def cancel_scan_unique[OF sorted])
  qed
  moreover have "q_msgs (cancel_msg_handler h q) = filter (\<lambda>x. m_handler x \<noteq> h \<or> m_handling x) (q_msgs q)"
    by (auto simp: cancel_msg_handler_def cancel_scan_all intro: filter_cong)
  moreover have "q_msgs (cancel_msg_id (m_id m) (m_handler m) q) = (if m_handling m then q_msgs q else xs @ ys)"
  proof -
    have "\<forall>x\<in>set xs. \<not> (m_id m = m_id x \<and> m_handler m = m_handler x)"
      using assms(3) by metis
    then show ?thesis
      using cancel_scan_first[of "\<lambda>x. m_id m = m_id x \<and> m_handler m = m_handler x" m xs ys]
      by (simp add: cancel_msg_id_def assms(2))
  qed
  moreover have "\<not> list_ex m_handling (q_msgs q) \<Longrightarrow>
      q_msgs (cancel_msg_like m q) = filter (\<lambda>x. m_id x \<noteq> m_id m \<or> m_handler x \<noteq> m_handler m) (q_msgs q)"
    by (subst cancel_msg_like_def) (auto simp: list_ex_iff cancel_scan_idle intro: filter_cong)
  ultimately show ?thesis by blast
qed

theorem cancel_exact_witness:
  "map m_seq (q_msgs (cancel_msg_id 1 0 demo_queue)) = [1]"
  using cancel_exact[of demo_queue "[]" "(Msg_plain_after 0 1 0 1000)\<lparr>m_seq := 0\<rparr>" "[(Msg_plain 2 0)\<lparr>m_seq := 1\<rparr>]" 0 0]
    demo_queue_inv
  by (simp add: demo_defs)

end
