(* ===== verification/QueueWrapper.thy ===== *)
theory QueueWrapper
  imports MsgQueue
begin

text \<open>
  Model of \<open>MsgQueueWrapper\<close> (\<open>utils/msgqueue.h\<close>, \<open>utils/msgqueue.cc\<close>): the object other
  components hold. It creates the queue with its default handler, and the dispatch
  thread when one is wanted, on first use, forwards every operation to the queue, and
  hands out handler ids made of the queue's address and a counter.

  The address of a queue is the value returned by \<open>new\<close>: each operation that may
  create the queue takes it as the argument \<open>addr\<close>.
\<close>

unbundle bit_operations_syntax

record MsgQueueWrapper =
  w_queue :: "MsgQueue option"
  w_addr :: u64
  w_thread :: bool
  w_name :: string
  w_need_thread :: bool
  w_handler_seq :: u32

definition MsgQueueWrapper_new :: "bool \<Rightarrow> string \<Rightarrow> u32 \<Rightarrow> MsgQueueWrapper" where
  "MsgQueueWrapper_new need_thread name garbage =
     \<lparr>w_queue = None, w_addr = 0, w_thread = False, w_name = name, w_need_thread = need_thread,
      w_handler_seq = garbage\<rparr>"

text \<open>\<open>std::ostream << int\<close>.\<close>

fun show_nat :: "nat \<Rightarrow> string" where
  "show_nat n = (if n < 10 then [char_of (48 + n)] else show_nat (n div 10) @ [char_of (48 + n mod 10)])"

definition show_int :: "int \<Rightarrow> string" where
  "show_int i = (if i < 0 then CHR ''-'' # show_nat (nat (- i)) else show_nat (nat i))"

definition init_msg_queue :: "u64 \<Rightarrow> MsgQueueWrapper \<Rightarrow> MsgQueueWrapper" where
  "init_msg_queue addr w =
     (let w = (if w_queue w = None then
                 let q = MsgQueue_new (w_name w);
                     handler_id = DEFAULT_HANDLER_ID;
                     name = w_name w @ show_int handler_id;
                     handler = Handler_SetId DEFAULT_HANDLER_ID (DefaultHandler_new handler_id name)
                 in w\<lparr>w_queue := Some (add_handler (Some handler) q), w_addr := addr, w_handler_seq := 1\<rparr>
               else w)
      in if \<not> w_thread w \<and> w_need_thread w then w\<lparr>w_thread := True\<rparr> else w)"

text \<open>What \<open>msg_queue != NULL ? ... : init_msg_queue(), ...\<close> works on.\<close>

definition ensure_queue :: "u64 \<Rightarrow> MsgQueueWrapper \<Rightarrow> MsgQueueWrapper" where
  "ensure_queue addr w = (if w_queue w \<noteq> None then w else init_msg_queue addr w)"

definition on_queue :: "(MsgQueue \<Rightarrow> MsgQueue) \<Rightarrow> MsgQueueWrapper \<Rightarrow> MsgQueueWrapper" where
  "on_queue f w = (case w_queue w of Some q \<Rightarrow> w\<lparr>w_queue := Some (f q)\<rparr> | None \<Rightarrow> w)"

definition wrapper_send_msg :: "u64 \<Rightarrow> Msg \<Rightarrow> MsgQueueWrapper \<Rightarrow> int \<times> MsgQueueWrapper" where
  "wrapper_send_msg addr msg w =
     (let w = ensure_queue addr w
      in (fst (send_msg msg (the (w_queue w))), on_queue (\<lambda>q. snd (send_msg msg q)) w))"

definition wrapper_send_msg_id :: "u64 \<Rightarrow> int \<Rightarrow> int \<Rightarrow> MsgQueueWrapper \<Rightarrow> int \<times> MsgQueueWrapper" where
  "wrapper_send_msg_id addr msg_id handler_id w =
     (let w = ensure_queue addr w
      in (fst (send_msg_id msg_id handler_id (the (w_queue w))),
          on_queue (\<lambda>q. snd (send_msg_id msg_id handler_id q)) w))"

definition wrapper_send_msg_after ::
  "u64 \<Rightarrow> u64 \<Rightarrow> int \<Rightarrow> int \<Rightarrow> int \<Rightarrow> MsgQueueWrapper \<Rightarrow> int \<times> MsgQueueWrapper" where
  "wrapper_send_msg_after addr now msg_id handler_id after w =
     (let w = ensure_queue addr w
      in (fst (send_msg_after now msg_id handler_id after (the (w_queue w))),
          on_queue (\<lambda>q. snd (send_msg_after now msg_id handler_id after q)) w))"

definition wrapper_cancel_msg_id :: "int \<Rightarrow> int \<Rightarrow> MsgQueueWrapper \<Rightarrow> MsgQueueWrapper" where
  "wrapper_cancel_msg_id msg_id handler_id = on_queue (cancel_msg_id msg_id handler_id)"

definition wrapper_cancel_msg_handler :: "int \<Rightarrow> MsgQueueWrapper \<Rightarrow> MsgQueueWrapper" where
  "wrapper_cancel_msg_handler handler_id = on_queue (cancel_msg_handler handler_id)"

definition wrapper_cancel_msg_like :: "Msg \<Rightarrow> MsgQueueWrapper \<Rightarrow> MsgQueueWrapper" where
  "wrapper_cancel_msg_like msg = on_queue (cancel_msg_like msg)"

definition wrapper_cancel_msg_seq :: "int \<Rightarrow> MsgQueueWrapper \<Rightarrow> MsgQueueWrapper" where
  "wrapper_cancel_msg_seq seq = on_queue (cancel_msg_seq seq)"

definition wrapper_remove_handler :: "int \<Rightarrow> MsgQueueWrapper \<Rightarrow> MsgQueueWrapper" where
  "wrapper_remove_handler handler_id = on_queue (remove_handler handler_id)"

text \<open>
  \<open>((long)msg_queue&0xffff<<16)|(atomic_inc32(&handler_seq)&0xffff)\<close> returned as \<open>int\<close>:
  the shifted mask is the negative \<open>int\<close> \<open>0xffff0000\<close>, sign-extended to \<open>long\<close>, and the
  result keeps the low 32 bits.
\<close>

definition handler_id_of :: "u64 \<Rightarrow> u32 \<Rightarrow> int" where
  "handler_id_of addr seq = sint (ucast ((addr AND 0xffffffffffff0000) OR (ucast (seq AND 0xffff) :: u64)) :: u32)"

definition new_handlerid :: "u64 \<Rightarrow> MsgQueueWrapper \<Rightarrow> int \<times> MsgQueueWrapper" where
  "new_handlerid addr w =
     (let w = ensure_queue addr w;
          (old, seq) = atomic_inc32_gcc (w_handler_seq w)
      in (handler_id_of (w_addr w) old, w\<lparr>w_handler_seq := seq\<rparr>))"

definition wrapper_add_handler :: "u64 \<Rightarrow> Handler \<Rightarrow> MsgQueueWrapper \<Rightarrow> int \<times> MsgQueueWrapper" where
  "wrapper_add_handler addr handler w =
     (let (handler_id, w) = new_handlerid addr w;
          handler = Handler_SetId handler_id handler;
          w = on_queue (add_handler (Some handler)) (ensure_queue addr w)
      in (h_id handler, w))"

definition wrapper_add_default_handler :: "u64 \<Rightarrow> MsgQueueWrapper \<Rightarrow> int \<times> MsgQueueWrapper" where
  "wrapper_add_default_handler addr w =
     (let (handler_id, w) = new_handlerid addr w;
          handler = DefaultHandler_new handler_id (w_name w @ show_int handler_id);
          w = on_queue (add_handler (Some handler)) (ensure_queue addr w)
      in (h_id handler, w))"

text \<open>
  \<open>reset_msg_queue\<close>: \<open>settle\<close> is what the dispatch loop does to the queue between the
  quit request and the end of the wait.
\<close>

definition reset_msg_queue :: "(MsgQueue \<Rightarrow> MsgQueue) \<Rightarrow> MsgQueueWrapper \<Rightarrow> MsgQueueWrapper cres" where
  "reset_msg_queue settle w =
     bindE (case w_queue w of
              None \<Rightarrow> Inr w
            | Some q \<Rightarrow> bindE (wait_exit (settle (quit_request q)))
                          (\<lambda>q. let freed = MsgQueue_delete q in Inr (w\<lparr>w_queue := None\<rparr>)))
       (\<lambda>w. Inr (if w_thread w \<and> w_need_thread w then w\<lparr>w_thread := False\<rparr> else w))"

definition comsume_msg ::
  "nat \<Rightarrow> (nat \<Rightarrow> Handler \<Rightarrow> client_op list) \<Rightarrow> MsgQueueWrapper
     \<Rightarrow> ((Msg \<times> Handler list) list \<times> MsgQueueWrapper) option" where
  "comsume_msg fuel env w =
     (case w_queue w of
        Some q \<Rightarrow> if \<not> w_need_thread w
                  then map_option (\<lambda>(log, q). (log, w\<lparr>w_queue := Some q\<rparr>)) (do_task fuel env q)
                  else Some ([], w)
      | None \<Rightarrow> Some ([], w))"

definition wrapper_wait_done :: "int \<Rightarrow> int \<Rightarrow> MsgQueueWrapper \<Rightarrow> MsgQueue list \<Rightarrow> nat option" where
  "wrapper_wait_done msg_id handler_id w obs =
     (if w_queue w \<noteq> None then wait_msg_done msg_id handler_id obs else Some 0)"

definition wrapper_wait_all_done :: "int \<Rightarrow> MsgQueueWrapper \<Rightarrow> MsgQueue list \<Rightarrow> nat option" where
  "wrapper_wait_all_done handler_id w obs = (if w_queue w \<noteq> None then wait_all_msg_done handler_id obs else Some 0)"

definition wait_done_by_seq :: "int \<Rightarrow> MsgQueueWrapper \<Rightarrow> MsgQueue list \<Rightarrow> nat option" where
  "wait_done_by_seq seq w obs =
     (case w_queue w of Some q \<Rightarrow> wait_done_seq_done seq q obs | None \<Rightarrow> Some 0)"

section \<open>Properties\<close>

definition wrapper_inv :: "MsgQueueWrapper \<Rightarrow> bool" where
  "wrapper_inv w \<longleftrightarrow> (case w_queue w of None \<Rightarrow> True | Some q \<Rightarrow> queue_inv q)"

lemma ensure_queue_some: "\<exists>q. w_queue (ensure_queue addr w) = Some q"
  by (simp add: ensure_queue_def init_msg_queue_def Let_def)

lemma ensure_queue_idem: "w_queue w \<noteq> None \<Longrightarrow> ensure_queue addr w = w"
  by (simp add: ensure_queue_def)

lemma wrapper_inv_ensure: "wrapper_inv w \<Longrightarrow> wrapper_inv (ensure_queue addr w)"
  by (simp add: ensure_queue_def init_msg_queue_def Let_def wrapper_inv_def queue_inv_add_handler
      queue_inv_new)

lemma on_queue_inv: "wrapper_inv w \<Longrightarrow> (\<And>q. queue_inv q \<Longrightarrow> queue_inv (f q)) \<Longrightarrow> wrapper_inv (on_queue f w)"
  by (simp add: wrapper_inv_def on_queue_def split: option.splits)

lemma new_handlerid_queue [simp]: "w_queue (snd (new_handlerid addr w)) = w_queue (ensure_queue addr w)"
  by (simp add: new_handlerid_def Let_def case_prod_beta)

lemma wrapper_add_default_handler_queue:
  assumes "w_queue (ensure_queue addr w) = Some q"
  shows "w_queue (snd (wrapper_add_default_handler addr w)) =
    Some (add_handler (Some (DefaultHandler_new (fst (wrapper_add_default_handler addr w))
      (w_name (snd (new_handlerid addr w)) @ show_int (fst (wrapper_add_default_handler addr w))))) q)"
  using assms
  by (simp add: wrapper_add_default_handler_def Let_def case_prod_beta ensure_queue_idem on_queue_def
      DefaultHandler_new_def)

text \<open>
  A handler obtained from \<open>add_handler()\<close> can be sent to at once, on a wrapper in
  any state, the queue being created if it does not exist: the send is accepted and
  returns the next sequence number, which is never the failure value.
\<close>

theorem wrapper_send_to_added:
  assumes "wrapper_inv w" and "wrapper_add_default_handler addr w = (h, w')"
  shows "\<exists>q. w_queue w' = Some q \<and> queue_inv q \<and> has_handler h q
    \<and> fst (wrapper_send_msg_id addr' i h w') = q_seq q \<and> 0 \<le> q_seq q"
proof -
  obtain q where q: "w_queue (ensure_queue addr w) = Some q"
    using ensure_queue_some by blast
  with wrapper_inv_ensure[OF assms(1), of addr] have "queue_inv q"
    by (simp add: wrapper_inv_def)
  obtain nm where w': "w_queue w' = Some (add_handler (Some (DefaultHandler_new h nm)) q)" (is "_ = Some ?q")
    using wrapper_add_default_handler_queue[OF q] assms(2) by simp
  have "has_handler h ?q"
    using mq.register_has[of "DefaultHandler_new h nm" q] by (simp add: DefaultHandler_new_def)
  moreover have "fst (wrapper_send_msg_id addr' i h w') = fst (send_msg (Msg_plain i h) ?q)"
    using w' by (simp add: wrapper_send_msg_id_def ensure_queue_idem Let_def send_msg_id_def)
  moreover have "fst (send_msg (Msg_plain i h) ?q) = q_seq ?q \<and> 0 \<le> q_seq ?q"
    using mq.send_to_registered[OF \<open>queue_inv q\<close>, of "Msg_plain i h" "DefaultHandler_new h nm"]
    by (simp add: Msg_plain_def DefaultHandler_new_def)
  ultimately show ?thesis
    using w' mq.register_inv[OF \<open>queue_inv q\<close>] by auto
qed

theorem wrapper_send_to_added_witness:
  "\<exists>q. w_queue (snd (wrapper_add_default_handler 4096 (MsgQueueWrapper_new True ''net'' 9))) = Some q \<and> queue_inv q"
  using wrapper_send_to_added[of "MsgQueueWrapper_new True ''net'' 9" 4096]
  by (cases "wrapper_add_default_handler 4096 (MsgQueueWrapper_new True ''net'' 9)")
    (fastforce simp: wrapper_inv_def MsgQueueWrapper_new_def)

lemma handler_id_bit:
  "bit (ucast ((addr AND 0xffffffffffff0000) OR (ucast (seq AND 0xffff) :: u64)) :: u32) n =
     (if n < 16 then bit seq n else n < 32 \<and> bit addr n)"
  for addr :: u64 and seq :: u32
proof -
  have m1: "(0xffff :: u32) = mask 16" and m2: "(0xffffffffffff0000 :: u64) = NOT (mask 16)"
    by (simp_all add: mask_eq_exp_minus_1)
  show ?thesis
    unfolding m1 m2 by (auto simp: bit_simps dest: bit_imp_le_length)
qed

text \<open>
  Handler ids of one queue collide exactly when the counter values agree modulo
  \<open>2^16\<close>: any 65536 consecutively created handlers have distinct ids, the next one
  reuses an id.
\<close>

theorem handler_id_collision:
  "handler_id_of addr s = handler_id_of addr t \<longleftrightarrow> unat s mod 65536 = unat t mod 65536"
proof -
  have "handler_id_of addr s = handler_id_of addr t \<longleftrightarrow> (\<forall>n<16. bit s n = bit t n)"
    unfolding handler_id_of_def word_eq_iff_signed[symmetric]
    by (simp add: bit_eq_iff handler_id_bit)
  also have "\<dots> \<longleftrightarrow> take_bit 16 (unat s) = take_bit 16 (unat t)"
    by (auto simp: bit_eq_iff bit_simps)
  finally show ?thesis
    by (simp add: take_bit_eq_mod)
qed

end
