(* ===== verification/Thread.thy ===== *)
theory Thread
  imports Locks
begin

text \<open>
  Model of \<open>utils/thread.h\<close>: the \<open>Thread\<close> class and the reference-counted
  \<open>RunnableReference\<close> it shares with the thread it starts.

  Every section that runs under \<open>splock\<close> is one function on the record
  \<open>RunnableReference\<close>; a deleted object is \<open>None\<close>. The thread that is started is a
  position (\<open>worker\<close>) that moves through \<open>start_routine\<close>, \<open>start_routine_after\<close> or
  \<open>start_routine_periodic\<close>; the step relation interleaves it with the owner's calls.
  Sleeping in \<open>condtime.wait\<close> is a position of the worker.
\<close>

section \<open>RunnableReference\<close>

definition LONG_MAX :: int where "LONG_MAX = 9223372036854775807"

record RunnableReference =
  rr_target :: "nat option"
  rr_count :: int
  rr_tid :: nat
  rr_isjoined :: bool
  rr_isended :: bool
  rr_aftertime :: int
  rr_periodictime :: int
  rr_iscanceldelaystart :: bool
  rr_condtime :: Condition
  rr_isinthread :: bool
  rr_killsig :: int
  rr_thread_name :: string

definition RunnableReference_new :: "nat \<Rightarrow> nat option \<Rightarrow> RunnableReference" where
  "RunnableReference_new this_mutex target =
     \<lparr>rr_target = target, rr_count = 0, rr_tid = 0, rr_isjoined = False, rr_isended = True,
      rr_aftertime = LONG_MAX, rr_periodictime = LONG_MAX, rr_iscanceldelaystart = False,
      rr_condtime = Condition_new this_mutex, rr_isinthread = False, rr_killsig = 0, rr_thread_name = []\<rparr>"

definition RunnableReference_delete :: "bool \<Rightarrow> RunnableReference \<Rightarrow> unit cres" where
  "RunnableReference_delete ae r = ASSERT ae (0 = rr_count r) (ASSERT ae (rr_isended r) (Inr ()))"

definition AddRef :: "RunnableReference \<Rightarrow> RunnableReference" where
  "AddRef r = r\<lparr>rr_count := rr_count r + 1\<rparr>"

text \<open>The caller holds the lock; \<open>None\<close>: the object has been deleted.\<close>

definition RemoveRef :: "bool \<Rightarrow> RunnableReference \<Rightarrow> RunnableReference option cres" where
  "RemoveRef ae r =
     ASSERT ae (0 < rr_count r)
       (let r = r\<lparr>rr_count := rr_count r - 1\<rparr>
        in if 0 = rr_count r then bindE (RunnableReference_delete ae r) (\<lambda>_. Inr None)
           else Inr (Some r))"

section \<open>Operations of the owner\<close>

definition Thread_new :: "nat \<Rightarrow> nat option \<Rightarrow> string option \<Rightarrow> RunnableReference" where
  "Thread_new this_mutex target name =
     (let r = AddRef (RunnableReference_new this_mutex target)
      in case name of None \<Rightarrow> r | Some s \<Rightarrow> r\<lparr>rr_thread_name := take 128 s\<rparr>)"

definition Thread_delete :: "bool \<Rightarrow> RunnableReference \<Rightarrow> RunnableReference option cres" where
  "Thread_delete ae r = RemoveRef ae r"

definition isruning :: "RunnableReference \<Rightarrow> bool" where
  "isruning r \<longleftrightarrow> \<not> rr_isended r"

text \<open>
  \<open>pthread_create\<close> returns \<open>ret\<close> and, on success, stores \<open>new_tid\<close>. The common end of
  the four start functions: on failure the state is taken back (\<open>undo\<close>).
\<close>

definition spawn ::
  "bool \<Rightarrow> int \<Rightarrow> nat \<Rightarrow> (RunnableReference \<Rightarrow> RunnableReference) \<Rightarrow> RunnableReference
     \<Rightarrow> (int \<times> RunnableReference option) cres" where
  "spawn ae ret new_tid undo r =
     (let r = AddRef r;
          r = (if ret = 0 then r\<lparr>rr_tid := new_tid\<rparr> else r)
      in ASSERT ae (0 = ret)
           (if ret \<noteq> 0
            then bindE (RemoveRef ae (undo (r\<lparr>rr_isended := True\<rparr>))) (\<lambda>r'. Inr (ret, r'))
            else Inr (ret, Some r)))"

definition Thread_start ::
  "bool \<Rightarrow> int \<Rightarrow> nat \<Rightarrow> RunnableReference \<Rightarrow> (int \<times> RunnableReference option) cres" where
  "Thread_start ae ret new_tid r =
     (if isruning r then Inr (0, Some r)
      else ASSERT ae (rr_target r \<noteq> None)
             (spawn ae ret new_tid id (r\<lparr>rr_isended := False\<rparr>)))"

definition Thread_start_op ::
  "bool \<Rightarrow> int \<Rightarrow> nat \<Rightarrow> nat \<Rightarrow> RunnableReference \<Rightarrow> (int \<times> RunnableReference option) cres" where
  "Thread_start_op ae ret new_tid op r =
     (if isruning r then Inr (0, Some r)
      else spawn ae ret new_tid id (r\<lparr>rr_target := Some op, rr_isended := False\<rparr>))"

definition Thread_start_after ::
  "bool \<Rightarrow> int \<Rightarrow> nat \<Rightarrow> int \<Rightarrow> RunnableReference \<Rightarrow> (int \<times> RunnableReference option) cres" where
  "Thread_start_after ae ret new_tid after r =
     (if isruning r then Inr (0, Some r)
      else ASSERT ae (rr_target r \<noteq> None)
             (spawn ae ret new_tid (\<lambda>r. r\<lparr>rr_aftertime := LONG_MAX\<rparr>)
                (r\<lparr>rr_condtime := Condition_cancelAnyWayNotify (rr_condtime r),
                   rr_iscanceldelaystart := False, rr_isended := False, rr_aftertime := after\<rparr>)))"

definition Thread_start_periodic ::
  "bool \<Rightarrow> int \<Rightarrow> nat \<Rightarrow> int \<Rightarrow> int \<Rightarrow> RunnableReference \<Rightarrow> (int \<times> RunnableReference option) cres" where
  "Thread_start_periodic ae ret new_tid after periodic r =
     (if isruning r then Inr (0, Some r)
      else ASSERT ae (rr_target r \<noteq> None)
             (spawn ae ret new_tid (\<lambda>r. r\<lparr>rr_aftertime := LONG_MAX, rr_periodictime := LONG_MAX\<rparr>)
                (r\<lparr>rr_condtime := Condition_cancelAnyWayNotify (rr_condtime r),
                   rr_iscanceldelaystart := False, rr_isended := False, rr_aftertime := after,
                   rr_periodictime := periodic\<rparr>)))"

definition Thread_cancel_after :: "RunnableReference \<Rightarrow> RunnableReference" where
  "Thread_cancel_after r =
     (if \<not> isruning r then r
      else r\<lparr>rr_iscanceldelaystart := True, rr_condtime := Condition_notifyAll True (rr_condtime r)\<rparr>)"

definition Thread_cancel_periodic :: "RunnableReference \<Rightarrow> RunnableReference" where
  "Thread_cancel_periodic r =
     (if \<not> isruning r then r
      else r\<lparr>rr_iscanceldelaystart := True, rr_condtime := Condition_notifyAll True (rr_condtime r)\<rparr>)"

text \<open>
  \<open>join\<close> up to the call of \<open>pthread_join\<close>. The second component says whether that call
  is made; what it returns is checked by \<open>Thread_join_end\<close>.
\<close>

definition Thread_join :: "bool \<Rightarrow> nat \<Rightarrow> RunnableReference \<Rightarrow> (int \<times> bool \<times> RunnableReference) cres" where
  "Thread_join ae self r =
     ASSERT ae (\<not> rr_isjoined r)
       (if rr_tid r = self then Inr (EDEADLK, False, r)
        else if isruning r then Inr (0, True, r\<lparr>rr_isjoined := True\<rparr>)
        else Inr (0, False, r))"

definition Thread_join_end :: "bool \<Rightarrow> int \<Rightarrow> int cres" where
  "Thread_join_end ae ret = ASSERT ae (0 = ret \<or> ESRCH = ret) (Inr ret)"

definition outside_join :: "bool \<Rightarrow> RunnableReference \<Rightarrow> RunnableReference cres" where
  "outside_join ae r =
     ASSERT ae (\<not> rr_isjoined r)
       (ASSERT ae (\<not> isruning r)
          (if rr_isjoined r \<or> isruning r then Inr r else Inr (r\<lparr>rr_isjoined := True\<rparr>)))"

text \<open>\<open>kill\<close>: the result and whether the signal is sent now (\<open>pthread_kill\<close> returns \<open>kill_ret\<close>).\<close>

definition Thread_kill :: "int \<Rightarrow> int \<Rightarrow> RunnableReference \<Rightarrow> int \<times> bool \<times> RunnableReference" where
  "Thread_kill kill_ret sig r =
     (if \<not> isruning r then (ESRCH, False, r)
      else if \<not> rr_isinthread r then (0, False, r\<lparr>rr_killsig := sig\<rparr>)
      else (kill_ret, True, r))"

section \<open>The started thread\<close>

text \<open>\<open>init\<close>: the second component is the signal the thread sends to itself.\<close>

definition Thread_init :: "bool \<Rightarrow> RunnableReference \<Rightarrow> (RunnableReference \<times> int option) cres" where
  "Thread_init ae r =
     ASSERT ae (rr_target r \<noteq> None)
       (ASSERT ae (\<not> rr_isinthread r)
          (let r = r\<lparr>rr_isinthread := True\<rparr>
           in if \<not> (0 < rr_killsig r \<and> rr_killsig r \<le> 32) then Inr (r, None)
              else Inr (r, Some (rr_killsig r))))"

text \<open>\<open>cleanup\<close>: the second component says whether the thread detaches itself.\<close>

definition Thread_cleanup :: "bool \<Rightarrow> RunnableReference \<Rightarrow> (RunnableReference option \<times> bool) cres" where
  "Thread_cleanup ae r =
     ASSERT ae (rr_target r \<noteq> None)
       (ASSERT ae (rr_tid r \<noteq> 0)
          (ASSERT ae (rr_isinthread r)
             (let r = r\<lparr>rr_isinthread := False, rr_killsig := 0, rr_isended := True\<rparr>;
                  detached = (\<not> rr_isjoined r);
                  r = r\<lparr>rr_isjoined := False\<rparr>
              in bindE (RemoveRef ae r) (\<lambda>r'. Inr (r', detached)))))"

datatype routine = start_routine | start_routine_after | start_routine_periodic

datatype worker =
    NoWorker
  | Created routine
  | Checking routine
  | Delaying routine
  | Running routine
  | Pausing
  | Ending

text \<open>
  The bodies of the three routines between \<open>init\<close> and \<open>cleanup\<close>, one step at a time.
  \<open>enter_run\<close> is the call of \<open>target->run()\<close>; a wait that returns has cleared the
  condition's \<open>anyway_notify_\<close>.
\<close>

definition enter_run :: "routine \<Rightarrow> RunnableReference \<Rightarrow> (RunnableReference \<times> worker) cres" where
  "enter_run rt r = (if rr_target r = None then Inl MemFault else Inr (r, Running rt))"

definition wait_over :: "RunnableReference \<Rightarrow> RunnableReference" where
  "wait_over r = r\<lparr>rr_condtime := Condition_cancelAnyWayNotify (rr_condtime r)\<rparr>"

fun routine_step :: "RunnableReference \<Rightarrow> worker \<Rightarrow> (RunnableReference \<times> worker) cres" where
  "routine_step r (Checking rt) =
     (if rt = start_routine then enter_run rt r
      else Inr (r, if rr_iscanceldelaystart r then Ending else Delaying rt))"
| "routine_step r (Delaying rt) =
     (if \<not> rr_iscanceldelaystart r then enter_run rt (wait_over r) else Inr (wait_over r, Ending))"
| "routine_step r (Running rt) =
     Inr (r, if rt = start_routine_periodic \<and> \<not> rr_iscanceldelaystart r then Pausing else Ending)"
| "routine_step r Pausing =
     (if \<not> rr_iscanceldelaystart r then enter_run start_routine_periodic (wait_over r)
      else Inr (wait_over r, Ending))"
| "routine_step r pc = Inr (r, pc)"

section \<open>The system: owner and worker interleaved\<close>

text \<open>\<open>ts_runs\<close> counts the calls of \<open>target->run()\<close>.\<close>

record thread_sys =
  ts_ref :: "RunnableReference option"
  ts_owner :: bool
  ts_worker :: worker
  ts_runs :: nat

datatype owner_op =
    OStart int nat
  | OStartOp int nat nat
  | OStartAfter int nat int
  | OStartPeriodic int nat int int
  | OCancelAfter
  | OCancelPeriodic
  | OJoin nat
  | OOutsideJoin
  | OKill int int
  | ODelete

text \<open>A start function that returns 0 and found no running thread has created one.\<close>

definition started ::
  "routine \<Rightarrow> thread_sys \<Rightarrow> RunnableReference \<Rightarrow> (int \<times> RunnableReference option) cres \<Rightarrow> thread_sys cres" where
  "started rt s r res =
     bindE res (\<lambda>(ret, ref).
       Inr (s\<lparr>ts_ref := ref, ts_worker := (if \<not> isruning r \<and> ret = 0 then Created rt else ts_worker s)\<rparr>))"

fun owner_call :: "bool \<Rightarrow> owner_op \<Rightarrow> RunnableReference \<Rightarrow> thread_sys \<Rightarrow> thread_sys cres" where
  "owner_call ae (OStart ret t) r s = started start_routine s r (Thread_start ae ret t r)"
| "owner_call ae (OStartOp ret t op) r s = started start_routine s r (Thread_start_op ae ret t op r)"
| "owner_call ae (OStartAfter ret t after) r s =
     started start_routine_after s r (Thread_start_after ae ret t after r)"
| "owner_call ae (OStartPeriodic ret t after per) r s =
     started start_routine_periodic s r (Thread_start_periodic ae ret t after per r)"
| "owner_call ae OCancelAfter r s = Inr (s\<lparr>ts_ref := Some (Thread_cancel_after r)\<rparr>)"
| "owner_call ae OCancelPeriodic r s = Inr (s\<lparr>ts_ref := Some (Thread_cancel_periodic r)\<rparr>)"
| "owner_call ae (OJoin self) r s =
     bindE (Thread_join ae self r) (\<lambda>(ret, joins, r). Inr (s\<lparr>ts_ref := Some r\<rparr>))"
| "owner_call ae OOutsideJoin r s = bindE (outside_join ae r) (\<lambda>r. Inr (s\<lparr>ts_ref := Some r\<rparr>))"
| "owner_call ae (OKill kr sig) r s = (case Thread_kill kr sig r of (ret, sent, r) \<Rightarrow> Inr (s\<lparr>ts_ref := Some r\<rparr>))"
| "owner_call ae ODelete r s =
     bindE (Thread_delete ae r) (\<lambda>ref. Inr (s\<lparr>ts_ref := ref, ts_owner := False\<rparr>))"

text \<open>Both sides reach the object through a pointer: after deletion that is a fault.\<close>

definition owner_step :: "bool \<Rightarrow> owner_op \<Rightarrow> thread_sys \<Rightarrow> thread_sys cres" where
  "owner_step ae oper s = (case ts_ref s of None \<Rightarrow> Inl MemFault | Some r \<Rightarrow> owner_call ae oper r s)"

definition worker_call :: "bool \<Rightarrow> RunnableReference \<Rightarrow> thread_sys \<Rightarrow> thread_sys cres" where
  "worker_call ae r s =
     (case ts_worker s of
        Created rt \<Rightarrow>
          bindE (Thread_init ae r) (\<lambda>(r, sig). Inr (s\<lparr>ts_ref := Some r, ts_worker := Checking rt\<rparr>))
      | Ending \<Rightarrow>
          bindE (Thread_cleanup ae r) (\<lambda>(ref, detached). Inr (s\<lparr>ts_ref := ref, ts_worker := NoWorker\<rparr>))
      | pc \<Rightarrow>
          bindE (routine_step r pc)
            (\<lambda>(r, pc'). Inr (s\<lparr>ts_ref := Some r, ts_worker := pc',
               ts_runs := (case pc' of Running rt \<Rightarrow> Suc (ts_runs s) | _ \<Rightarrow> ts_runs s)\<rparr>)))"

definition worker_step :: "bool \<Rightarrow> thread_sys \<Rightarrow> thread_sys cres" where
  "worker_step ae s =
     (if ts_worker s = NoWorker then Inr s
      else case ts_ref s of None \<Rightarrow> Inl MemFault | Some r \<Rightarrow> worker_call ae r s)"

text \<open>
  The contract of \<open>pthread_create\<close> (a created thread has a non-zero id) and of the start
  functions (there is something to run).
\<close>

fun op_ok :: "owner_op \<Rightarrow> RunnableReference \<Rightarrow> bool" where
  "op_ok (OStart ret t) r \<longleftrightarrow> t \<noteq> 0 \<and> rr_target r \<noteq> None"
| "op_ok (OStartOp ret t op) r \<longleftrightarrow> t \<noteq> 0"
| "op_ok (OStartAfter ret t after) r \<longleftrightarrow> t \<noteq> 0 \<and> rr_target r \<noteq> None"
| "op_ok (OStartPeriodic ret t after per) r \<longleftrightarrow> t \<noteq> 0 \<and> rr_target r \<noteq> None"
| "op_ok _ r \<longleftrightarrow> True"

definition thread_sys_new :: "nat \<Rightarrow> nat option \<Rightarrow> string option \<Rightarrow> thread_sys" where
  "thread_sys_new this_mutex target name =
     \<lparr>ts_ref = Some (Thread_new this_mutex target name), ts_owner = True, ts_worker = NoWorker, ts_runs = 0\<rparr>"

inductive thread_reach :: "bool \<Rightarrow> thread_sys \<Rightarrow> bool" for ae where
  create: "thread_reach ae (thread_sys_new this_mutex target name)"
| owner: "thread_reach ae s \<Longrightarrow> ts_owner s \<Longrightarrow> ts_ref s = Some r \<Longrightarrow> op_ok oper r \<Longrightarrow>
    owner_step ae oper s = Inr s' \<Longrightarrow> thread_reach ae s'"
| worker: "thread_reach ae s \<Longrightarrow> worker_step ae s = Inr s' \<Longrightarrow> thread_reach ae s'"

section \<open>The reference count\<close>

fun in_thread :: "worker \<Rightarrow> bool" where
  "in_thread NoWorker = False"
| "in_thread (Created rt) = False"
| "in_thread _ = True"

definition ref_inv :: "bool \<Rightarrow> worker \<Rightarrow> RunnableReference \<Rightarrow> bool" where
  "ref_inv ow pc r \<longleftrightarrow>
     rr_count r = of_bool ow + of_bool (pc \<noteq> NoWorker) \<and> rr_isended r = (pc = NoWorker)
     \<and> rr_isinthread r = in_thread pc
     \<and> (pc \<noteq> NoWorker \<longrightarrow> rr_target r \<noteq> None \<and> rr_tid r \<noteq> 0)"

definition thread_inv :: "thread_sys \<Rightarrow> bool" where
  "thread_inv s \<longleftrightarrow>
     (case ts_ref s of
        None \<Rightarrow> \<not> ts_owner s \<and> ts_worker s = NoWorker
      | Some r \<Rightarrow> (ts_owner s \<or> ts_worker s \<noteq> NoWorker) \<and> ref_inv (ts_owner s) (ts_worker s) r)"

declare Thread_start_def [step_defs] Thread_start_op_def [step_defs] Thread_start_after_def [step_defs]
  Thread_start_periodic_def [step_defs] spawn_def [step_defs] RemoveRef_def [step_defs] AddRef_def [step_defs]
  RunnableReference_delete_def [step_defs] Thread_cancel_after_def [step_defs]
  Thread_cancel_periodic_def [step_defs] Thread_join_def [step_defs] outside_join_def [step_defs]
  Thread_kill_def [step_defs] Thread_delete_def [step_defs] isruning_def [step_defs]

lemma thread_inv_new: "thread_inv (thread_sys_new m target name)"
  by (auto simp: thread_inv_def thread_sys_new_def Thread_new_def ref_inv_def RunnableReference_new_def
      AddRef_def Let_def split: option.splits)

lemma ASSERT_Inr: "ASSERT ae e k = Inr x \<longleftrightarrow> (e \<or> \<not> ae) \<and> k = Inr x"
  by (simp add: ASSERT_def)

lemma thread_inv_started:
  assumes "ref_inv True pc r" and "pc = NoWorker" and "t \<noteq> 0" and "rr_target r' \<noteq> None"
    and "rr_count r' = rr_count r" and "rr_isinthread r' = rr_isinthread r" and "\<not> rr_isended r'"
    and "\<And>x. rr_count (undo x) = rr_count x \<and> rr_isinthread (undo x) = rr_isinthread x \<and> rr_isended (undo x) = rr_isended x"
    and "spawn ae ret t undo r' = Inr (ret', ref)"
  shows "\<exists>x. ref = Some x \<and> ref_inv True (if ret' = 0 then Created rt else NoWorker) x"
  using assms by (auto simp: spawn_def ref_inv_def AddRef_def RemoveRef_def Let_def ASSERT_Inr bindE_eq_Inr
      split: if_splits)

lemma ref_inv_running: "ref_inv ow pc r \<Longrightarrow> isruning r \<longleftrightarrow> pc \<noteq> NoWorker"
  by (simp add: ref_inv_def isruning_def)

text \<open>One lemma for the four start functions: \<open>f\<close> prepares, \<open>undo\<close> takes back.\<close>

lemma thread_inv_start:
  assumes "thread_inv s" and "ts_owner s" and "ts_ref s = Some r" and "t \<noteq> 0"
    and call: "started rt s r (if isruning r then Inr (0, Some r) else k) = Inr s'"
    and k: "\<And>y. \<not> isruning r \<Longrightarrow> k = Inr y \<Longrightarrow> spawn ae ret t undo r' = Inr y"
    and "rr_target r' \<noteq> None"
    and "rr_count r' = rr_count r" and "rr_isinthread r' = rr_isinthread r" and "\<not> rr_isended r'"
    and undo: "\<And>x. rr_count (undo x) = rr_count x \<and> rr_isinthread (undo x) = rr_isinthread x
                 \<and> rr_isended (undo x) = rr_isended x"
  shows "thread_inv s'"
proof (cases "isruning r")
  case True
  then show ?thesis using call assms(1,3) by (auto simp: started_def thread_inv_def)
next
  case False
  have inv: "ref_inv True (ts_worker s) r"
    using assms(1-3) by (simp add: thread_inv_def)
  with False have "ts_worker s = NoWorker"
    by (simp add: ref_inv_running)
  obtain ret' ref where "k = Inr (ret', ref)"
      and s': "s' = s\<lparr>ts_ref := ref, ts_worker := if ret' = 0 then Created rt else NoWorker\<rparr>"
    using call False \<open>ts_worker s = NoWorker\<close> by (auto simp: started_def bindE_eq_Inr)
  from k[OF False this(1)] have "\<exists>x. ref = Some x \<and> ref_inv True (if ret' = 0 then Created rt else NoWorker) x"
    using thread_inv_started[OF inv \<open>ts_worker s = NoWorker\<close> assms(4,7-10) undo, of ae ret ret' ref] by blast
  then show ?thesis
    using s' assms(2) by (auto simp: thread_inv_def)
qed

lemma thread_inv_owner_start:
  assumes "thread_inv s" and "ts_owner s" and "ts_ref s = Some r" and "op_ok oper r"
    and "owner_call ae oper r s = Inr s'"
    and "oper \<in> {OStart ret t, OStartOp ret t task, OStartAfter ret t after, OStartPeriodic ret t after per}"
  shows "thread_inv s'"
  using assms(6)
proof (elim insertE emptyE)
  assume [simp]: "oper = OStart ret t"
  show ?thesis
    by (rule thread_inv_start[OF assms(1-3), where t = t and rt = start_routine
          and k = "ASSERT ae (rr_target r \<noteq> None) (spawn ae ret t id (r\<lparr>rr_isended := False\<rparr>))"
          and r' = "r\<lparr>rr_isended := False\<rparr>" and undo = id and ae = ae and ret = ret])
      (use assms(4,5) in \<open>auto simp: Thread_start_def ASSERT_Inr\<close>)
next
  assume [simp]: "oper = OStartOp ret t task"
  show ?thesis
    by (rule thread_inv_start[OF assms(1-3), where t = t and rt = start_routine
          and k = "spawn ae ret t id (r\<lparr>rr_target := Some task, rr_isended := False\<rparr>)"
          and r' = "r\<lparr>rr_target := Some task, rr_isended := False\<rparr>" and undo = id and ae = ae and ret = ret])
      (use assms(4,5) in \<open>auto simp: Thread_start_op_def\<close>)
next
  let ?r = "r\<lparr>rr_condtime := Condition_cancelAnyWayNotify (rr_condtime r),
                   rr_iscanceldelaystart := False, rr_isended := False, rr_aftertime := after\<rparr>"
  let ?u = "\<lambda>r. r\<lparr>rr_aftertime := LONG_MAX\<rparr>"
  assume [simp]: "oper = OStartAfter ret t after"
  show ?thesis
    by (rule thread_inv_start[OF assms(1-3), where t = t and rt = start_routine_after
          and k = "ASSERT ae (rr_target r \<noteq> None) (spawn ae ret t ?u ?r)"
          and r' = ?r and undo = ?u and ae = ae and ret = ret])
      (use assms(4,5) in \<open>auto simp: Thread_start_after_def ASSERT_Inr\<close>)
next
  let ?r = "r\<lparr>rr_condtime := Condition_cancelAnyWayNotify (rr_condtime r),
                   rr_iscanceldelaystart := False, rr_isended := False, rr_aftertime := after,
                   rr_periodictime := per\<rparr>"
  let ?u = "\<lambda>r. r\<lparr>rr_aftertime := LONG_MAX, rr_periodictime := LONG_MAX\<rparr>"
  assume [simp]: "oper = OStartPeriodic ret t after per"
  show ?thesis
    by (rule thread_inv_start[OF assms(1-3), where t = t and rt = start_routine_periodic
          and k = "ASSERT ae (rr_target r \<noteq> None) (spawn ae ret t ?u ?r)"
          and r' = ?r and undo = ?u and ae = ae and ret = ret])
      (use assms(4,5) in \<open>auto simp: Thread_start_periodic_def ASSERT_Inr\<close>)
qed

text \<open>Every other call keeps the fields the invariant speaks of, or drops the owner's reference.\<close>

lemma RemoveRef_ok:
  assumes "rr_count r = of_bool a + of_bool b" and "a \<or> b" and "\<not> a \<or> \<not> b \<longrightarrow> rr_isended r"
  shows "RemoveRef ae r = Inr (if a \<and> b then Some (r\<lparr>rr_count := 1\<rparr>) else None)"
  using assms by (cases a; cases b) (simp_all add: RemoveRef_def RunnableReference_delete_def)

lemma thread_inv_owner_delete:
  assumes "thread_inv s" and "ts_owner s" and "ts_ref s = Some r"
  shows "\<exists>s'. owner_step ae ODelete s = Inr s' \<and> thread_inv s' \<and> \<not> ts_owner s'"
proof -
  have inv: "ref_inv True (ts_worker s) r"
    using assms by (simp add: thread_inv_def)
  have "RemoveRef ae r = Inr (if ts_worker s \<noteq> NoWorker then Some (r\<lparr>rr_count := 1\<rparr>) else None)"
    using RemoveRef_ok[of r True "ts_worker s \<noteq> NoWorker" ae] inv by (simp add: ref_inv_def)
  then show ?thesis
    using assms(3) inv by (auto simp: owner_step_def Thread_delete_def thread_inv_def ref_inv_def)
qed

lemma cancel_fields [simp]:
  "rr_count (Thread_cancel_after r) = rr_count r" "rr_isended (Thread_cancel_after r) = rr_isended r"
  "rr_isinthread (Thread_cancel_after r) = rr_isinthread r" "rr_target (Thread_cancel_after r) = rr_target r"
  "rr_tid (Thread_cancel_after r) = rr_tid r"
  by (simp_all add: Thread_cancel_after_def)

lemma cancel_periodic_eq: "Thread_cancel_periodic r = Thread_cancel_after r"
  by (simp add: Thread_cancel_after_def Thread_cancel_periodic_def)

lemma thread_inv_owner_step:
  assumes "thread_inv s" and "ts_owner s" and "ts_ref s = Some r" and "op_ok oper r"
    and "owner_step ae oper s = Inr s'"
  shows "thread_inv s'"
proof -
  have call: "owner_call ae oper r s = Inr s'"
    using assms(3,5) by (simp add: owner_step_def)
  have inv: "ref_inv True (ts_worker s) r"
    using assms(1-3) by (simp add: thread_inv_def)
  show ?thesis
  proof (cases oper)
    case ODelete
    then show ?thesis using thread_inv_owner_delete[OF assms(1-3), of ae] assms(5) by auto
  next
    case OCancelAfter
    then show ?thesis using call assms(2) inv
      by (auto simp: thread_inv_def ref_inv_def)
  next
    case OCancelPeriodic
    then show ?thesis using call assms(2) inv
      by (auto simp: thread_inv_def ref_inv_def cancel_periodic_eq)
  next
    case (OJoin self)
    then show ?thesis using call assms(2) inv
      by (auto simp: thread_inv_def ref_inv_def Thread_join_def bindE_eq_Inr ASSERT_Inr split: if_splits)
  next
    case OOutsideJoin
    then show ?thesis using call assms(2) inv
      by (auto simp: thread_inv_def ref_inv_def outside_join_def bindE_eq_Inr ASSERT_Inr split: if_splits)
  next
    case (OKill kr sig)
    then show ?thesis using call assms(2) inv
      by (auto simp: thread_inv_def ref_inv_def Thread_kill_def split: if_splits)
  qed (use thread_inv_owner_start[OF assms(1-4) call] in blast)+
qed

lemma thread_inv_worker_step:
  assumes "thread_inv s"
  shows "\<exists>s'. worker_step ae s = Inr s' \<and> thread_inv s' \<and> ts_owner s' = ts_owner s"
proof (cases "ts_worker s = NoWorker")
  case False
  then obtain r where r: "ts_ref s = Some r" and inv: "ref_inv (ts_owner s) (ts_worker s) r"
    using assms by (auto simp: thread_inv_def split: option.splits)
  show ?thesis
  proof (cases "ts_worker s")
    case (Created rt)
    then show ?thesis using r inv
      by (auto simp: worker_step_def worker_call_def Thread_init_def thread_inv_def ref_inv_def Let_def)
  next
    case Ending
    let ?r = "r\<lparr>rr_isinthread := False, rr_killsig := 0, rr_isended := True, rr_isjoined := False\<rparr>"
    have "RemoveRef ae ?r = Inr (if ts_owner s then Some (?r\<lparr>rr_count := 1\<rparr>) else None)"
      using RemoveRef_ok[of ?r "ts_owner s" True ae] inv Ending by (simp add: ref_inv_def)
    then have "Thread_cleanup ae r =
        Inr (if ts_owner s then Some (?r\<lparr>rr_count := 1\<rparr>) else None, \<not> rr_isjoined r)"
      using inv Ending by (simp add: Thread_cleanup_def ref_inv_def Let_def)
    then show ?thesis using r Ending
      by (auto simp: worker_step_def worker_call_def thread_inv_def ref_inv_def)
  qed (use False r inv in \<open>auto simp: worker_step_def worker_call_def thread_inv_def ref_inv_def enter_run_def
         wait_over_def\<close>)
qed (use assms in \<open>simp add: worker_step_def\<close>)

lemma thread_reach_inv: "thread_reach ae s \<Longrightarrow> thread_inv s"
proof (induction rule: thread_reach.induct)
  case (worker s s')
  then show ?case using thread_inv_worker_step[of s ae] by auto
qed (auto simp: thread_inv_new intro: thread_inv_owner_step)

section \<open>Properties\<close>

text \<open>
  C5: In every interleaving of the owner's calls with the started thread, the shared
  \<open>RunnableReference\<close> lives exactly as long as the \<open>Thread\<close> object or a started thread
  does (neither freed early nor leaked), its count is the number of the two, and no step
  of the started thread, nor the destructor, ever touches freed memory or fails an
  assertion.
\<close>

theorem Thread_reference_safe:
  assumes "thread_reach ae s"
  shows "(ts_ref s = None \<longleftrightarrow> \<not> ts_owner s \<and> ts_worker s = NoWorker)
    \<and> (\<forall>r. ts_ref s = Some r \<longrightarrow> rr_count r = of_bool (ts_owner s) + of_bool (ts_worker s \<noteq> NoWorker))
    \<and> (\<exists>s'. worker_step ae s = Inr s')
    \<and> (ts_owner s \<longrightarrow> (\<exists>s'. owner_step ae ODelete s = Inr s'))"
proof -
  have inv: "thread_inv s"
    by (rule thread_reach_inv[OF assms])
  have "\<exists>s'. owner_step ae ODelete s = Inr s'" if ow: "ts_owner s"
  proof -
    from ow inv obtain r where "ts_ref s = Some r"
      by (auto simp: thread_inv_def split: option.splits)
    from thread_inv_owner_delete[OF inv ow this] show ?thesis by blast
  qed
  moreover have "\<exists>s'. worker_step ae s = Inr s'"
    using thread_inv_worker_step[OF inv] by blast
  ultimately show ?thesis
    using inv by (auto simp: thread_inv_def ref_inv_def split: option.splits)
qed

text \<open>A thread that is started and whose owner goes away before it has begun.\<close>

lemma started_reach:
  "thread_reach True \<lparr>ts_ref = Some ((Thread_new 8 (Some 1) None)\<lparr>rr_isended := False, rr_count := 2, rr_tid := 5\<rparr>),
     ts_owner = True, ts_worker = Created start_routine, ts_runs = 0\<rparr>"
  by (rule thread_reach.owner[OF thread_reach.create[of True 8 "Some 1" None], where oper = "OStart 0 5"
        and r = "Thread_new 8 (Some 1) None"])
    (simp_all add: thread_sys_new_def owner_step_def started_def Thread_new_def RunnableReference_new_def
      step_defs Let_def)

theorem Thread_reference_safe_witness:
  "\<exists>s'. owner_step True ODelete
     \<lparr>ts_ref = Some ((Thread_new 8 (Some 1) None)\<lparr>rr_isended := False, rr_count := 2, rr_tid := 5\<rparr>),
      ts_owner = True, ts_worker = Created start_routine, ts_runs = 0\<rparr> = Inr s'"
  using Thread_reference_safe[OF started_reach] by simp

fun worker_steps :: "bool \<Rightarrow> nat \<Rightarrow> thread_sys \<Rightarrow> thread_sys cres" where
  "worker_steps ae 0 s = Inr s"
| "worker_steps ae (Suc n) s = bindE (worker_step ae s) (worker_steps ae n)"

lemma worker_steps_add: "worker_steps ae (m + n) s = bindE (worker_steps ae m s) (worker_steps ae n)"
  by (induction m arbitrary: s) (simp_all add: bindE_def split: sum.splits)

lemma worker_steps_idle: "ts_worker s = NoWorker \<Longrightarrow> worker_steps ae n s = Inr s"
  by (induction n) (simp_all add: worker_step_def)

lemma worker_finishes:
  assumes "thread_inv s" and "ts_worker s = Ending"
  obtains s' where "worker_step ae s = Inr s'" "ts_worker s' = NoWorker" "ts_runs s' = ts_runs s"
proof -
  obtain s' where s': "worker_step ae s = Inr s'"
    using thread_inv_worker_step[OF assms(1)] by blast
  then have "ts_worker s' = NoWorker \<and> ts_runs s' = ts_runs s"
    using assms by (auto simp: worker_step_def worker_call_def bindE_eq_Inr split: option.splits)
  then show ?thesis using that s' by blast
qed

lemma worker_finishes_in:
  assumes "thread_inv s" and "ts_worker s = Ending" and "0 < n"
  shows "\<exists>s'. worker_steps ae n s = Inr s' \<and> ts_worker s' = NoWorker \<and> ts_runs s' = ts_runs s"
proof -
  from worker_finishes[OF assms(1,2)] obtain s' where
    "worker_step ae s = Inr s'" "ts_worker s' = NoWorker" "ts_runs s' = ts_runs s" by blast
  with assms(3) show ?thesis
    by (cases n) (simp_all add: worker_steps_idle)
qed

text \<open>The steps other than \<open>cleanup\<close>, with the invariant re-established after each.\<close>

definition worker_moves :: "bool \<Rightarrow> thread_sys \<Rightarrow> bool \<Rightarrow> worker \<Rightarrow> nat \<Rightarrow> thread_sys \<Rightarrow> bool" where
  "worker_moves ae s c pc k s' \<longleftrightarrow>
     worker_step ae s = Inr s' \<and> thread_inv s' \<and> ts_worker s' = pc \<and> ts_runs s' = ts_runs s + k
     \<and> (\<exists>r. ts_ref s' = Some r \<and> rr_iscanceldelaystart r = c)"

lemma worker_move:
  assumes "thread_inv s" and "ts_ref s = Some r" and "ts_worker s \<noteq> Ending" and "ts_worker s \<noteq> NoWorker"
  shows "\<exists>s'. worker_moves ae s (rr_iscanceldelaystart r)
     (case ts_worker s of
        Created rt \<Rightarrow> Checking rt
      | Checking rt \<Rightarrow> if rt = start_routine then Running rt
                       else if rr_iscanceldelaystart r then Ending else Delaying rt
      | Delaying rt \<Rightarrow> if rr_iscanceldelaystart r then Ending else Running rt
      | Running rt \<Rightarrow> if rt = start_routine_periodic \<and> \<not> rr_iscanceldelaystart r then Pausing else Ending
      | Pausing \<Rightarrow> if rr_iscanceldelaystart r then Ending else Running start_routine_periodic
      | pc \<Rightarrow> pc)
     (case ts_worker s of
        Checking rt \<Rightarrow> of_bool (rt = start_routine)
      | Delaying rt \<Rightarrow> of_bool (\<not> rr_iscanceldelaystart r)
      | Pausing \<Rightarrow> of_bool (\<not> rr_iscanceldelaystart r)
      | _ \<Rightarrow> 0) s'"
proof -
  obtain s' where s': "worker_step ae s = Inr s'" "thread_inv s'"
    using thread_inv_worker_step[OF assms(1)] by blast
  have "rr_target r \<noteq> None"
    using assms by (simp add: thread_inv_def ref_inv_def)
  then show ?thesis
    using s' assms(2-4) unfolding worker_moves_def
    by (intro exI[of _ s'], cases "ts_worker s")
      (auto simp: worker_step_def worker_call_def bindE_eq_Inr Thread_init_def ASSERT_Inr enter_run_def
        wait_over_def Let_def split: if_splits)
qed

text \<open>\<open>worker_runs ae n s pc k\<close>: in \<open>n\<close> steps the worker gets to \<open>pc\<close>, having called \<open>run\<close> \<open>k\<close> times.\<close>

definition worker_runs :: "bool \<Rightarrow> nat \<Rightarrow> thread_sys \<Rightarrow> worker \<Rightarrow> nat \<Rightarrow> bool" where
  "worker_runs ae n s pc k \<longleftrightarrow>
     (\<exists>s'. worker_steps ae n s = Inr s' \<and> ts_worker s' = pc \<and> ts_runs s' = ts_runs s + k)"

lemma worker_runs_first:
  assumes "worker_moves ae s c pc j s'" and "worker_runs ae n s' pc' k"
  shows "worker_runs ae (Suc n) s pc' (j + k)"
  using assms by (auto simp: worker_moves_def worker_runs_def)

lemma worker_runs_finish:
  "thread_inv s \<Longrightarrow> ts_worker s = Ending \<Longrightarrow> 0 < n \<Longrightarrow> worker_runs ae n s NoWorker 0"
  using worker_finishes_in[of s n ae] by (simp add: worker_runs_def)

fun delayed :: "worker \<Rightarrow> bool" where
  "delayed (Created rt) = (rt \<noteq> start_routine)"
| "delayed (Checking rt) = (rt \<noteq> start_routine)"
| "delayed NoWorker = False"
| "delayed _ = True"

lemma worker_cancelled_step:
  assumes "thread_inv s" and "ts_ref s = Some r" and "rr_iscanceldelaystart r" and "delayed (ts_worker s)"
    and "ts_worker s \<noteq> Ending"
  obtains s' where "worker_moves ae s True (case ts_worker s of Created rt \<Rightarrow> Checking rt | _ \<Rightarrow> Ending) 0 s'"
  using worker_move[OF assms(1,2,5), of ae] assms(3,4) by (cases "ts_worker s") auto

lemma worker_cancelled:
  assumes "thread_inv s" and "ts_ref s = Some r" and "rr_iscanceldelaystart r" and "delayed (ts_worker s)"
  shows "worker_runs ae 3 s NoWorker 0"
proof (cases "ts_worker s = Ending")
  case True
  then show ?thesis using assms(1) by (simp add: worker_runs_finish)
next
  case False
  from worker_cancelled_step[OF assms False] obtain s1 where
    s1: "worker_moves ae s True (case ts_worker s of Created rt \<Rightarrow> Checking rt | _ \<Rightarrow> Ending) 0 s1" by blast
  have "worker_runs ae 2 s1 NoWorker 0"
  proof (cases "ts_worker s1 = Ending")
    case True
    then show ?thesis using s1 by (simp add: worker_runs_finish worker_moves_def)
  next
    case ne: False
    then obtain rt where "ts_worker s = Created rt" "ts_worker s1 = Checking rt" "rt \<noteq> start_routine"
      using s1 assms(4) by (cases "ts_worker s") (auto simp: worker_moves_def)
    moreover obtain r1 where "thread_inv s1" "ts_ref s1 = Some r1" "rr_iscanceldelaystart r1"
      using s1 by (auto simp: worker_moves_def)
    ultimately obtain s2 where s2: "worker_moves ae s1 True Ending 0 s2"
      using worker_cancelled_step[of s1 r1 ae] ne by auto
    then have "worker_runs ae 1 s2 NoWorker 0"
      by (simp add: worker_runs_finish worker_moves_def)
    with worker_runs_first[OF s2] show ?thesis by (simp add: numeral_2_eq_2)
  qed
  with worker_runs_first[OF s1] show ?thesis by (simp add: numeral_3_eq_3 numeral_2_eq_2)
qed


lemma delayed_reach:
  "thread_reach True \<lparr>ts_ref = Some ((Thread_new 8 (Some 1) None)\<lparr>rr_isended := False, rr_count := 2, rr_tid := 5,
       rr_aftertime := 100\<rparr>),
     ts_owner = True, ts_worker = Created start_routine_after, ts_runs = 0\<rparr>"
  by (rule thread_reach.owner[OF thread_reach.create[of True 8 "Some 1" None], where oper = "OStartAfter 0 5 100"
        and r = "Thread_new 8 (Some 1) None"])
    (simp_all add: thread_sys_new_def owner_step_def started_def Thread_new_def RunnableReference_new_def
      Condition_cancelAnyWayNotify_def Condition_new_def step_defs Let_def)


lemma worker_first_run:
  assumes "thread_inv s" and "ts_ref s = Some r" and "\<not> rr_iscanceldelaystart r" and "ts_worker s = Created rt"
  obtains s' where "worker_steps ae (if rt = start_routine then 2 else 3) s = Inr s'"
    "thread_inv s'" "ts_worker s' = Running rt" "ts_runs s' = ts_runs s + 1"
    "\<exists>r'. ts_ref s' = Some r' \<and> \<not> rr_iscanceldelaystart r'"
proof -
  from worker_move[OF assms(1,2), of ae] assms(3,4) obtain s1 where
    1: "worker_moves ae s False (Checking rt) 0 s1" by auto
  then obtain r1 where r1: "thread_inv s1" "ts_ref s1 = Some r1" "\<not> rr_iscanceldelaystart r1"
      "ts_worker s1 = Checking rt"
    by (auto simp: worker_moves_def)
  show ?thesis
  proof (cases "rt = start_routine")
    case True
    from worker_move[OF r1(1,2), of ae] r1(3,4) True obtain s2 where
      2: "worker_moves ae s1 False (Running rt) 1 s2" by auto
    with 1 True show ?thesis
      by (intro that[of s2]) (auto simp: worker_moves_def numeral_2_eq_2)
  next
    case False
    from worker_move[OF r1(1,2), of ae] r1(3,4) False obtain s2 where
      2: "worker_moves ae s1 False (Delaying rt) 0 s2" by auto
    then obtain r2 where r2: "thread_inv s2" "ts_ref s2 = Some r2" "\<not> rr_iscanceldelaystart r2"
        "ts_worker s2 = Delaying rt"
      by (auto simp: worker_moves_def)
    from worker_move[OF r2(1,2), of ae] r2(3,4) obtain s3 where
      3: "worker_moves ae s2 False (Running rt) 1 s3" by auto
    with 1 2 False show ?thesis
      by (intro that[of s3]) (auto simp: worker_moves_def numeral_3_eq_3)
  qed
qed

lemma worker_run_once:
  assumes "thread_inv s" and "ts_ref s = Some r" and "ts_worker s = Running rt" and "rt \<noteq> start_routine_periodic"
  shows "worker_runs ae 2 s NoWorker 0"
proof -
  from worker_move[OF assms(1,2), of ae] assms(3,4) obtain s1 where
    1: "worker_moves ae s (rr_iscanceldelaystart r) Ending 0 s1" by auto
  then have "worker_runs ae 1 s1 NoWorker 0"
    by (simp add: worker_runs_finish worker_moves_def)
  with worker_runs_first[OF 1] show ?thesis by (simp add: numeral_2_eq_2)
qed

lemma worker_run_periodic:
  assumes "thread_inv s" and "ts_ref s = Some r" and "\<not> rr_iscanceldelaystart r"
    and "ts_worker s = Running start_routine_periodic"
  shows "worker_runs ae (2 * n) s (Running start_routine_periodic) n"
  using assms
proof (induction n arbitrary: s r)
  case (Suc n)
  from worker_move[OF Suc.prems(1,2), of ae] Suc.prems(3,4) obtain s1 where
    1: "worker_moves ae s False Pausing 0 s1" by auto
  then obtain r1 where r1: "thread_inv s1" "ts_ref s1 = Some r1" "\<not> rr_iscanceldelaystart r1" "ts_worker s1 = Pausing"
    by (auto simp: worker_moves_def)
  from worker_move[OF r1(1,2), of ae] r1(3,4) obtain s2 where
    2: "worker_moves ae s1 False (Running start_routine_periodic) 1 s2" by auto
  then obtain r2 where "thread_inv s2" "ts_ref s2 = Some r2" "\<not> rr_iscanceldelaystart r2"
      "ts_worker s2 = Running start_routine_periodic"
    by (auto simp: worker_moves_def)
  from worker_runs_first[OF 1 worker_runs_first[OF 2 Suc.IH[OF this]]] show ?case by simp
qed (simp add: worker_runs_def)

lemma worker_runs_trans:
  assumes "worker_steps ae m s = Inr s1" and "worker_runs ae n s1 pc k" and "l = m + n"
  shows "\<exists>s'. worker_steps ae l s = Inr s' \<and> ts_worker s' = pc \<and> ts_runs s' = ts_runs s1 + k"
  using assms by (auto simp: worker_runs_def worker_steps_add)

text \<open>
  What a started thread does when it is not cancelled. \<open>start\<close> and \<open>start_after\<close> run
  the target exactly once and end; a periodic thread runs it once and then once more per
  period, for any number of periods.
\<close>

theorem Thread_routines_run:
  assumes "thread_reach ae s" and "ts_ref s = Some r" and "\<not> rr_iscanceldelaystart r"
    and "ts_worker s = Created rt"
  shows "if rt = start_routine_periodic
    then \<exists>s'. worker_steps ae (3 + 2 * n) s = Inr s' \<and> ts_worker s' = Running rt \<and> ts_runs s' = ts_runs s + 1 + n
    else \<exists>s'. worker_steps ae (if rt = start_routine then 4 else 5) s = Inr s'
           \<and> ts_worker s' = NoWorker \<and> ts_runs s' = ts_runs s + 1"
proof -
  from worker_first_run[OF thread_reach_inv[OF assms(1)] assms(2-4), where ae = ae]
  obtain s1 r1 where s1: "worker_steps ae (if rt = start_routine then 2 else 3) s = Inr s1"
    "thread_inv s1" "ts_worker s1 = Running rt" "ts_runs s1 = ts_runs s + 1"
    "ts_ref s1 = Some r1" "\<not> rr_iscanceldelaystart r1" by metis
  show ?thesis
  proof (cases "rt = start_routine_periodic")
    case True
    with worker_runs_trans[OF s1(1) worker_run_periodic[OF s1(2,5,6)], of "3 + 2 * n" n] s1(3,4) show ?thesis
      by simp
  next
    case False
    have len: "(if rt = start_routine then 4 else 5) = (if rt = start_routine then 2 else 3) + (2 :: nat)"
      by simp
    from worker_runs_trans[OF s1(1) worker_run_once[OF s1(2,5,3) False] len] s1(4) show ?thesis
      unfolding if_not_P[OF False] by auto
  qed
qed

theorem Thread_routines_run_witness:
  "\<exists>s'. worker_steps True 5
     \<lparr>ts_ref = Some ((Thread_new 8 (Some 1) None)\<lparr>rr_isended := False, rr_count := 2, rr_tid := 5, rr_aftertime := 100\<rparr>),
      ts_owner = True, ts_worker = Created start_routine_after, ts_runs = 0\<rparr> = Inr s'
     \<and> ts_worker s' = NoWorker \<and> ts_runs s' = 1"
  using Thread_routines_run[OF delayed_reach]
  by (simp add: Thread_new_def RunnableReference_new_def AddRef_def Let_def)

end
