(* ===== verification/Netlink.thy ===== *)
theory Netlink
  imports Prelude
begin

text \<open>
  Model of the transport half of \<open>jni/ifaddrs.c\<close>: the netlink socket, the request, and
  the collection of the kernel's answer into a list of buffers.

  A buffer is the \<open>malloc\<close>ed block as a byte list; a pointer into it is an offset, and a
  read that leaves the block is \<open>MemFault\<close>. Multi-byte fields are little endian, as on
  the ARM and x86 targets. \<open>recvmsg\<close> is a list of the events it will report; the library's
  \<open>malloc\<close> is the predicate \<open>mem_ok\<close> (does an allocation of that size succeed), and the
  content of fresh memory is the arbitrary byte \<open>junk\<close>.
\<close>

section \<open>Fields in byte blocks\<close>

fun le_nat :: "byte list \<Rightarrow> nat" where
  "le_nat [] = 0"
| "le_nat (b # bs) = unat b + 256 * le_nat bs"

fun le_bytes :: "nat \<Rightarrow> nat \<Rightarrow> byte list" where
  "le_bytes 0 v = []"
| "le_bytes (Suc n) v = word_of_nat v # le_bytes n (v div 256)"

definition bytes_at :: "byte list \<Rightarrow> nat \<Rightarrow> nat \<Rightarrow> byte list cres" where
  "bytes_at buf off n = (if off + n \<le> length buf then Inr (take n (drop off buf)) else Inl MemFault)"

definition rd_le :: "nat \<Rightarrow> byte list \<Rightarrow> nat \<Rightarrow> nat cres" where
  "rd_le n buf off = bindE (bytes_at buf off n) (\<lambda>bs. Inr (le_nat bs))"

definition wr_at :: "byte list \<Rightarrow> nat \<Rightarrow> byte list \<Rightarrow> byte list cres" where
  "wr_at blk off bs =
     (if off + length bs \<le> length blk then Inr (take off blk @ bs @ drop (off + length bs) blk)
      else Inl MemFault)"

definition to_int32 :: "nat \<Rightarrow> int" where
  "to_int32 v = (if v < 2147483648 then int v else int v - 4294967296)"

section \<open>Netlink and rtnetlink headers\<close>

text \<open>
  \<open>NLMSG_ALIGN\<close> on a 32-bit length, and on a \<open>size_t\<close>, where the mask \<open>~(4U-1)\<close> is only
  32 bits wide.
\<close>

definition nl_align :: "nat \<Rightarrow> nat" where
  "nl_align len = (let y = (len + 3) mod 4294967296 in y - y mod 4)"

definition nl_align_size :: "nat \<Rightarrow> nat" where
  "nl_align_size x = nl_align (x mod 18446744073709551616)"

definition NLMSG_DONE :: nat where "NLMSG_DONE = 3"
definition NLMSG_ERROR :: nat where "NLMSG_ERROR = 2"
definition RTM_NEWLINK :: nat where "RTM_NEWLINK = 16"
definition RTM_GETLINK :: nat where "RTM_GETLINK = 18"
definition RTM_NEWADDR :: nat where "RTM_NEWADDR = 20"
definition RTM_GETADDR :: nat where "RTM_GETADDR = 22"

lemmas nl_consts = NLMSG_DONE_def NLMSG_ERROR_def RTM_NEWLINK_def RTM_GETLINK_def RTM_NEWADDR_def RTM_GETADDR_def

text \<open>Fields of \<open>struct nlmsghdr\<close> at an offset.\<close>

definition nlmsg_len :: "byte list \<Rightarrow> nat \<Rightarrow> nat cres" where "nlmsg_len buf off = rd_le 4 buf off"
definition nlmsg_type :: "byte list \<Rightarrow> nat \<Rightarrow> nat cres" where "nlmsg_type buf off = rd_le 2 buf (off + 4)"
definition nlmsg_seq :: "byte list \<Rightarrow> nat \<Rightarrow> nat cres" where "nlmsg_seq buf off = rd_le 4 buf (off + 8)"

text \<open>
  The loop \<open>for(h = buf; NLMSG_OK(h, rem); h = NLMSG_NEXT(h, rem)) body\<close> that the file
  has three times. The remaining size is an \<open>unsigned int\<close>: \<open>NLMSG_NEXT\<close> subtracts the
  aligned length modulo \<open>2^32\<close>. A body continues, breaks off, or returns from the
  enclosing function.
\<close>

datatype ('s, 'r) loop_exit = Continue 's | Break 's | Return 'r

function (sequential) nl_loop ::
  "(nat \<Rightarrow> 's \<Rightarrow> ('s, 'r) loop_exit cres) \<Rightarrow> byte list \<Rightarrow> nat \<Rightarrow> nat \<Rightarrow> 's \<Rightarrow> ('s + 'r) cres" where
  "nl_loop body buf off rem s =
     (if rem < 16 then Inr (Inl s)
      else case nlmsg_len buf off of
             Inl e \<Rightarrow> Inl e
           | Inr len \<Rightarrow>
               if len < 16 \<or> rem < len then Inr (Inl s)
               else case body off s of
                      Inl e \<Rightarrow> Inl e
                    | Inr (Return r) \<Rightarrow> Inr (Inr r)
                    | Inr (Break s') \<Rightarrow> Inr (Inl s')
                    | Inr (Continue s') \<Rightarrow>
                        if nl_align len = 0 then Inl WouldBlock
                        else nl_loop body buf (off + nl_align len)
                               ((rem + 4294967296 - nl_align len) mod 4294967296) s')"
  by pat_completeness auto

lemma rd_le_Inr: "rd_le n buf off = Inr v \<longleftrightarrow> off + n \<le> length buf \<and> v = le_nat (take n (drop off buf))"
  by (auto simp: rd_le_def bytes_at_def)

termination nl_loop
  by (relation "measure (\<lambda>(body, buf, off, rem, s). length buf - off)") (auto simp: nlmsg_len_def rd_le_Inr)

declare nl_loop.simps [simp del]

section \<open>Socket and request\<close>

text \<open>The results of \<open>socket\<close> and \<open>bind\<close> are arguments; the second component: the socket is closed again.\<close>

definition netlink_socket :: "int \<Rightarrow> int \<Rightarrow> int \<times> bool" where
  "netlink_socket l_socket bind_ret =
     (if l_socket < 0 then (-1, False)
      else if bind_ret < 0 then (-1, True)
      else (l_socket, False))"

text \<open>The bytes handed to \<open>sendto\<close>: a header with \<open>NLM_F_ROOT|NLM_F_MATCH|NLM_F_REQUEST\<close> and a \<open>rtgenmsg\<close>.\<close>

definition netlink_request :: "int \<Rightarrow> nat \<Rightarrow> byte list" where
  "netlink_request p_socket p_request =
     le_bytes 4 17 @ le_bytes 2 p_request @ le_bytes 2 0x301 @ le_bytes 4 (nat p_socket) @ le_bytes 4 0
       @ le_bytes 1 0"

definition netlink_send :: "(byte list \<Rightarrow> int) \<Rightarrow> int \<Rightarrow> nat \<Rightarrow> int" where
  "netlink_send sendto p_socket p_request = sendto (netlink_request p_socket p_request)"

section \<open>Receiving\<close>

datatype recv_event = RecvFail int | RecvData "byte list"

definition EINTR :: int where "EINTR = 4"

text \<open>
  \<open>netlink_recv\<close>: result, content of the buffer block, remaining events. A datagram
  longer than the buffer is cut off and reported by \<open>MSG_TRUNC\<close>.
\<close>

fun netlink_recv :: "byte \<Rightarrow> nat \<Rightarrow> recv_event list \<Rightarrow> (int \<times> byte list \<times> recv_event list) cres" where
  "netlink_recv junk p_len [] = Inl WouldBlock"
| "netlink_recv junk p_len (RecvFail errno # evs) =
     (if errno = EINTR then netlink_recv junk p_len evs else Inr (-2, replicate p_len junk, evs))"
| "netlink_recv junk p_len (RecvData d # evs) =
     (if p_len < length d then Inr (-1, take p_len d, evs)
      else Inr (int (length d), d @ replicate (p_len - length d) junk, evs))"

lemma netlink_recv_events:
  "netlink_recv junk n evs = Inr (r, blk, evs') \<Longrightarrow> length evs' < length evs"
  by (induction junk n evs rule: netlink_recv.induct) (auto split: if_splits)

text \<open>The body of the header loop of \<open>getNetlinkResponse\<close>; the state is \<open>*p_done\<close>.\<close>

definition response_body :: "int \<Rightarrow> byte list \<Rightarrow> nat \<Rightarrow> bool \<Rightarrow> (bool, unit) loop_exit cres" where
  "response_body p_socket buf off dn =
     bindE (nlmsg_seq buf off) (\<lambda>seq.
       if to_int32 seq \<noteq> p_socket then Inr (Continue dn)
       else bindE (nlmsg_type buf off) (\<lambda>type.
              if type = NLMSG_DONE then Inr (Break True)
              else if type = NLMSG_ERROR then Inr (Return ())
              else Inr (Continue dn)))"

text \<open>
  \<open>getNetlinkResponse\<close>: the block and its size (\<open>None\<close> is \<open>NULL\<close>), \<open>*p_done\<close>, and the
  remaining events. The buffer doubles after a truncated datagram, which is then lost.
\<close>

function getNetlinkResponse ::
  "(nat \<Rightarrow> bool) \<Rightarrow> byte \<Rightarrow> int \<Rightarrow> nat \<Rightarrow> recv_event list
     \<Rightarrow> ((byte list \<times> nat) option \<times> bool \<times> recv_event list) cres" where
  "getNetlinkResponse mem_ok junk p_socket l_size evs =
     (if \<not> mem_ok l_size then Inr (None, False, evs)
      else case netlink_recv junk l_size evs of
             Inl e \<Rightarrow> Inl e
           | Inr (l_read, blk, evs') \<Rightarrow>
               if l_read = -2 then Inr (None, False, evs')
               else if l_read \<ge> 0 then
                 (case nl_loop (response_body p_socket blk) blk 0 (nat l_read) False of
                    Inl e \<Rightarrow> Inl e
                  | Inr (Inl dn) \<Rightarrow> Inr (Some (blk, nat l_read), dn, evs')
                  | Inr (Inr _) \<Rightarrow> Inr (None, False, evs'))
               else getNetlinkResponse mem_ok junk p_socket (l_size * 2 mod 18446744073709551616) evs')"
  by pat_completeness auto

termination getNetlinkResponse
  by (relation "measure (\<lambda>(mem_ok, junk, p_socket, l_size, evs). length evs)")
    (auto dest: netlink_recv_events)

declare getNetlinkResponse.simps [simp del]

lemma getNetlinkResponse_events:
  "getNetlinkResponse mem_ok junk p_socket l_size evs = Inr (Some bz, dn, evs') \<Longrightarrow> length evs' < length evs"
proof (induction mem_ok junk p_socket l_size evs rule: getNetlinkResponse.induct)
  case (1 mem_ok junk p_socket l_size evs)
  note eq = 1(2)[unfolded getNetlinkResponse.simps[of mem_ok junk p_socket l_size evs]]
  from eq have ok: "mem_ok l_size" by (auto split: if_splits)
  with eq obtain r blk evs1 where recv: "netlink_recv junk l_size evs = Inr (r, blk, evs1)"
    by (auto split: sum.splits)
  from netlink_recv_events[OF recv] have less: "length evs1 < length evs" .
  from eq ok recv have "r \<noteq> -2" by (auto split: if_splits)
  show ?case
  proof (cases "r \<ge> 0")
    case True
    then show ?thesis using eq ok recv \<open>r \<noteq> -2\<close> less by (auto split: sum.splits)
  next
    case False
    then have "getNetlinkResponse mem_ok junk p_socket (l_size * 2 mod 18446744073709551616) evs1
        = Inr (Some bz, dn, evs')"
      using eq ok recv \<open>r \<noteq> -2\<close> by simp
    then show ?thesis
      using "1.IH"[of "(r, blk, evs1)" r "(blk, evs1)" blk evs1] ok recv \<open>r \<noteq> -2\<close> False less by simp
  qed
qed

section \<open>The list of answers\<close>

text \<open>
  A \<open>NetlinkList\<close> is the list of its \<open>(m_data, m_size)\<close> pairs. \<open>live\<close> counts the blocks
  that are allocated and not freed: each item owns two, the buffer and the item itself.
\<close>

type_synonym NetlinkList = "(byte list \<times> nat) list"

definition newListItem :: "(nat \<Rightarrow> bool) \<Rightarrow> byte list \<Rightarrow> nat \<Rightarrow> (byte list \<times> nat) option" where
  "newListItem mem_ok p_data p_size = (if mem_ok 24 then Some (p_data, p_size) else None)"

definition freeResultList :: "NetlinkList \<Rightarrow> int \<Rightarrow> int" where
  "freeResultList p_list live = live - 2 * int (length p_list)"

function result_loop ::
  "(nat \<Rightarrow> bool) \<Rightarrow> byte \<Rightarrow> int \<Rightarrow> NetlinkList \<Rightarrow> int \<Rightarrow> recv_event list
     \<Rightarrow> (NetlinkList option \<times> int \<times> recv_event list) cres" where
  "result_loop mem_ok junk p_socket l_list live evs =
     (case getNetlinkResponse mem_ok junk p_socket 4096 evs of
        Inl e \<Rightarrow> Inl e
      | Inr (None, l_done, evs') \<Rightarrow> Inr (None, freeResultList l_list live, evs')
      | Inr (Some (l_hdr, l_size), l_done, evs') \<Rightarrow>
          (case newListItem mem_ok l_hdr l_size of
             None \<Rightarrow> Inr (None, freeResultList l_list (live + 1), evs')
           | Some l_item \<Rightarrow>
               if l_done then Inr (Some (l_list @ [l_item]), live + 2, evs')
               else result_loop mem_ok junk p_socket (l_list @ [l_item]) (live + 2) evs'))"
  by pat_completeness auto

termination result_loop
  by (relation "measure (\<lambda>(mem_ok, junk, p_socket, l_list, live, evs). length evs)")
    (auto dest: getNetlinkResponse_events)

declare result_loop.simps [simp del]

definition getResultList ::
  "(nat \<Rightarrow> bool) \<Rightarrow> byte \<Rightarrow> (byte list \<Rightarrow> int) \<Rightarrow> int \<Rightarrow> nat \<Rightarrow> int \<Rightarrow> recv_event list
     \<Rightarrow> (NetlinkList option \<times> int \<times> recv_event list) cres" where
  "getResultList mem_ok junk sendto p_socket p_request live evs =
     (if netlink_send sendto p_socket p_request < 0 then Inr (None, live, evs)
      else result_loop mem_ok junk p_socket [] live evs)"

section \<open>Reading back encoded fields\<close>

lemma length_le_bytes [simp]: "length (le_bytes n v) = n"
  by (induction n arbitrary: v) simp_all

lemma le_nat_bytes: "v < 256 ^ n \<Longrightarrow> le_nat (le_bytes n v) = v"
proof (induction n arbitrary: v)
  case (Suc n)
  then have "v div 256 < 256 ^ n"
    by (simp add: less_mult_imp_div_less mult.commute)
  with Suc.IH show ?case
    by (simp add: unat_of_nat take_bit_eq_mod)
qed simp

lemma bytes_at_middle:
  "off = length xs \<Longrightarrow> n = length ys \<Longrightarrow> bytes_at (xs @ ys @ zs) off n = Inr ys"
  by (simp add: bytes_at_def)

lemma rd_le_middle:
  "off = length xs \<Longrightarrow> v < 256 ^ n \<Longrightarrow> rd_le n (xs @ le_bytes n v @ zs) off = Inr v"
  by (simp add: rd_le_def bytes_at_middle le_nat_bytes)

section \<open>Walking over well-formed datagrams\<close>

text \<open>
  What the kernel sends: messages whose payload is padded to the alignment, one after
  the other.
\<close>

record nlmsg =
  n_type :: nat
  n_flags :: nat
  n_seq :: nat
  n_pid :: nat
  n_payload :: "byte list"

definition msg_size :: "nlmsg \<Rightarrow> nat" where
  "msg_size m = 16 + length (n_payload m)"

definition enc_msg :: "nlmsg \<Rightarrow> byte list" where
  "enc_msg m =
     le_bytes 4 (msg_size m) @ le_bytes 2 (n_type m) @ le_bytes 2 (n_flags m) @ le_bytes 4 (n_seq m)
       @ le_bytes 4 (n_pid m) @ n_payload m"

definition msg_ok :: "nlmsg \<Rightarrow> bool" where
  "msg_ok m \<longleftrightarrow> length (n_payload m) mod 4 = 0 \<and> n_type m < 65536 \<and> n_seq m < 4294967296"

lemma length_enc_msg [simp]: "length (enc_msg m) = msg_size m"
  by (simp add: enc_msg_def msg_size_def)

fun nl_fold :: "(nat \<Rightarrow> 's \<Rightarrow> ('s, 'r) loop_exit cres) \<Rightarrow> nat \<Rightarrow> nlmsg list \<Rightarrow> 's \<Rightarrow> ('s + 'r) cres" where
  "nl_fold body off [] s = Inr (Inl s)"
| "nl_fold body off (m # ms) s =
     (case body off s of
        Inl e \<Rightarrow> Inl e
      | Inr (Return r) \<Rightarrow> Inr (Inr r)
      | Inr (Break s') \<Rightarrow> Inr (Inl s')
      | Inr (Continue s') \<Rightarrow> nl_fold body (off + msg_size m) ms s')"

lemma nl_align_aligned: "n mod 4 = 0 \<Longrightarrow> n + 3 < 4294967296 \<Longrightarrow> nl_align n = n"
  by (simp add: nl_align_def Let_def mod_simps) presburger

lemma msg_size_aligned: "msg_ok m \<Longrightarrow> msg_size m mod 4 = 0"
  by (simp add: msg_ok_def msg_size_def) presburger

lemma nlmsg_len_at:
  "off = length xs \<Longrightarrow> msg_size m < 4294967296 \<Longrightarrow> nlmsg_len (xs @ enc_msg m @ zs) off = Inr (msg_size m)"
  unfolding nlmsg_len_def enc_msg_def append_assoc by (rule rd_le_middle) simp_all

lemma nlmsg_type_at:
  assumes "off = length xs" and "msg_ok m"
  shows "nlmsg_type (xs @ enc_msg m @ zs) off = Inr (n_type m)"
  using rd_le_middle[of "off + 4" "xs @ le_bytes 4 (msg_size m)" "n_type m" 2] assms
  by (simp add: nlmsg_type_def enc_msg_def msg_ok_def)

lemma nlmsg_seq_at:
  assumes "off = length xs" and "msg_ok m"
  shows "nlmsg_seq (xs @ enc_msg m @ zs) off = Inr (n_seq m)"
  using rd_le_middle[of "off + 8" "xs @ le_bytes 4 (msg_size m) @ le_bytes 2 (n_type m) @ le_bytes 2 (n_flags m)" "n_seq m" 4]
    assms
  by (simp add: nlmsg_seq_def enc_msg_def msg_ok_def)

text \<open>On such a datagram the header loop visits exactly the messages, in order, and stops at the end.\<close>

lemma nl_loop_walk:
  assumes "\<forall>m\<in>set ms. msg_ok m" and "length (concat (map enc_msg ms)) + 3 < 4294967296"
    and "buf = pre @ concat (map enc_msg ms) @ post" and "off = length pre"
  shows "nl_loop body buf off (length (concat (map enc_msg ms))) s = nl_fold body off ms s"
  using assms
proof (induction ms arbitrary: pre off s)
  case Nil
  then show ?case by (simp add: nl_loop.simps)
next
  case (Cons m ms)
  let ?rest = "length (concat (map enc_msg ms))"
  have len: "nlmsg_len buf off = Inr (msg_size m)"
    using Cons.prems by (simp add: nlmsg_len_at)
  have al: "nl_align (msg_size m) = msg_size m"
    using Cons.prems by (intro nl_align_aligned) (simp_all add: msg_size_aligned)
  have rem: "(msg_size m + ?rest + 4294967296 - msg_size m) mod 4294967296 = ?rest"
    using Cons.prems by simp
  have IH: "nl_loop body buf (off + msg_size m) ?rest s' = nl_fold body (off + msg_size m) ms s'" for s'
    using Cons.prems by (intro Cons.IH[of "pre @ enc_msg m"]) simp_all
  have "16 \<le> msg_size m" by (simp add: msg_size_def)
  then show ?case
    using Cons.prems(2) len al rem IH
    by (subst nl_loop.simps) (auto split: sum.splits loop_exit.splits)
qed

text \<open>The first message of our own that ends the scan.\<close>

definition final_msg :: "int \<Rightarrow> nlmsg list \<Rightarrow> nlmsg option" where
  "final_msg p_socket ms =
     find (\<lambda>m. to_int32 (n_seq m) = p_socket \<and> (n_type m = NLMSG_DONE \<or> n_type m = NLMSG_ERROR)) ms"

lemma response_body_at:
  assumes "buf = pre @ enc_msg m @ post" and "off = length pre" and "msg_ok m"
  shows "response_body p_socket buf off dn =
    Inr (if to_int32 (n_seq m) \<noteq> p_socket then Continue dn
         else if n_type m = NLMSG_DONE then Break True
         else if n_type m = NLMSG_ERROR then Return () else Continue dn)"
  using assms by (simp add: response_body_def nlmsg_seq_at nlmsg_type_at)

lemma response_fold:
  assumes "\<forall>m\<in>set ms. msg_ok m" and "buf = pre @ concat (map enc_msg ms) @ post" and "off = length pre"
  shows "nl_fold (response_body p_socket buf) off ms dn =
    Inr (case final_msg p_socket ms of
           None \<Rightarrow> Inl dn
         | Some m \<Rightarrow> if n_type m = NLMSG_DONE then Inl True else Inr ())"
  using assms
proof (induction ms arbitrary: pre off)
  case (Cons m ms)
  have body: "response_body p_socket buf off dn =
      Inr (if to_int32 (n_seq m) \<noteq> p_socket then Continue dn
         else if n_type m = NLMSG_DONE then Break True
         else if n_type m = NLMSG_ERROR then Return () else Continue dn)"
    using Cons.prems by (intro response_body_at[where pre = pre and post = "concat (map enc_msg ms) @ post"]) simp_all
  have IH: "nl_fold (response_body p_socket buf) (off + msg_size m) ms dn =
    Inr (case final_msg p_socket ms of None \<Rightarrow> Inl dn
         | Some m \<Rightarrow> if n_type m = NLMSG_DONE then Inl True else Inr ())"
    using Cons.prems by (intro Cons.IH[of "pre @ enc_msg m"]) simp_all
  show ?case
    using body IH by (auto simp: final_msg_def NLMSG_DONE_def NLMSG_ERROR_def)
qed (simp add: final_msg_def)

lemma getNetlinkResponse_datagram:
  assumes "\<forall>m\<in>set ms. msg_ok m" and "length (concat (map enc_msg ms)) \<le> 4096" and "mem_ok 4096"
  shows "getNetlinkResponse mem_ok junk p_socket 4096 (RecvData (concat (map enc_msg ms)) # evs) =
    Inr (let d = concat (map enc_msg ms); blk = d @ replicate (4096 - length d) junk
         in case final_msg p_socket ms of
              None \<Rightarrow> (Some (blk, length d), False, evs)
            | Some m \<Rightarrow> if n_type m = NLMSG_DONE then (Some (blk, length d), True, evs) else (None, False, evs))"
proof -
  let ?d = "concat (map enc_msg ms)"
  let ?blk = "?d @ replicate (4096 - length ?d) junk"
  have "nl_loop (response_body p_socket ?blk) ?blk 0 (length ?d) False =
      nl_fold (response_body p_socket ?blk) 0 ms False"
    using assms(1,2) by (intro nl_loop_walk[where pre = "[]" and post = "replicate (4096 - length ?d) junk"]) simp_all
  also have "\<dots> = Inr (case final_msg p_socket ms of
           None \<Rightarrow> Inl False
         | Some m \<Rightarrow> if n_type m = NLMSG_DONE then Inl True else Inr ())"
    using assms(1) by (intro response_fold[where pre = "[]" and post = "replicate (4096 - length ?d) junk"]) simp_all
  finally show ?thesis
    using assms(2,3) by (simp add: getNetlinkResponse.simps Let_def split: option.splits)
qed

definition done_msg :: nlmsg where
  "done_msg = \<lparr>n_type = 3, n_flags = 2, n_seq = 7, n_pid = 1, n_payload = [0, 0, 0, 0]\<rparr>"

lemma getNetlinkResponse_done:
  "mem_ok 4096 \<Longrightarrow> getNetlinkResponse mem_ok 170 7 4096 (RecvData (concat (map enc_msg [done_msg])) # []) =
     Inr (Some (enc_msg done_msg @ replicate 4076 170, 20), True, [])"
  by (subst getNetlinkResponse_datagram)
    (simp_all add: msg_ok_def done_msg_def msg_size_def final_msg_def to_int32_def nl_consts Let_def)

section \<open>Properties of the transport\<close>

text \<open>
  A well-formed datagram that fits the first buffer is read completely and
  correctly: \<open>getNetlinkResponse\<close> hands it over with its exact size, reports the end of
  the dump exactly if the first final message addressed to this socket is \<open>NLMSG_DONE\<close>,
  and fails exactly if it is \<open>NLMSG_ERROR\<close>; messages of other sequence numbers are
  ignored, and no byte outside the buffer is read.
\<close>

theorem getNetlinkResponse_correct:
  assumes "\<forall>m\<in>set ms. msg_ok m" and "length (concat (map enc_msg ms)) \<le> 4096" and "mem_ok 4096"
  shows "getNetlinkResponse mem_ok junk p_socket 4096 (RecvData (concat (map enc_msg ms)) # evs) =
    Inr (let d = concat (map enc_msg ms); blk = d @ replicate (4096 - length d) junk
         in case final_msg p_socket ms of
              None \<Rightarrow> (Some (blk, length d), False, evs)
            | Some m \<Rightarrow> if n_type m = NLMSG_DONE then (Some (blk, length d), True, evs) else (None, False, evs))"
  using assms by (rule getNetlinkResponse_datagram)

theorem getNetlinkResponse_correct_witness:
  "getNetlinkResponse (\<lambda>n. True) 170 7 4096 [RecvData (enc_msg done_msg)] =
     Inr (Some (enc_msg done_msg @ replicate 4076 170, 20), True, [])"
  using getNetlinkResponse_correct[of "[done_msg]" "\<lambda>n. True" 170 7 "[]"]
  by (simp add: msg_ok_def done_msg_def msg_size_def final_msg_def to_int32_def nl_consts Let_def)

lemma result_loop_ledger:
  "result_loop mem_ok junk p_socket l_list l evs = Inr (res, live', evs') \<Longrightarrow>
     (case res of
        None \<Rightarrow> live' = l - 2 * int (length l_list) \<or> \<not> mem_ok 24 \<and> live' = l - 2 * int (length l_list) + 1
      | Some r \<Rightarrow> live' = l - 2 * int (length l_list) + 2 * int (length r))"
proof (induction mem_ok junk p_socket l_list l evs rule: result_loop.induct)
  case (1 mem_ok junk p_socket l_list l evs)
  note eq = 1(2)[unfolded result_loop.simps[of mem_ok junk p_socket l_list l evs]]
  show ?case
  proof (cases "\<exists>h z evs1. getNetlinkResponse mem_ok junk p_socket 4096 evs = Inr (Some (h, z), False, evs1) \<and> mem_ok 24")
    case True
    then obtain h z evs1 where r: "getNetlinkResponse mem_ok junk p_socket 4096 evs = Inr (Some (h, z), False, evs1)"
        and "mem_ok 24" by blast
    then have "result_loop mem_ok junk p_socket (l_list @ [(h, z)]) (l + 2) evs1 = Inr (res, live', evs')"
      using eq by (simp add: newListItem_def)
    with "1.IH"[OF r refl refl refl refl, of "(h, z)"] \<open>mem_ok 24\<close>
    show ?thesis by (auto simp: newListItem_def split: option.splits)
  next
    case False
    then show ?thesis
      using eq by (auto simp: newListItem_def freeResultList_def split: sum.splits option.splits if_splits)
  qed
qed

lemma getResultList_live:
  "getResultList mem_ok junk sendto p_socket p_request live evs = Inr (res, live', evs') \<Longrightarrow>
    (case res of
       None \<Rightarrow> live' = live \<or> \<not> mem_ok 24 \<and> live' = live + 1
     | Some l \<Rightarrow> live' = live + 2 * int (length l))"
  using result_loop_ledger[of mem_ok junk p_socket "[]" live evs res live' evs']
  by (auto simp: getResultList_def split: if_splits option.splits)

text \<open>
  The answer list owns what it should: when \<open>getResultList\<close> succeeds, exactly two
  more blocks are live per list item; when it fails, everything it allocated has been
  freed again, except in one case: if the small allocation of a list item fails, the
  buffer just received is lost, as in the witness.
\<close>

theorem getResultList_ledger:
  assumes "getResultList mem_ok junk sendto p_socket p_request live evs = Inr (res, live', evs')"
  shows "case res of
      None \<Rightarrow> live' = live \<or> \<not> mem_ok 24 \<and> live' = live + 1
    | Some l \<Rightarrow> live' = live + 2 * int (length l)"
  by (rule getResultList_live[OF assms])

theorem getResultList_ledger_witness:
  "getResultList (\<lambda>n. n \<noteq> 24) 170 (\<lambda>d. 17) 7 18 5 [RecvData (enc_msg done_msg)] = Inr (None, 6, [])
     \<and> (6 = (5::int) \<or> \<not> 24 \<noteq> (24::nat) \<and> 6 = (5::int) + 1)"
proof -
  have "getNetlinkResponse (\<lambda>n. n \<noteq> 24) 170 7 4096 (RecvData (concat (map enc_msg [done_msg])) # []) =
      Inr (Some (enc_msg done_msg @ replicate 4076 170, 20), True, [])"
    by (subst getNetlinkResponse_done) simp_all
  then have eq: "getResultList (\<lambda>n. n \<noteq> 24) 170 (\<lambda>d. 17) 7 18 5 [RecvData (enc_msg done_msg)] = Inr (None, 6, [])"
    by (simp add: getResultList_def netlink_send_def result_loop.simps newListItem_def freeResultList_def)
  show ?thesis
    by (rule conjI[OF eq getResultList_ledger[OF eq, unfolded option.case]])
qed

end
