(* ===== verification/Ifaddrs.thy ===== *)
theory Ifaddrs
  imports Netlink
begin

text \<open>
  Model of the interpreting half of \<open>jni/ifaddrs.c\<close>: the rtnetlink messages are turned
  into the list of \<open>struct ifaddrs\<close> that \<open>getifaddrs\<close> returns.

  Every list entry is one \<open>malloc\<close>ed block: the structure followed by storage for the
  interface index, the name, the addresses and the statistics. The record \<open>ifaddrs\<close>
  holds the structure's fields and the storage as a byte list; pointers into the storage
  are offsets (\<open>None\<close> is \<open>NULL\<close>). A name points into the storage of some entry, named by
  its position in the result list. Sizes and field offsets are those of LP64 Linux.
\<close>

section \<open>Structures\<close>

datatype ifa_str = EmptyName | NameAt nat nat

record ifaddrs =
  ifa_name :: ifa_str
  ifa_flags :: nat
  ifa_addr :: "nat option"
  ifa_netmask :: "nat option"
  ifa_dstaddr :: "nat option"
  ifa_data :: "nat option"
  ifa_block :: "byte list"

definition AF_INET :: nat where "AF_INET = 2"
definition AF_INET6 :: nat where "AF_INET6 = 10"
definition AF_PACKET :: nat where "AF_PACKET = 17"

lemmas af_defs = AF_INET_def AF_INET6_def AF_PACKET_def

definition IFLA_ADDRESS :: nat where "IFLA_ADDRESS = 1"
definition IFLA_BROADCAST :: nat where "IFLA_BROADCAST = 2"
definition IFLA_IFNAME :: nat where "IFLA_IFNAME = 3"
definition IFLA_STATS :: nat where "IFLA_STATS = 7"

definition IFA_ADDRESS :: nat where "IFA_ADDRESS = 1"
definition IFA_LOCAL :: nat where "IFA_LOCAL = 2"
definition IFA_LABEL :: nat where "IFA_LABEL = 3"
definition IFA_BROADCAST :: nat where "IFA_BROADCAST = 4"

lemmas ifla_defs = IFLA_ADDRESS_def IFLA_BROADCAST_def IFLA_IFNAME_def IFLA_STATS_def
lemmas ifa_defs = IFA_ADDRESS_def IFA_LOCAL_def IFA_LABEL_def IFA_BROADCAST_def

section \<open>Route attributes\<close>

text \<open>
  The loop \<open>for(rta = ...; RTA_OK(rta, rem); rta = RTA_NEXT(rta, rem))\<close>, which never
  leaves early, as the list of the attributes it visits: type, position and size of the
  payload, and the value of \<open>l_rtaSize\<close> at that moment. \<open>RTA_NEXT\<close> subtracts modulo \<open>2^64\<close>.
\<close>

record rta =
  rta_type :: nat
  rta_off :: nat
  rta_size :: nat
  rta_rem :: nat

definition rta_align :: "nat \<Rightarrow> nat" where
  "rta_align len = (len + 3) - (len + 3) mod 4"

lemma rta_align_ge: "len \<le> rta_align len"
  unfolding rta_align_def by presburger

function (sequential) rta_list :: "byte list \<Rightarrow> nat \<Rightarrow> nat \<Rightarrow> rta list cres" where
  "rta_list buf off rem =
     (if rem < 4 then Inr []
      else case rd_le 2 buf off of
             Inl e \<Rightarrow> Inl e
           | Inr len \<Rightarrow>
               if len < 4 \<or> rem < len then Inr []
               else bindE (rd_le 2 buf (off + 2)) (\<lambda>type.
                      case rta_list buf (off + rta_align len)
                             ((rem + 18446744073709551616 - rta_align len) mod 18446744073709551616) of
                        Inl e \<Rightarrow> Inl e
                      | Inr rest \<Rightarrow>
                          Inr (\<lparr>rta_type = type, rta_off = off + 4, rta_size = len - 4, rta_rem = rem\<rparr> # rest)))"
  by pat_completeness auto

termination rta_list
proof (relation "measure (\<lambda>(buf, off, rem). length buf - off)", simp)
  fix buf off rem len type
  assume "rd_le 2 buf off = Inr len" and "\<not> (len < 4 \<or> rem < len)"
  then show "((buf, off + rta_align len,
      (rem + 18446744073709551616 - rta_align len) mod 18446744073709551616), buf, off, rem)
      \<in> measure (\<lambda>(buf, off, rem). length buf - off)"
    using rta_align_ge[of len] by (auto simp: rd_le_Inr)
qed

declare rta_list.simps [simp del]

text \<open>A loop over attributes with a fallible body.\<close>

fun foldE :: "('a \<Rightarrow> 's \<Rightarrow> 's cres) \<Rightarrow> 'a list \<Rightarrow> 's \<Rightarrow> 's cres" where
  "foldE f [] s = Inr s"
| "foldE f (x # xs) s = bindE (f x s) (foldE f xs)"

section \<open>Socket addresses\<close>

definition maxSize :: "nat \<Rightarrow> nat \<Rightarrow> nat" where
  "maxSize a b = (if a > b then a else b)"

definition calcAddrLen :: "nat \<Rightarrow> nat \<Rightarrow> nat" where
  "calcAddrLen p_family p_dataSize =
     (if p_family = AF_INET then 16
      else if p_family = AF_INET6 then 28
      else if p_family = AF_PACKET then maxSize 20 (12 + p_dataSize)
      else maxSize 16 (2 + p_dataSize))"

text \<open>\<open>p_data\<close> and \<open>p_size\<close> are given as the byte list that is copied.\<close>

definition makeSockaddr :: "nat \<Rightarrow> byte list \<Rightarrow> nat \<Rightarrow> byte list \<Rightarrow> byte list cres" where
  "makeSockaddr p_family blk p_dest p_data =
     bindE (if p_family = AF_INET then wr_at blk (p_dest + 4) p_data
            else if p_family = AF_INET6 then wr_at blk (p_dest + 8) p_data
            else if p_family = AF_PACKET
            then bindE (wr_at blk (p_dest + 12) p_data)
                   (\<lambda>blk. wr_at blk (p_dest + 11) [word_of_nat (length p_data)])
            else wr_at blk (p_dest + 2) p_data)
       (\<lambda>blk. wr_at blk p_dest (le_bytes 2 p_family))"

text \<open>\<open>strncpy(dst, buf + off, n)\<close>: the bytes stored at \<open>dst\<close>.\<close>

definition strncpy_bytes :: "byte list \<Rightarrow> nat \<Rightarrow> nat \<Rightarrow> byte list cres" where
  "strncpy_bytes buf off n =
     (let avail = take n (drop off buf); s = takeWhile (\<lambda>b. b \<noteq> 0) avail
      in if length s < length avail \<or> length avail = n then Inr (s @ replicate (n - length s) 0)
         else Inl MemFault)"

text \<open>
  \<open>strncpy(l_name, l_rtaData, l_rtaDataSize); l_name[l_rtaDataSize] = '\0'\<close>.
\<close>

definition put_name :: "byte list \<Rightarrow> rta \<Rightarrow> nat \<Rightarrow> byte list \<Rightarrow> byte list cres" where
  "put_name buf a l_name blk =
     bindE (strncpy_bytes buf (rta_off a) (rta_size a)) (\<lambda>s.
       bindE (wr_at blk l_name s) (\<lambda>blk. wr_at blk (l_name + rta_size a) [0]))"

definition addToEnd :: "ifaddrs list \<Rightarrow> ifaddrs \<Rightarrow> ifaddrs list" where
  "addToEnd p_resultList p_entry = p_resultList @ [p_entry]"

section \<open>Links\<close>

text \<open>The sizing loop of \<open>interpretLink\<close>: name, address and statistics storage.\<close>

definition link_size :: "rta \<Rightarrow> nat \<times> nat \<times> nat \<Rightarrow> nat \<times> nat \<times> nat" where
  "link_size a = (\<lambda>(l_nameSize, l_addrSize, l_dataSize).
     if rta_type a = IFLA_ADDRESS \<or> rta_type a = IFLA_BROADCAST
     then (l_nameSize, l_addrSize + nl_align_size (calcAddrLen AF_PACKET (rta_size a)), l_dataSize)
     else if rta_type a = IFLA_IFNAME
     then (l_nameSize + nl_align_size (rta_rem a + 1), l_addrSize, l_dataSize)
     else if rta_type a = IFLA_STATS
     then (l_nameSize, l_addrSize, l_dataSize + nl_align_size (rta_rem a))
     else (l_nameSize, l_addrSize, l_dataSize))"

text \<open>One attribute of the filling loop; the state is the entry and \<open>l_addr\<close>.\<close>

definition link_attr ::
  "byte list \<Rightarrow> nat \<Rightarrow> nat \<Rightarrow> nat \<Rightarrow> nat \<Rightarrow> rta \<Rightarrow> ifaddrs \<times> nat \<Rightarrow> (ifaddrs \<times> nat) cres" where
  "link_attr buf l_info self l_name l_data a = (\<lambda>(l_entry, l_addr).
     if rta_type a = IFLA_ADDRESS \<or> rta_type a = IFLA_BROADCAST then
       bindE (bytes_at buf (rta_off a) (rta_size a)) (\<lambda>data.
       bindE (makeSockaddr AF_PACKET (ifa_block l_entry) l_addr data) (\<lambda>blk.
       bindE (bytes_at buf (l_info + 4) 4) (\<lambda>ifi_index.
       bindE (wr_at blk (l_addr + 4) ifi_index) (\<lambda>blk.
       bindE (bytes_at buf (l_info + 2) 2) (\<lambda>ifi_type.
       bindE (wr_at blk (l_addr + 8) ifi_type) (\<lambda>blk.
         Inr (if rta_type a = IFLA_ADDRESS then l_entry\<lparr>ifa_block := blk, ifa_addr := Some l_addr\<rparr>
              else l_entry\<lparr>ifa_block := blk, ifa_dstaddr := Some l_addr\<rparr>,
              l_addr + nl_align_size (calcAddrLen AF_PACKET (rta_size a)))))))))
     else if rta_type a = IFLA_IFNAME then
       bindE (put_name buf a l_name (ifa_block l_entry)) (\<lambda>blk.
         Inr (l_entry\<lparr>ifa_block := blk, ifa_name := NameAt self l_name\<rparr>, l_addr))
     else if rta_type a = IFLA_STATS then
       bindE (bytes_at buf (rta_off a) (rta_size a)) (\<lambda>data.
       bindE (wr_at (ifa_block l_entry) l_data data) (\<lambda>blk.
         Inr (l_entry\<lparr>ifa_block := blk, ifa_data := Some l_data\<rparr>, l_addr)))
     else Inr (l_entry, l_addr))"

definition interpretLink ::
  "(nat \<Rightarrow> bool) \<Rightarrow> byte \<Rightarrow> byte list \<Rightarrow> nat \<Rightarrow> ifaddrs list \<Rightarrow> (int \<times> ifaddrs list) cres" where
  "interpretLink mem_ok junk buf p_hdr p_resultList =
     bindE (nlmsg_len buf p_hdr) (\<lambda>len.
     let l_info = p_hdr + 16;
         l_rtaSize = (len + 18446744073709551616 - 32) mod 18446744073709551616
     in bindE (rta_list buf (l_info + 16) l_rtaSize) (\<lambda>rtas.
     let (l_nameSize, l_addrSize, l_dataSize) = fold link_size rtas (0, 0, 0)
     in if \<not> mem_ok (56 + 4 + l_nameSize + l_addrSize + l_dataSize) then Inr (-1, p_resultList)
        else
          let blk = replicate (4 + l_nameSize + l_addrSize + l_dataSize) junk;
              l_name = 4;
              l_addr = l_name + l_nameSize;
              l_data = l_addr + l_addrSize
          in bindE (bytes_at buf (l_info + 4) 4) (\<lambda>ifi_index.
             bindE (wr_at blk 0 ifi_index) (\<lambda>blk.
             bindE (rd_le 4 buf (l_info + 8)) (\<lambda>ifi_flags.
             let l_entry = \<lparr>ifa_name = EmptyName, ifa_flags = ifi_flags, ifa_addr = None, ifa_netmask = None,
                            ifa_dstaddr = None, ifa_data = None, ifa_block = blk\<rparr>
             in bindE (foldE (link_attr buf l_info (length p_resultList) l_name l_data) rtas (l_entry, l_addr))
                  (\<lambda>(l_entry, l_addr). Inr (0, addToEnd p_resultList l_entry)))))))"

section \<open>Addresses\<close>

fun find_loop :: "int \<Rightarrow> nat \<Rightarrow> int \<Rightarrow> ifaddrs list \<Rightarrow> nat option cres" where
  "find_loop p_index l_num p_numLinks [] = Inr None"
| "find_loop p_index l_num p_numLinks (l_cur # rest) =
     (if int l_num < p_numLinks
      then bindE (rd_le 4 (ifa_block l_cur) 0) (\<lambda>l_index.
             if to_int32 l_index = p_index then Inr (Some l_num)
             else find_loop p_index (Suc l_num) p_numLinks rest)
      else Inr None)"

definition findInterface :: "int \<Rightarrow> ifaddrs list \<Rightarrow> int \<Rightarrow> nat option cres" where
  "findInterface p_index p_links p_numLinks = find_loop p_index 0 p_numLinks p_links"

text \<open>The sizing loop of \<open>interpretAddr\<close>: name storage, address storage, \<open>l_addedNetmask\<close>.\<close>

definition addr_size :: "nat \<Rightarrow> rta \<Rightarrow> nat \<times> nat \<times> bool \<Rightarrow> nat \<times> nat \<times> bool" where
  "addr_size family a = (\<lambda>(l_nameSize, l_addrSize, l_addedNetmask).
     let room = nl_align_size (calcAddrLen family (rta_size a))
     in if rta_type a = IFA_ADDRESS \<or> rta_type a = IFA_LOCAL then
          (if (family = AF_INET \<or> family = AF_INET6) \<and> \<not> l_addedNetmask
           then (l_nameSize, l_addrSize + room + room, True)
           else (l_nameSize, l_addrSize + room, l_addedNetmask))
        else if rta_type a = IFA_BROADCAST then (l_nameSize, l_addrSize + room, l_addedNetmask)
        else if rta_type a = IFA_LABEL
        then (l_nameSize + nl_align_size (rta_rem a + 1), l_addrSize, l_addedNetmask)
        else (l_nameSize, l_addrSize, l_addedNetmask))"

text \<open>\<open>IN6_IS_ADDR_LINKLOCAL\<close> or \<open>IN6_IS_ADDR_MC_LINKLOCAL\<close>, on the first two bytes.\<close>

definition in6_linklocal :: "byte \<Rightarrow> byte \<Rightarrow> bool" where
  "in6_linklocal b0 b1 \<longleftrightarrow>
     b0 = 0xfe \<and> and b1 0xc0 = 0x80 \<or> b0 = 0xff \<and> and b1 0x0f = 0x02"

definition set_scope :: "byte list \<Rightarrow> nat \<Rightarrow> nat \<Rightarrow> rta \<Rightarrow> byte list \<Rightarrow> nat \<Rightarrow> byte list cres" where
  "set_scope buf l_info family a blk l_addr =
     (if family = AF_INET6 then
        bindE (bytes_at buf (rta_off a) 2) (\<lambda>h.
          if in6_linklocal (h ! 0) (h ! 1)
          then bindE (bytes_at buf (l_info + 4) 4) (\<lambda>ifa_index. wr_at blk (l_addr + 24) ifa_index)
          else Inr blk)
      else Inr blk)"

text \<open>Which pointer of the entry an address attribute sets.\<close>

definition set_addr :: "nat \<Rightarrow> nat \<Rightarrow> ifaddrs \<Rightarrow> ifaddrs" where
  "set_addr type l_addr e =
     (if type = IFA_ADDRESS then
        (if ifa_addr e \<noteq> None then e\<lparr>ifa_dstaddr := Some l_addr\<rparr> else e\<lparr>ifa_addr := Some l_addr\<rparr>)
      else if type = IFA_LOCAL then
        (let e = (if ifa_addr e \<noteq> None then e\<lparr>ifa_dstaddr := ifa_addr e\<rparr> else e)
         in e\<lparr>ifa_addr := Some l_addr\<rparr>)
      else e\<lparr>ifa_dstaddr := Some l_addr\<rparr>)"

definition addr_attr ::
  "byte list \<Rightarrow> nat \<Rightarrow> nat \<Rightarrow> nat \<Rightarrow> nat \<Rightarrow> rta \<Rightarrow> ifaddrs \<times> nat \<Rightarrow> (ifaddrs \<times> nat) cres" where
  "addr_attr buf l_info family self l_name a = (\<lambda>(l_entry, l_addr).
     if rta_type a = IFA_ADDRESS \<or> rta_type a = IFA_BROADCAST \<or> rta_type a = IFA_LOCAL then
       bindE (bytes_at buf (rta_off a) (rta_size a)) (\<lambda>data.
       bindE (makeSockaddr family (ifa_block l_entry) l_addr data) (\<lambda>blk.
       bindE (set_scope buf l_info family a blk l_addr) (\<lambda>blk.
         Inr (set_addr (rta_type a) l_addr (l_entry\<lparr>ifa_block := blk\<rparr>),
              l_addr + nl_align_size (calcAddrLen family (rta_size a))))))
     else if rta_type a = IFA_LABEL then
       bindE (put_name buf a l_name (ifa_block l_entry)) (\<lambda>blk.
         Inr (l_entry\<lparr>ifa_block := blk, ifa_name := NameAt self l_name\<rparr>, l_addr))
     else Inr (l_entry, l_addr))"

text \<open>The netmask bytes for a prefix length.\<close>

definition prefix_mask :: "nat \<Rightarrow> byte list" where
  "prefix_mask l_prefix =
     (let l_mask = fold (\<lambda>i m. m[i := 0xff]) [0..<l_prefix div 8] (replicate 16 0)
      in if l_prefix mod 8 \<noteq> 0
         then l_mask[l_prefix div 8 := word_of_nat (0xff * 2 ^ (8 - l_prefix mod 8))]
         else l_mask)"

definition add_netmask :: "nat \<Rightarrow> ifaddrs \<Rightarrow> nat \<Rightarrow> ifaddrs cres" where
  "add_netmask ifa_prefixlen l_entry l_addr =
     (case ifa_addr l_entry of
        None \<Rightarrow> Inr l_entry
      | Some p \<Rightarrow>
          bindE (rd_le 2 (ifa_block l_entry) p) (\<lambda>sa_family.
          if sa_family = AF_INET \<or> sa_family = AF_INET6 then
            let l_maxPrefix = (if sa_family = AF_INET then 32 else 128);
                l_prefix = (if ifa_prefixlen > l_maxPrefix then l_maxPrefix else ifa_prefixlen)
            in bindE (makeSockaddr sa_family (ifa_block l_entry) l_addr (take (l_maxPrefix div 8) (prefix_mask l_prefix)))
                 (\<lambda>blk. Inr (l_entry\<lparr>ifa_block := blk, ifa_netmask := Some l_addr\<rparr>))
          else Inr l_entry))"

definition interpretAddr ::
  "(nat \<Rightarrow> bool) \<Rightarrow> byte \<Rightarrow> byte list \<Rightarrow> nat \<Rightarrow> int \<Rightarrow> ifaddrs list \<Rightarrow> (int \<times> ifaddrs list) cres" where
  "interpretAddr mem_ok junk buf p_hdr p_numLinks p_resultList =
     (let l_info = p_hdr + 16 in
     bindE (rd_le 4 buf (l_info + 4)) (\<lambda>ifa_index.
     bindE (findInterface (to_int32 ifa_index) p_resultList p_numLinks) (\<lambda>l_interface.
     bindE (rd_le 1 buf l_info) (\<lambda>family.
     if family = AF_PACKET then Inr (0, p_resultList)
     else
     bindE (nlmsg_len buf p_hdr) (\<lambda>len.
     let l_rtaSize = (len + 18446744073709551616 - 24) mod 18446744073709551616
     in bindE (rta_list buf (l_info + 8) l_rtaSize) (\<lambda>rtas.
     let (l_nameSize, l_addrSize, l_addedNetmask) = fold (addr_size family) rtas (0, 0, False)
     in if \<not> mem_ok (56 + l_nameSize + l_addrSize) then Inr (-1, p_resultList)
        else
          let blk = replicate (l_nameSize + l_addrSize) junk;
              l_name = 0;
              l_addr = l_name + l_nameSize
          in bindE (rd_le 1 buf (l_info + 2)) (\<lambda>flags.
             bindE (rd_le 1 buf (l_info + 1)) (\<lambda>ifa_prefixlen.
             let l_entry = \<lparr>ifa_name = (case l_interface of Some i \<Rightarrow> ifa_name (p_resultList ! i) | None \<Rightarrow> EmptyName),
                            ifa_flags = (case l_interface of Some i \<Rightarrow> or flags (ifa_flags (p_resultList ! i)) | None \<Rightarrow> flags),
                            ifa_addr = None, ifa_netmask = None, ifa_dstaddr = None, ifa_data = None,
                            ifa_block = blk\<rparr>
             in bindE (foldE (addr_attr buf l_info family (length p_resultList) l_name) rtas (l_entry, l_addr))
                  (\<lambda>(l_entry, l_addr).
                     bindE (add_netmask ifa_prefixlen l_entry l_addr)
                       (\<lambda>l_entry. Inr (0, addToEnd p_resultList l_entry)))))))))))"

section \<open>All messages\<close>

definition link_body ::
  "(nat \<Rightarrow> bool) \<Rightarrow> byte \<Rightarrow> int \<Rightarrow> byte list \<Rightarrow> nat \<Rightarrow> ifaddrs list \<times> int
     \<Rightarrow> (ifaddrs list \<times> int, ifaddrs list) loop_exit cres" where
  "link_body mem_ok junk p_socket buf l_hdr = (\<lambda>(res, l_numLinks).
     bindE (nlmsg_seq buf l_hdr) (\<lambda>seq.
       if to_int32 seq \<noteq> p_socket then Inr (Continue (res, l_numLinks))
       else bindE (nlmsg_type buf l_hdr) (\<lambda>type.
         if type = NLMSG_DONE then Inr (Break (res, l_numLinks))
         else if type = RTM_NEWLINK
         then bindE (interpretLink mem_ok junk buf l_hdr res) (\<lambda>(r, res).
                if r = -1 then Inr (Return res) else Inr (Continue (res, l_numLinks + 1)))
         else Inr (Continue (res, l_numLinks)))))"

fun links_loop ::
  "(nat \<Rightarrow> bool) \<Rightarrow> byte \<Rightarrow> int \<Rightarrow> NetlinkList \<Rightarrow> ifaddrs list \<times> int \<Rightarrow> (int \<times> ifaddrs list) cres" where
  "links_loop mem_ok junk p_socket [] st = Inr (snd st, fst st)"
| "links_loop mem_ok junk p_socket ((m_data, m_size) # rest) st =
     (case nl_loop (link_body mem_ok junk p_socket m_data) m_data 0 m_size st of
        Inl e \<Rightarrow> Inl e
      | Inr (Inr res) \<Rightarrow> Inr (-1, res)
      | Inr (Inl st) \<Rightarrow> links_loop mem_ok junk p_socket rest st)"

definition interpretLinks ::
  "(nat \<Rightarrow> bool) \<Rightarrow> byte \<Rightarrow> int \<Rightarrow> NetlinkList \<Rightarrow> ifaddrs list \<Rightarrow> (int \<times> ifaddrs list) cres" where
  "interpretLinks mem_ok junk p_socket p_netlinkList p_resultList =
     links_loop mem_ok junk p_socket p_netlinkList (p_resultList, 0)"

definition addr_body ::
  "(nat \<Rightarrow> bool) \<Rightarrow> byte \<Rightarrow> int \<Rightarrow> int \<Rightarrow> byte list \<Rightarrow> nat \<Rightarrow> ifaddrs list
     \<Rightarrow> (ifaddrs list, ifaddrs list) loop_exit cres" where
  "addr_body mem_ok junk p_socket p_numLinks buf l_hdr res =
     bindE (nlmsg_seq buf l_hdr) (\<lambda>seq.
       if to_int32 seq \<noteq> p_socket then Inr (Continue res)
       else bindE (nlmsg_type buf l_hdr) (\<lambda>type.
         if type = NLMSG_DONE then Inr (Break res)
         else if type = RTM_NEWADDR
         then bindE (interpretAddr mem_ok junk buf l_hdr p_numLinks res) (\<lambda>(r, res).
                if r = -1 then Inr (Return res) else Inr (Continue res))
         else Inr (Continue res)))"

fun interpretAddrs ::
  "(nat \<Rightarrow> bool) \<Rightarrow> byte \<Rightarrow> int \<Rightarrow> int \<Rightarrow> NetlinkList \<Rightarrow> ifaddrs list \<Rightarrow> (int \<times> ifaddrs list) cres" where
  "interpretAddrs mem_ok junk p_socket p_numLinks [] res = Inr (0, res)"
| "interpretAddrs mem_ok junk p_socket p_numLinks ((m_data, m_size) # rest) res =
     (case nl_loop (addr_body mem_ok junk p_socket p_numLinks m_data) m_data 0 m_size res of
        Inl e \<Rightarrow> Inl e
      | Inr (Inr res) \<Rightarrow> Inr (-1, res)
      | Inr (Inl res) \<Rightarrow> interpretAddrs mem_ok junk p_socket p_numLinks rest res)"

section \<open>getifaddrs and freeifaddrs\<close>

text \<open>
  The outcome: return value, \<open>*ifap\<close>, the count of live transport blocks, and whether the
  socket is still open.
\<close>

record getifaddrs_result =
  gr_ret :: int
  gr_list :: "ifaddrs list"
  gr_live :: int
  gr_open :: bool

definition getifaddrs ::
  "bool \<Rightarrow> (nat \<Rightarrow> bool) \<Rightarrow> byte \<Rightarrow> int \<Rightarrow> int \<Rightarrow> (byte list \<Rightarrow> int) \<Rightarrow> recv_event list \<Rightarrow> getifaddrs_result cres" where
  "getifaddrs ifap mem_ok junk socket_ret bind_ret sendto evs =
     (let failed = (\<lambda>live. Inr \<lparr>gr_ret = -1, gr_list = [], gr_live = live, gr_open = False\<rparr>)
      in if \<not> ifap then failed 0
      else
        let (l_socket, closed) = netlink_socket socket_ret bind_ret
        in if l_socket < 0 then failed 0
        else
        bindE (getResultList mem_ok junk sendto l_socket RTM_GETLINK 0 evs) (\<lambda>(l_linkResults, live, evs).
        case l_linkResults of
          None \<Rightarrow> failed live
        | Some links \<Rightarrow>
            bindE (getResultList mem_ok junk sendto l_socket RTM_GETADDR live evs) (\<lambda>(l_addrResults, live, evs).
            case l_addrResults of
              None \<Rightarrow> failed (freeResultList links live)
            | Some addrs \<Rightarrow>
                bindE (interpretLinks mem_ok junk l_socket links []) (\<lambda>(l_numLinks, res).
                bindE (if l_numLinks = -1 then Inr (-1, res)
                       else bindE (interpretAddrs mem_ok junk l_socket l_numLinks addrs res) (\<lambda>(r, res).
                              Inr (if r = -1 then -1 else 0, res))) (\<lambda>(l_result, res).
                  Inr \<lparr>gr_ret = l_result, gr_list = res,
                       gr_live = freeResultList addrs (freeResultList links live), gr_open = False\<rparr>)))))"

text \<open>\<open>freeifaddrs\<close>: the number of live entries after the walk.\<close>

fun freeifaddrs :: "ifaddrs list \<Rightarrow> nat \<Rightarrow> nat" where
  "freeifaddrs [] live = live"
| "freeifaddrs (ifa # rest) live = freeifaddrs rest (live - 1)"

section \<open>Writes and reads in a block\<close>

lemma wr_at_ok: "off + length bs \<le> length blk \<Longrightarrow> \<exists>blk'. wr_at blk off bs = Inr blk'"
  by (simp add: wr_at_def)

lemma wr_at_length: "wr_at blk off bs = Inr blk' \<Longrightarrow> length blk' = length blk"
  by (auto simp: wr_at_def split: if_splits)

text \<open>A write leaves alone what lies before or behind it, and stores what it is given.\<close>

lemma wr_at_other:
  assumes "wr_at blk off bs = Inr blk'" and "i + n \<le> off \<or> off + length bs \<le> i"
  shows "take n (drop i blk') = take n (drop i blk)"
proof -
  have len: "length blk' = length blk" and "off + length bs \<le> length blk"
    and blk': "blk' = take off blk @ bs @ drop (off + length bs) blk"
    using assms(1) by (auto simp: wr_at_def split: if_splits)
  have "blk' ! j = blk ! j" if "i \<le> j" "j < i + n" "j < length blk" for j
    using that assms(2) \<open>off + length bs \<le> length blk\<close> unfolding blk' by (auto simp: nth_append)
  then show ?thesis
    using len by (intro nth_equalityI) auto
qed

lemma wr_at_same: "wr_at blk off bs = Inr blk' \<Longrightarrow> take (length bs) (drop off blk') = bs"
  by (auto simp: wr_at_def split: if_splits)

lemma bytes_at_ok: "off + n \<le> length buf \<Longrightarrow> \<exists>bs. bytes_at buf off n = Inr bs \<and> length bs = n"
  by (simp add: bytes_at_def)

lemma strncpy_ok:
  assumes "off + n \<le> length buf"
  shows "\<exists>s. strncpy_bytes buf off n = Inr s \<and> length s = n"
proof -
  have "length (takeWhile (\<lambda>b. b \<noteq> 0) (take n (drop off buf))) \<le> n"
    using length_takeWhile_le[of "\<lambda>b. b \<noteq> 0" "take n (drop off buf)"] by simp
  then show ?thesis
    using assms by (simp add: strncpy_bytes_def Let_def)
qed

text \<open>
  \<open>region blk i n\<close>: an operation that succeeds and changes at most the bytes from \<open>i\<close> to
  \<open>i + n\<close>.
\<close>

definition writes :: "byte list \<Rightarrow> nat \<Rightarrow> nat \<Rightarrow> byte list cres \<Rightarrow> bool" where
  "writes blk i n r \<longleftrightarrow>
     (\<exists>blk'. r = Inr blk' \<and> length blk' = length blk
        \<and> (\<forall>j k. j + k \<le> i \<or> i + n \<le> j \<longrightarrow> take k (drop j blk') = take k (drop j blk)))"

lemma writes_wr_at:
  assumes "i \<le> off" and "off + length bs \<le> i + n" and "i + n \<le> length blk"
  shows "writes blk i n (wr_at blk off bs)"
proof -
  obtain blk' where b: "wr_at blk off bs = Inr blk'"
    using wr_at_ok[of off bs blk] assms by auto
  have "take k (drop j blk') = take k (drop j blk)" if "j + k \<le> i \<or> i + n \<le> j" for j k
    using that assms by (intro wr_at_other[OF b]) auto
  with b wr_at_length[OF b] show ?thesis by (auto simp: writes_def)
qed

lemma writes_bind:
  assumes "writes blk i n r" and "\<And>blk'. length blk' = length blk \<Longrightarrow> writes blk' i n (f blk')"
  shows "writes blk i n (bindE r f)"
proof -
  obtain blk' where r: "r = Inr blk'" "length blk' = length blk"
      "\<forall>j k. j + k \<le> i \<or> i + n \<le> j \<longrightarrow> take k (drop j blk') = take k (drop j blk)"
    using assms(1) by (auto simp: writes_def)
  with assms(2)[OF r(2)] show ?thesis by (auto simp: writes_def)
qed

lemma writes_makeSockaddr:
  assumes "length data \<le> (if p_family = AF_INET then 12 else if p_family = AF_INET6 then 20 else length data)"
    and "calcAddrLen p_family (length data) \<le> n" and "i + n \<le> length blk"
  shows "writes blk i n (makeSockaddr p_family blk i data)"
  unfolding makeSockaddr_def using assms
  by (intro writes_bind) (auto simp: calcAddrLen_def maxSize_def af_defs split: if_splits
      intro!: writes_bind writes_wr_at)

lemma writes_put_name:
  assumes "rta_off a + rta_size a \<le> length buf" and "rta_size a + 1 \<le> n" and "i + n \<le> length blk"
  shows "writes blk i n (put_name buf a i blk)"
proof -
  obtain s where "strncpy_bytes buf (rta_off a) (rta_size a) = Inr s" "length s = rta_size a"
    using strncpy_ok[OF assms(1)] by blast
  then show ?thesis
    using assms(2,3) by (auto simp: put_name_def intro!: writes_bind writes_wr_at)
qed

section \<open>Walking over well-formed attributes\<close>

text \<open>An attribute as the kernel sends it: header, payload, padding to the alignment.\<close>

definition enc_rta :: "nat \<times> byte list \<Rightarrow> byte list" where
  "enc_rta a = le_bytes 2 (4 + length (snd a)) @ le_bytes 2 (fst a) @ snd a
     @ replicate (rta_align (4 + length (snd a)) - (4 + length (snd a))) 0"

definition rta_ok :: "nat \<times> byte list \<Rightarrow> bool" where
  "rta_ok a \<longleftrightarrow> fst a < 65536 \<and> 4 + length (snd a) < 65536"

lemma length_enc_rta [simp]: "length (enc_rta a) = rta_align (4 + length (snd a))"
  using rta_align_ge[of "4 + length (snd a)"] by (simp add: enc_rta_def)

text \<open>The attributes the loop visits, with their positions.\<close>

fun rta_walk :: "nat \<Rightarrow> (nat \<times> byte list) list \<Rightarrow> rta list" where
  "rta_walk off [] = []"
| "rta_walk off (a # as) =
     \<lparr>rta_type = fst a, rta_off = off + 4, rta_size = length (snd a),
      rta_rem = length (concat (map enc_rta (a # as)))\<rparr> # rta_walk (off + length (enc_rta a)) as"

lemma rta_list_walk:
  assumes "\<forall>a\<in>set as. rta_ok a" and "length (concat (map enc_rta as)) < 18446744073709551616"
    and "buf = pre @ concat (map enc_rta as) @ post" and "off = length pre"
  shows "rta_list buf off (length (concat (map enc_rta as))) = Inr (rta_walk off as)"
  using assms
proof (induction as arbitrary: pre off)
  case Nil
  then show ?case by (simp add: rta_list.simps)
next
  case (Cons a as)
  let ?rest = "length (concat (map enc_rta as))"
  let ?len = "4 + length (snd a)"
  have ok: "rta_ok a" using Cons.prems(1) by simp
  have len: "rd_le 2 buf off = Inr ?len"
    using Cons.prems(3,4) ok by (simp add: enc_rta_def rta_ok_def rd_le_middle)
  have type: "rd_le 2 buf (off + 2) = Inr (fst a)"
    using Cons.prems(3,4) ok rd_le_middle[of "off + 2" "pre @ le_bytes 2 ?len" "fst a" 2]
    by (simp add: enc_rta_def rta_ok_def)
  have IH: "rta_list buf (off + rta_align ?len) ?rest = Inr (rta_walk (off + rta_align ?len) as)"
    using Cons.prems by (intro Cons.IH[of "pre @ enc_rta a"]) simp_all
  have rem: "(rta_align ?len + ?rest + 18446744073709551616 - rta_align ?len) mod 18446744073709551616 = ?rest"
    using Cons.prems(2) by simp
  show ?case
    using rta_align_ge[of ?len] len type IH rem by (subst rta_list.simps) (simp add: add.commute)
qed

text \<open>What a visited attribute guarantees to the code that uses it.\<close>

definition rta_valid :: "byte list \<Rightarrow> rta \<Rightarrow> bool" where
  "rta_valid buf a \<longleftrightarrow> rta_off a + rta_size a \<le> length buf \<and> rta_size a + 4 \<le> rta_rem a
     \<and> rta_rem a < 2147483648"

lemma rta_walk_valid:
  assumes "length (concat (map enc_rta as)) < 2147483648" and "buf = pre @ concat (map enc_rta as) @ post"
    and "off = length pre"
  shows "\<forall>a\<in>set (rta_walk off as). rta_valid buf a"
  using assms
proof (induction as arbitrary: pre off)
  case (Cons a as)
  have "\<forall>x\<in>set (rta_walk (off + length (enc_rta a)) as). rta_valid buf x"
    using Cons.prems by (intro Cons.IH[of "pre @ enc_rta a"]) simp_all
  then show ?case
    using Cons.prems rta_align_ge[of "4 + length (snd a)"] by (auto simp: rta_valid_def)
qed simp

lemma nl_align_size_ge: "x < 4294967200 \<Longrightarrow> x \<le> nl_align_size x"
  by (simp add: nl_align_size_def nl_align_def Let_def)

section \<open>A link message\<close>

definition link_addr_room :: "rta \<Rightarrow> nat" where
  "link_addr_room a = (if rta_type a = IFLA_ADDRESS \<or> rta_type a = IFLA_BROADCAST
     then nl_align_size (calcAddrLen AF_PACKET (rta_size a)) else 0)"

definition link_name_room :: "rta \<Rightarrow> nat" where
  "link_name_room a = (if rta_type a = IFLA_IFNAME then nl_align_size (rta_rem a + 1) else 0)"

definition link_data_room :: "rta \<Rightarrow> nat" where
  "link_data_room a = (if rta_type a = IFLA_STATS then nl_align_size (rta_rem a) else 0)"

lemma fold_link_size:
  "fold link_size as (n, a, d) =
     (n + sum_list (map link_name_room as), a + sum_list (map link_addr_room as), d + sum_list (map link_data_room as))"
  by (induction as arbitrary: n a d)
    (auto simp: link_size_def link_name_room_def link_addr_room_def link_data_room_def ifla_defs)

definition link_inv :: "nat \<Rightarrow> nat \<Rightarrow> nat \<Rightarrow> byte list \<Rightarrow> nat \<Rightarrow> nat \<Rightarrow> ifaddrs \<times> nat \<Rightarrow> bool" where
  "link_inv N A D idx fl self = (\<lambda>(e, l).
     length (ifa_block e) = 4 + N + A + D \<and> take 4 (ifa_block e) = idx \<and> ifa_flags e = fl
     \<and> 4 + N \<le> l \<and> l \<le> 4 + N + A
     \<and> (\<forall>p. ifa_addr e = Some p \<or> ifa_dstaddr e = Some p \<longrightarrow>
           4 + N \<le> p \<and> p + 20 \<le> l \<and> take 2 (drop p (ifa_block e)) = le_bytes 2 AF_PACKET)
     \<and> (ifa_name e = EmptyName \<or> ifa_name e = NameAt self 4)
     \<and> (ifa_data e = None \<or> ifa_data e = Some (4 + N + A)) \<and> ifa_netmask e = None)"

lemma writesE:
  assumes "writes blk i n r"
  obtains blk' where "r = Inr blk'" "length blk' = length blk"
    "\<And>j k. j + k \<le> i \<or> i + n \<le> j \<Longrightarrow> take k (drop j blk') = take k (drop j blk)"
  using assms by (auto simp: writes_def)

lemma makeSockaddr_family:
  assumes "makeSockaddr f blk i data = Inr blk'"
  shows "take 2 (drop i blk') = le_bytes 2 f"
proof -
  obtain b where "wr_at b i (le_bytes 2 f) = Inr blk'"
    using assms by (auto simp: makeSockaddr_def bindE_eq_Inr)
  from wr_at_same[OF this] show ?thesis by simp
qed

lemma link_inv_block:
  assumes "link_inv N A D idx fl self (e, l)" and "length blk' = length (ifa_block e)"
    and "\<And>j k. j + k \<le> i \<or> i + n \<le> j \<Longrightarrow> take k (drop j blk') = take k (drop j (ifa_block e))"
    and "4 \<le> i" and "i + n \<le> 4 + N \<or> l \<le> i"
  shows "link_inv N A D idx fl self (e\<lparr>ifa_block := blk'\<rparr>, l)"
proof -
  have "take 4 blk' = take 4 (ifa_block e)"
    using assms(3)[of 0 4] assms(4) by simp
  moreover have "take 2 (drop p blk') = take 2 (drop p (ifa_block e))" if "4 + N \<le> p" "p + 20 \<le> l" for p
    using that assms(5) by (intro assms(3)) auto
  ultimately show ?thesis
    using assms(1,2) by (auto simp: link_inv_def)
qed

lemma link_attr_name:
  assumes "link_inv N A D idx fl self (e, l)" and "rta_valid buf a" and "rta_type a = IFLA_IFNAME"
    and "link_name_room a \<le> N"
  shows "\<exists>e'. link_attr buf l_info self 4 l_data a (e, l) = Inr (e', l) \<and> link_inv N A D idx fl self (e', l)"
proof -
  have room: "rta_size a + 1 \<le> N"
    using assms(2-4) nl_align_size_ge[of "rta_rem a + 1"] by (simp add: link_name_room_def rta_valid_def)
  have "writes (ifa_block e) 4 N (put_name buf a 4 (ifa_block e))"
    using assms(1,2) room by (intro writes_put_name) (auto simp: link_inv_def rta_valid_def)
  then obtain blk' where b: "put_name buf a 4 (ifa_block e) = Inr blk'" "length blk' = length (ifa_block e)"
      "\<And>j k. j + k \<le> 4 \<or> 4 + N \<le> j \<Longrightarrow> take k (drop j blk') = take k (drop j (ifa_block e))"
    by (elim writesE) blast
  from link_inv_block[OF assms(1) b(2,3)] have "link_inv N A D idx fl self (e\<lparr>ifa_block := blk'\<rparr>, l)" by simp
  then show ?thesis
    using b(1) assms(3) by (auto simp: link_attr_def link_inv_def ifla_defs)
qed

lemma link_attr_stats:
  assumes "link_inv N A D idx fl self (e, l)" and "rta_valid buf a" and "rta_type a = IFLA_STATS"
    and "link_data_room a \<le> D" and "l_data = 4 + N + A"
  shows "\<exists>e'. link_attr buf l_info self 4 l_data a (e, l) = Inr (e', l) \<and> link_inv N A D idx fl self (e', l)"
proof -
  have room: "rta_size a \<le> D"
    using assms(2-4) nl_align_size_ge[of "rta_rem a"] by (simp add: link_data_room_def rta_valid_def)
  obtain data where d: "bytes_at buf (rta_off a) (rta_size a) = Inr data" "length data = rta_size a"
    using assms(2) bytes_at_ok[of "rta_off a" "rta_size a" buf] by (auto simp: rta_valid_def)
  have "writes (ifa_block e) l_data D (wr_at (ifa_block e) l_data data)"
    using assms(1,5) room d(2) by (intro writes_wr_at) (auto simp: link_inv_def)
  then obtain blk' where b: "wr_at (ifa_block e) l_data data = Inr blk'" "length blk' = length (ifa_block e)"
      "\<And>j k. j + k \<le> l_data \<or> l_data + D \<le> j \<Longrightarrow> take k (drop j blk') = take k (drop j (ifa_block e))"
    by (elim writesE) blast
  have "link_inv N A D idx fl self (e\<lparr>ifa_block := blk'\<rparr>, l)"
    using assms(1,5) by (intro link_inv_block[OF assms(1) b(2,3)]) (auto simp: link_inv_def)
  then show ?thesis
    using b(1) d(1) assms(3,5) by (auto simp: link_attr_def link_inv_def ifla_defs)
qed

text \<open>The three writes that make one link-layer address.\<close>

lemma link_addr_written:
  assumes "writes blk l n (makeSockaddr AF_PACKET blk l data)" and "20 \<le> n" and "l + n \<le> length blk"
    and "length idx = 4" and "length ty = 2"
  shows "\<exists>b1 b2 b3. makeSockaddr AF_PACKET blk l data = Inr b1 \<and> wr_at b1 (l + 4) idx = Inr b2
    \<and> wr_at b2 (l + 8) ty = Inr b3 \<and> length b3 = length blk
    \<and> (\<forall>j k. j + k \<le> l \<or> l + n \<le> j \<longrightarrow> take k (drop j b3) = take k (drop j blk))
    \<and> take 2 (drop l b3) = le_bytes 2 AF_PACKET"
proof -
  obtain b1 where b1: "makeSockaddr AF_PACKET blk l data = Inr b1" "length b1 = length blk"
      "\<And>j k. j + k \<le> l \<or> l + n \<le> j \<Longrightarrow> take k (drop j b1) = take k (drop j blk)"
    using assms(1) by (elim writesE) blast
  obtain b2 where b2: "wr_at b1 (l + 4) idx = Inr b2"
    using wr_at_ok[of "l + 4" idx b1] b1(2) assms(2-4) by auto
  obtain b3 where b3: "wr_at b2 (l + 8) ty = Inr b3"
    using wr_at_ok[of "l + 8" ty b2] wr_at_length[OF b2] b1(2) assms(2,3,5) by auto
  have eq: "take k (drop j b3) = take k (drop j b1)" if "j + k \<le> l + 4 \<or> l + n \<le> j" for j k
    using that assms(2,4,5) wr_at_other[OF b3, of j k] wr_at_other[OF b2, of j k] by auto
  have "take 2 (drop l b3) = le_bytes 2 AF_PACKET"
    using eq[of l 2] makeSockaddr_family[OF b1(1)] by simp
  moreover have "take k (drop j b3) = take k (drop j blk)" if "j + k \<le> l \<or> l + n \<le> j" for j k
    using that eq[of j k] b1(3)[of j k] by auto
  ultimately show ?thesis
    using b1(1,2) b2 b3 wr_at_length[OF b2] wr_at_length[OF b3] by auto
qed

lemma link_attr_addr:
  assumes inv: "link_inv N A D idx fl self (e, l)" and "rta_valid buf a"
    and type: "rta_type a = IFLA_ADDRESS \<or> rta_type a = IFLA_BROADCAST"
    and "l + link_addr_room a \<le> 4 + N + A" and "l_info + 16 \<le> length buf"
  shows "\<exists>e'. link_attr buf l_info self 4 l_data a (e, l) = Inr (e', l + link_addr_room a)
    \<and> link_inv N A D idx fl self (e', l + link_addr_room a)"
proof -
  let ?n = "link_addr_room a"
  have room: "calcAddrLen AF_PACKET (rta_size a) \<le> ?n"
    using assms(2) type nl_align_size_ge[of "calcAddrLen AF_PACKET (rta_size a)"]
    by (auto simp: link_addr_room_def rta_valid_def calcAddrLen_def maxSize_def af_defs)
  then have "20 \<le> ?n"
    by (simp add: calcAddrLen_def maxSize_def af_defs split: if_splits)
  obtain data where d: "bytes_at buf (rta_off a) (rta_size a) = Inr data" "length data = rta_size a"
    using assms(2) bytes_at_ok[of "rta_off a" "rta_size a" buf] by (auto simp: rta_valid_def)
  obtain ix where ix: "bytes_at buf (l_info + 4) 4 = Inr ix" "length ix = 4"
    using assms(5) bytes_at_ok[of "l_info + 4" 4 buf] by auto
  obtain ty where ty: "bytes_at buf (l_info + 2) 2 = Inr ty" "length ty = 2"
    using assms(5) bytes_at_ok[of "l_info + 2" 2 buf] by auto
  have fits: "l + ?n \<le> length (ifa_block e)"
    using inv assms(4) by (auto simp: link_inv_def)
  have "writes (ifa_block e) l ?n (makeSockaddr AF_PACKET (ifa_block e) l data)"
    using room fits d(2) by (intro writes_makeSockaddr) (auto simp: af_defs)
  from link_addr_written[OF this \<open>20 \<le> ?n\<close> fits ix(2) ty(2)] obtain b1 b2 b3 where
    b: "makeSockaddr AF_PACKET (ifa_block e) l data = Inr b1" "wr_at b1 (l + 4) ix = Inr b2"
       "wr_at b2 (l + 8) ty = Inr b3" "length b3 = length (ifa_block e)"
       "\<And>j k. j + k \<le> l \<or> l + ?n \<le> j \<Longrightarrow> take k (drop j b3) = take k (drop j (ifa_block e))"
       "take 2 (drop l b3) = le_bytes 2 AF_PACKET" by blast
  have "link_inv N A D idx fl self (e\<lparr>ifa_block := b3\<rparr>, l)"
    using inv by (intro link_inv_block[OF inv b(4,5)]) (auto simp: link_inv_def)
  then show ?thesis
    using type d(1) ix(1) ty(1) b(1,2,3,6) \<open>20 \<le> ?n\<close> assms(4)
    by (auto simp: link_attr_def link_inv_def link_addr_room_def)
qed

lemma link_attr_step:
  assumes "link_inv N A D idx fl self (e, l)" and "rta_valid buf a" and "link_name_room a \<le> N"
    and "link_data_room a \<le> D" and "l + link_addr_room a \<le> 4 + N + A" and "l_info + 16 \<le> length buf"
    and "l_data = 4 + N + A"
  shows "\<exists>e'. link_attr buf l_info self 4 l_data a (e, l) = Inr (e', l + link_addr_room a)
    \<and> link_inv N A D idx fl self (e', l + link_addr_room a)"
proof (cases "rta_type a = IFLA_ADDRESS \<or> rta_type a = IFLA_BROADCAST")
  case True
  then show ?thesis using link_attr_addr assms by blast
next
  case False
  then have "link_addr_room a = 0" by (simp add: link_addr_room_def)
  then show ?thesis
    using link_attr_name[OF assms(1,2) _ assms(3), of l_info l_data]
      link_attr_stats[OF assms(1,2) _ assms(4,7), of l_info] assms(1) False
    by (cases "rta_type a = IFLA_IFNAME"; cases "rta_type a = IFLA_STATS") (auto simp: link_attr_def)
qed

lemma link_fold:
  assumes "link_inv N A D idx fl self (e, l)" and "\<forall>a\<in>set as. rta_valid buf a"
    and "sum_list (map link_name_room as) \<le> N" and "sum_list (map link_data_room as) \<le> D"
    and "l + sum_list (map link_addr_room as) \<le> 4 + N + A" and "l_info + 16 \<le> length buf"
    and "l_data = 4 + N + A"
  shows "\<exists>st. foldE (link_attr buf l_info self 4 l_data) as (e, l) = Inr st \<and> link_inv N A D idx fl self st"
  using assms
proof (induction as arbitrary: e l)
  case (Cons a as)
  obtain e' where e': "link_attr buf l_info self 4 l_data a (e, l) = Inr (e', l + link_addr_room a)"
      "link_inv N A D idx fl self (e', l + link_addr_room a)"
    using link_attr_step[OF Cons.prems(1), of buf a l_info l_data] Cons.prems(2-7) by auto
  from Cons.IH[OF e'(2)] Cons.prems(2-7) e'(1) show ?case by auto
qed simp

text \<open>A well-formed link message at an offset of a buffer: \<open>ifinfomsg\<close> and attributes.\<close>

definition payload_at :: "byte list \<Rightarrow> nat \<Rightarrow> byte list \<Rightarrow> (nat \<times> byte list) list \<Rightarrow> bool" where
  "payload_at buf hdr info as \<longleftrightarrow>
     (\<exists>pre m post. buf = pre @ enc_msg m @ post \<and> hdr = length pre \<and> n_payload m = info @ concat (map enc_rta as))
     \<and> (\<forall>a\<in>set as. rta_ok a) \<and> length (concat (map enc_rta as)) < 2147483000"

lemma payload_at_split:
  assumes "payload_at buf hdr info as" and "length info < 2000"
  obtains hd16 pre post where "buf = pre @ hd16 @ info @ concat (map enc_rta as) @ post" "length hd16 = 16"
    "hdr = length pre" "nlmsg_len buf hdr = Inr (16 + length info + length (concat (map enc_rta as)))"
proof -
  obtain pre m post where b: "buf = pre @ enc_msg m @ post" "hdr = length pre"
      "n_payload m = info @ concat (map enc_rta as)"
    using assms(1) by (auto simp: payload_at_def)
  have small: "length (concat (map enc_rta as)) < 2147483000"
    using assms(1) by (simp add: payload_at_def)
  let ?h = "le_bytes 4 (msg_size m) @ le_bytes 2 (n_type m) @ le_bytes 2 (n_flags m) @ le_bytes 4 (n_seq m) @ le_bytes 4 (n_pid m)"
  have "buf = pre @ ?h @ info @ concat (map enc_rta as) @ post"
    using b(1,3) by (simp add: enc_msg_def)
  moreover have "nlmsg_len buf hdr = Inr (16 + length info + length (concat (map enc_rta as)))"
    using b small assms(2) nlmsg_len_at[of hdr pre m post] by (simp add: msg_size_def)
  ultimately show ?thesis
    by (intro that[of pre ?h post]) (simp_all add: b(2))
qed

lemma payload_at_single:
  assumes "n_payload m = info @ concat (map enc_rta as)" and "\<forall>a\<in>set as. rta_ok a"
    and "length (concat (map enc_rta as)) < 2147483000"
  shows "payload_at (enc_msg m) 0 info as"
proof -
  have "enc_msg m = [] @ enc_msg m @ [] \<and> 0 = length ([] :: byte list)" by simp
  with assms show ?thesis unfolding payload_at_def by blast
qed

lemma bytes_at_info:
  assumes "buf = pre @ hd16 @ info @ rest" and "length hd16 = 16" and "i + n \<le> length info"
  shows "bytes_at buf (length pre + 16 + i) n = Inr (take n (drop i info))"
  using assms by (simp add: bytes_at_def)

lemma interpretLink_ok:
  assumes "payload_at buf hdr info as" and "length info = 16" and "\<forall>n. mem_ok n"
  shows "\<exists>st N A D. interpretLink mem_ok junk buf hdr res = Inr (0, res @ [fst st])
    \<and> link_inv N A D (take 4 (drop 4 info)) (le_nat (take 4 (drop 8 info))) (length res) st"
proof -
  have "length info < 2000" using assms(2) by simp
  then obtain pre hd16 post where buf: "buf = pre @ hd16 @ info @ concat (map enc_rta as) @ post"
      and h: "length hd16 = 16" and hdr: "hdr = length pre"
      and len0: "nlmsg_len buf hdr = Inr (16 + length info + length (concat (map enc_rta as)))"
    using payload_at_split[OF assms(1)] by blast
  have len: "nlmsg_len buf hdr = Inr (32 + length (concat (map enc_rta as)))"
    using len0 unfolding assms(2) by simp
  let ?rtas = "rta_walk (hdr + 32) as"
  have small: "length (concat (map enc_rta as)) < 2147483000" and ok: "\<forall>a\<in>set as. rta_ok a"
    using assms(1) by (simp_all add: payload_at_def)
  have rtas: "rta_list buf (hdr + 16 + 16) (length (concat (map enc_rta as))) = Inr ?rtas"
    using rta_list_walk[OF ok, of buf "pre @ hd16 @ info" post "hdr + 32"] small buf h hdr assms(2)
    by (simp add: add.assoc)
  have valid: "\<forall>a\<in>set ?rtas. rta_valid buf a"
    using rta_walk_valid[of as buf "pre @ hd16 @ info" post "hdr + 32"] small buf h hdr assms(2) by simp
  define N A D where nad: "N = sum_list (map link_name_room ?rtas)" "A = sum_list (map link_addr_room ?rtas)"
    "D = sum_list (map link_data_room ?rtas)"
  let ?ix = "take 4 (drop 4 info)"
  have ix: "bytes_at buf (hdr + 16 + 4) 4 = Inr ?ix" and fl: "bytes_at buf (hdr + 16 + 8) 4 = Inr (take 4 (drop 8 info))"
    using bytes_at_info[OF buf h, of 4 4] bytes_at_info[OF buf h, of 8 4] assms(2) hdr by simp_all
  obtain blk where blk: "wr_at (replicate (4 + N + A + D) junk) 0 ?ix = Inr blk"
    using wr_at_ok[of 0 ?ix "replicate (4 + N + A + D) junk"] assms(2) by auto
  let ?e = "\<lparr>ifa_name = EmptyName, ifa_flags = le_nat (take 4 (drop 8 info)), ifa_addr = None, ifa_netmask = None,
             ifa_dstaddr = None, ifa_data = None, ifa_block = blk\<rparr>"
  have "link_inv N A D ?ix (le_nat (take 4 (drop 8 info))) (length res) (?e, 4 + N)"
    using wr_at_length[OF blk] wr_at_same[OF blk] assms(2) by (simp add: link_inv_def)
  from link_fold[OF this valid, of "hdr + 16" "4 + N + A"] obtain st where
    st: "foldE (link_attr buf (hdr + 16) (length res) 4 (4 + N + A)) ?rtas (?e, 4 + N) = Inr st"
        "link_inv N A D ?ix (le_nat (take 4 (drop 8 info))) (length res) st"
    using nad buf h hdr assms(2) by auto
  have "interpretLink mem_ok junk buf hdr res = Inr (0, res @ [fst st])"
    using len rtas ix fl blk st(1) assms(3) small
    by (simp add: interpretLink_def Let_def fold_link_size nad[symmetric] rd_le_def addToEnd_def case_prod_beta)
  with st(2) show ?thesis by blast
qed

section \<open>Properties of link interpretation\<close>

text \<open>
  C28: A well-formed link message is interpreted without leaving the message or the
  allocated entry: \<open>interpretLink\<close> appends exactly one entry, which carries the
  interface's flags and, in front, its index (for \<open>findInterface\<close>); each address pointer
  that is set points to a complete link-layer address (family \<open>AF_PACKET\<close>) inside the
  entry's own block.
\<close>

theorem interpretLink_correct:
  assumes "payload_at buf hdr info as" and "length info = 16" and "\<forall>n. mem_ok n"
  shows "\<exists>e. interpretLink mem_ok junk buf hdr res = Inr (0, res @ [e])
    \<and> ifa_flags e = le_nat (take 4 (drop 8 info))
    \<and> take 4 (ifa_block e) = take 4 (drop 4 info)
    \<and> (\<forall>p. ifa_addr e = Some p \<or> ifa_dstaddr e = Some p \<longrightarrow>
          p + 20 \<le> length (ifa_block e) \<and> take 2 (drop p (ifa_block e)) = le_bytes 2 AF_PACKET)
    \<and> (\<forall>p. ifa_data e = Some p \<longrightarrow> p \<le> length (ifa_block e))"
proof -
  obtain e l N A D where "interpretLink mem_ok junk buf hdr res = Inr (0, res @ [e])"
      "link_inv N A D (take 4 (drop 4 info)) (le_nat (take 4 (drop 8 info))) (length res) (e, l)"
    using interpretLink_ok[OF assms, of junk res] by auto
  then show ?thesis by (intro exI[of _ e]) (auto simp: link_inv_def)
qed

definition link_info_lo :: "byte list" where
  "link_info_lo = [0, 0, 4, 3, 1, 0, 0, 0, 73, 0, 0, 0, 0, 0, 0, 0]"

definition link_attrs_lo :: "(nat \<times> byte list) list" where
  "link_attrs_lo = [(3, [108, 111, 0]), (1, [0, 0, 0, 0, 0, 0])]"

definition link_msg_lo :: nlmsg where
  "link_msg_lo = \<lparr>n_type = 16, n_flags = 2, n_seq = 7, n_pid = 1,
     n_payload = link_info_lo @ concat (map enc_rta link_attrs_lo)\<rparr>"

theorem interpretLink_correct_witness:
  "\<exists>e. interpretLink (\<lambda>n. True) 170 (enc_msg link_msg_lo) 0 [] = Inr (0, [e]) \<and> ifa_flags e = 73"
proof -
  have "payload_at (enc_msg link_msg_lo) 0 link_info_lo link_attrs_lo"
    by (rule payload_at_single) (simp_all add: link_msg_lo_def rta_ok_def link_attrs_lo_def rta_align_def)
  from interpretLink_correct[OF this, of "\<lambda>n. True" 170 "[]"] show ?thesis
    by (auto simp: link_info_lo_def)
qed

section \<open>An address message\<close>

definition inet_family :: "nat \<Rightarrow> bool" where
  "inet_family f \<longleftrightarrow> f = AF_INET \<or> f = AF_INET6"

definition sa_len :: "nat \<Rightarrow> nat" where "sa_len f = (if f = AF_INET then 16 else 28)"
definition sa_data_len :: "nat \<Rightarrow> nat" where "sa_data_len f = (if f = AF_INET then 4 else 16)"
definition sa_data_off :: "nat \<Rightarrow> nat" where "sa_data_off f = (if f = AF_INET then 4 else 8)"

lemmas sa_defs = sa_len_def sa_data_len_def sa_data_off_def

definition is_addr :: "rta \<Rightarrow> bool" where
  "is_addr a \<longleftrightarrow> rta_type a = IFA_ADDRESS \<or> rta_type a = IFA_LOCAL"

definition addr_room :: "nat \<Rightarrow> rta \<Rightarrow> nat" where
  "addr_room f a = (if is_addr a \<or> rta_type a = IFA_BROADCAST then sa_len f else 0)"

definition label_room :: "rta \<Rightarrow> nat" where
  "label_room a = (if rta_type a = IFA_LABEL then nl_align_size (rta_rem a + 1) else 0)"

text \<open>The kernel's contract: an address attribute holds an address of the message's family.\<close>

definition addr_rta_ok :: "nat \<Rightarrow> rta \<Rightarrow> bool" where
  "addr_rta_ok f a \<longleftrightarrow> (is_addr a \<or> rta_type a = IFA_BROADCAST \<longrightarrow> rta_size a = sa_data_len f)"

lemma align_sa_len: "inet_family f \<Longrightarrow> nl_align_size (calcAddrLen f n) = sa_len f"
  by (auto simp: inet_family_def sa_len_def calcAddrLen_def af_defs nl_align_size_def nl_align_def)

lemma fold_addr_size:
  assumes "inet_family f"
  shows "fold (addr_size f) as (n, a, b) =
     (n + sum_list (map label_room as),
      a + sum_list (map (addr_room f) as) + (if \<not> b \<and> list_ex is_addr as then sa_len f else 0),
      b \<or> list_ex is_addr as)"
  using assms
proof (induction as arbitrary: n a b)
  case (Cons x as)
  have "addr_size f x (n, a, b) =
      (n + label_room x, a + addr_room f x + (if \<not> b \<and> is_addr x then sa_len f else 0), b \<or> is_addr x)"
    using Cons.prems
    by (auto simp: addr_size_def align_sa_len addr_room_def label_room_def is_addr_def ifa_defs inet_family_def Let_def)
  then show ?case
    using Cons by (auto simp: Cons.IH)
qed simp

text \<open>\<open>seen\<close>: an address or local attribute has been handled.\<close>

definition addr_inv :: "nat \<Rightarrow> nat \<Rightarrow> nat \<Rightarrow> nat \<Rightarrow> bool \<Rightarrow> ifaddrs \<times> nat \<Rightarrow> bool" where
  "addr_inv f T N fl seen = (\<lambda>(e, l).
     length (ifa_block e) = T \<and> ifa_flags e = fl \<and> N \<le> l \<and> l \<le> T
     \<and> (\<forall>p. ifa_addr e = Some p \<or> ifa_dstaddr e = Some p \<longrightarrow>
           N \<le> p \<and> p + sa_len f \<le> l \<and> take 2 (drop p (ifa_block e)) = le_bytes 2 f)
     \<and> (ifa_addr e \<noteq> None \<longleftrightarrow> seen) \<and> ifa_netmask e = None)"

lemma addr_inv_block:
  assumes "addr_inv f T N fl seen (e, l)" and "length blk' = length (ifa_block e)"
    and "\<And>j k. j + k \<le> i \<or> i + n \<le> j \<Longrightarrow> take k (drop j blk') = take k (drop j (ifa_block e))"
    and "i + n \<le> N \<or> l \<le> i"
  shows "addr_inv f T N fl seen (e\<lparr>ifa_block := blk'\<rparr>, l)"
proof -
  have "take 2 (drop p blk') = take 2 (drop p (ifa_block e))" if "N \<le> p" "p + sa_len f \<le> l" for p
    using that assms(4) by (intro assms(3)) (auto simp: sa_len_def split: if_splits)
  then show ?thesis
    using assms(1,2) by (auto simp: addr_inv_def)
qed

lemma makeSockaddr_data:
  assumes "makeSockaddr f blk i data = Inr blk'" and "inet_family f"
  shows "take (length data) (drop (i + sa_data_off f) blk') = data"
proof -
  obtain b where b: "wr_at blk (i + sa_data_off f) data = Inr b" "wr_at b i (le_bytes 2 f) = Inr blk'"
    using assms by (auto simp: makeSockaddr_def bindE_eq_Inr sa_data_off_def inet_family_def af_defs)
  have "take (length data) (drop (i + sa_data_off f) blk') = take (length data) (drop (i + sa_data_off f) b)"
    by (rule wr_at_other[OF b(2)]) (simp add: sa_data_off_def)
  with wr_at_same[OF b(1)] show ?thesis by simp
qed

lemma set_addr_block [simp]: "ifa_block (set_addr ty l e) = ifa_block e" "ifa_flags (set_addr ty l e) = ifa_flags e"
  "ifa_netmask (set_addr ty l e) = ifa_netmask e"
  by (simp_all add: set_addr_def Let_def)

lemma addr_inv_set_addr:
  assumes "addr_inv f T N fl seen (e, l)" and "l + sa_len f \<le> T"
    and "take 2 (drop l (ifa_block e)) = le_bytes 2 f"
    and "rta_type a = IFA_ADDRESS \<or> rta_type a = IFA_BROADCAST \<or> rta_type a = IFA_LOCAL"
  shows "addr_inv f T N fl (seen \<or> is_addr a) (set_addr (rta_type a) l e, l + sa_len f)"
proof -
  have ptrs: "ifa_addr (set_addr (rta_type a) l e) \<in> {Some l, ifa_addr e}"
    "ifa_dstaddr (set_addr (rta_type a) l e) \<in> {Some l, ifa_addr e, ifa_dstaddr e}"
    "ifa_addr (set_addr (rta_type a) l e) \<noteq> None \<longleftrightarrow> ifa_addr e \<noteq> None \<or> is_addr a"
    using assms(4) by (auto simp: set_addr_def Let_def is_addr_def ifa_defs)
  have old: "N \<le> p \<and> p + sa_len f \<le> l + sa_len f \<and> take 2 (drop p (ifa_block e)) = le_bytes 2 f"
    if "p = l \<or> ifa_addr e = Some p \<or> ifa_dstaddr e = Some p" for p
    using that assms(1,3) unfolding addr_inv_def by fastforce
  have new: "N \<le> p \<and> p + sa_len f \<le> l + sa_len f \<and> take 2 (drop p (ifa_block e)) = le_bytes 2 f"
    if "ifa_addr (set_addr (rta_type a) l e) = Some p \<or> ifa_dstaddr (set_addr (rta_type a) l e) = Some p" for p
    using that ptrs(1,2) by (intro old) auto
  have "length (ifa_block e) = T" "ifa_flags e = fl" "N \<le> l" "ifa_netmask e = None" "ifa_addr e \<noteq> None \<longleftrightarrow> seen"
    using assms(1) by (auto simp: addr_inv_def)
  then show ?thesis
    using ptrs(3) new assms(2) unfolding addr_inv_def by auto
qed

lemma addr_written:
  assumes "inet_family f" and "length data = sa_data_len f" and "l + sa_len f \<le> length blk"
    and "rta_off a + sa_data_len f \<le> length buf" and "l_info + 8 \<le> length buf"
  shows "\<exists>b1 b2. makeSockaddr f blk l data = Inr b1 \<and> set_scope buf l_info f a b1 l = Inr b2
    \<and> length b2 = length blk
    \<and> (\<forall>j k. j + k \<le> l \<or> l + sa_len f \<le> j \<longrightarrow> take k (drop j b2) = take k (drop j blk))
    \<and> take 2 (drop l b2) = le_bytes 2 f"
proof -
  have "writes blk l (sa_len f) (makeSockaddr f blk l data)"
    using assms(1-3) by (intro writes_makeSockaddr) (auto simp: inet_family_def sa_defs calcAddrLen_def af_defs)
  then obtain b1 where b1: "makeSockaddr f blk l data = Inr b1" "length b1 = length blk"
      "\<And>j k. j + k \<le> l \<or> l + sa_len f \<le> j \<Longrightarrow> take k (drop j b1) = take k (drop j blk)"
    by (elim writesE) blast
  have "\<exists>b2. set_scope buf l_info f a b1 l = Inr b2 \<and> length b2 = length b1
      \<and> (\<forall>j k. j + k \<le> l + 2 \<or> l + sa_len f \<le> j \<longrightarrow> take k (drop j b2) = take k (drop j b1))"
  proof (cases "f = AF_INET6")
    case True
    obtain h where h: "bytes_at buf (rta_off a) 2 = Inr h"
      using bytes_at_ok[of "rta_off a" 2 buf] assms(4) True by (auto simp: sa_data_len_def af_defs)
    obtain ix where ix: "bytes_at buf (l_info + 4) 4 = Inr ix" "length ix = 4"
      using bytes_at_ok[of "l_info + 4" 4 buf] assms(5) by auto
    have "writes b1 (l + 24) 4 (wr_at b1 (l + 24) ix)"
      using ix(2) assms(3) b1(2) True by (intro writes_wr_at) (auto simp: sa_len_def af_defs)
    then show ?thesis
      using h ix(1) True by (elim writesE) (auto simp: set_scope_def sa_len_def af_defs)
  qed (simp add: set_scope_def)
  then obtain b2 where b2: "set_scope buf l_info f a b1 l = Inr b2" "length b2 = length b1"
      "\<And>j k. j + k \<le> l + 2 \<or> l + sa_len f \<le> j \<Longrightarrow> take k (drop j b2) = take k (drop j b1)" by blast
  have "take 2 (drop l b2) = le_bytes 2 f"
    using b2(3)[of l 2] makeSockaddr_family[OF b1(1)] by simp
  moreover have "take k (drop j b2) = take k (drop j blk)" if "j + k \<le> l \<or> l + sa_len f \<le> j" for j k
    using that b2(3)[of j k] b1(3)[of j k] by auto
  ultimately show ?thesis
    using b1(1,2) b2(1,2) by auto
qed

lemma addr_attr_step:
  assumes inv: "addr_inv f T N fl seen (e, l)" and f: "inet_family f" and "rta_valid buf a" and "addr_rta_ok f a"
    and "label_room a \<le> N" and "l + addr_room f a \<le> T" and "l_info + 8 \<le> length buf"
  shows "\<exists>e'. addr_attr buf l_info f self 0 a (e, l) = Inr (e', l + addr_room f a)
    \<and> addr_inv f T N fl (seen \<or> is_addr a) (e', l + addr_room f a)"
proof -
  consider (addr) "rta_type a = IFA_ADDRESS \<or> rta_type a = IFA_BROADCAST \<or> rta_type a = IFA_LOCAL"
    | (label) "rta_type a = IFA_LABEL"
    | (other) "\<not> (rta_type a = IFA_ADDRESS \<or> rta_type a = IFA_BROADCAST \<or> rta_type a = IFA_LOCAL)"
        "rta_type a \<noteq> IFA_LABEL"
    by blast
  then show ?thesis
  proof cases
    case addr
    then have room: "addr_room f a = sa_len f" and size: "rta_size a = sa_data_len f"
      using assms(4) by (auto simp: addr_room_def is_addr_def addr_rta_ok_def)
    obtain data where d: "bytes_at buf (rta_off a) (rta_size a) = Inr data" "length data = sa_data_len f"
      using assms(3) size bytes_at_ok[of "rta_off a" "rta_size a" buf] by (auto simp: rta_valid_def)
    have "l + sa_len f \<le> length (ifa_block e)" "rta_off a + sa_data_len f \<le> length buf"
      using inv assms(3,6) room size by (auto simp: addr_inv_def rta_valid_def)
    from addr_written[OF f d(2) this assms(7)] obtain b1 b2 where
      b: "makeSockaddr f (ifa_block e) l data = Inr b1" "set_scope buf l_info f a b1 l = Inr b2"
         "length b2 = length (ifa_block e)"
         "\<And>j k. j + k \<le> l \<or> l + sa_len f \<le> j \<Longrightarrow> take k (drop j b2) = take k (drop j (ifa_block e))"
         "take 2 (drop l b2) = le_bytes 2 f" by blast
    have "addr_inv f T N fl seen (e\<lparr>ifa_block := b2\<rparr>, l)"
      using addr_inv_block[OF inv b(3,4)] by simp
    from addr_inv_set_addr[OF this _ _ addr] have
      "addr_inv f T N fl (seen \<or> is_addr a) (set_addr (rta_type a) l (e\<lparr>ifa_block := b2\<rparr>), l + sa_len f)"
      using assms(6) room b(5) by simp
    then show ?thesis
      using addr d(1) b(1,2) room f by (auto simp: addr_attr_def align_sa_len)
  next
    case label
    then have none: "addr_room f a = 0" "\<not> is_addr a"
      by (auto simp: addr_room_def is_addr_def ifa_defs)
    have "rta_size a + 1 \<le> N"
      using assms(3,5) label nl_align_size_ge[of "rta_rem a + 1"] by (simp add: label_room_def rta_valid_def)
    then have "writes (ifa_block e) 0 N (put_name buf a 0 (ifa_block e))"
      using inv assms(3) by (intro writes_put_name) (auto simp: addr_inv_def rta_valid_def)
    then obtain blk' where b: "put_name buf a 0 (ifa_block e) = Inr blk'" "length blk' = length (ifa_block e)"
        "\<And>j k. j + k \<le> 0 \<or> 0 + N \<le> j \<Longrightarrow> take k (drop j blk') = take k (drop j (ifa_block e))"
      by (elim writesE) blast
    have "addr_inv f T N fl seen (e\<lparr>ifa_block := blk'\<rparr>, l)"
      by (rule addr_inv_block[OF inv b(2), where i = 0 and n = N]) (use b(3) in auto)
    then show ?thesis
      using b(1) label none by (auto simp: addr_attr_def addr_inv_def ifa_defs)
  next
    case other
    then show ?thesis
      using inv by (auto simp: addr_attr_def addr_room_def is_addr_def)
  qed
qed

lemma addr_fold:
  assumes "addr_inv f T N fl seen (e, l)" and "inet_family f" and "\<forall>a\<in>set as. rta_valid buf a \<and> addr_rta_ok f a"
    and "sum_list (map label_room as) \<le> N" and "l + sum_list (map (addr_room f) as) + m \<le> T" and "l_info + 8 \<le> length buf"
  shows "\<exists>e' l'. foldE (addr_attr buf l_info f self 0) as (e, l) = Inr (e', l')
    \<and> addr_inv f T N fl (seen \<or> list_ex is_addr as) (e', l') \<and> l' + m \<le> T"
  using assms
proof (induction as arbitrary: e l seen)
  case (Cons a as)
  obtain e' where e': "addr_attr buf l_info f self 0 a (e, l) = Inr (e', l + addr_room f a)"
      "addr_inv f T N fl (seen \<or> is_addr a) (e', l + addr_room f a)"
    using addr_attr_step[OF Cons.prems(1,2), of buf a l_info self] Cons.prems(3-6) by auto
  from Cons.IH[OF e'(2)] Cons.prems(2-6) e'(1) show ?case by (auto simp: disj_assoc)
qed simp

section \<open>The netmask\<close>

lemma fold_update_nth:
  "j < length xs \<Longrightarrow> fold (\<lambda>i m. m[i := v]) [0..<n] xs ! j = (if j < n then v else xs ! j)"
  "length (fold (\<lambda>i m. m[i := v]) [0..<n] xs) = length xs"
proof -
  have len: "length (fold (\<lambda>i m. m[i := v]) [0..<n] xs) = length xs" for n
    by (induction n) simp_all
  show "length (fold (\<lambda>i m. m[i := v]) [0..<n] xs) = length xs" by (rule len)
  show "j < length xs \<Longrightarrow> fold (\<lambda>i m. m[i := v]) [0..<n] xs ! j = (if j < n then v else xs ! j)"
    by (induction n) (auto simp: len nth_list_update less_Suc_eq)
qed

lemma prefix_mask_length [simp]: "length (prefix_mask p) = 16"
  by (simp add: prefix_mask_def Let_def fold_update_nth(2))

lemma partial_byte_bit: "bit (word_of_nat (255 * 2 ^ s) :: byte) k \<longleftrightarrow> s \<le> k \<and> k < 8"
proof -
  have "(word_of_nat (255 * 2 ^ s) :: byte) = push_bit s (mask 8)"
    by (simp add: push_bit_eq_mult mask_eq_exp_minus_1)
  then show ?thesis
    by (auto simp: bit_simps)
qed

lemma prefix_mask_nth:
  assumes "j < 16" and "p \<le> 128"
  shows "prefix_mask p ! j =
    (if j < p div 8 then 255 else if j = p div 8 \<and> p mod 8 \<noteq> 0 then word_of_nat (255 * 2 ^ (8 - p mod 8)) else 0)"
  using assms by (auto simp: prefix_mask_def Let_def fold_update_nth nth_list_update)

lemma byte_255_bit: "bit (255 :: byte) k \<longleftrightarrow> k < 8"
  using partial_byte_bit[of 0 k] by simp

text \<open>
  The netmask \<open>getifaddrs\<close> builds for a prefix length \<open>p\<close> is 16 bytes in which, read
  from the most significant bit of the first byte on, exactly the first \<open>p\<close> bits are set.
\<close>

theorem prefix_mask_bits:
  assumes "p \<le> 128" and "i < 128"
  shows "length (prefix_mask p) = 16 \<and> (bit (prefix_mask p ! (i div 8)) (7 - i mod 8) \<longleftrightarrow> i < p)"
proof -
  have "i div 8 < 16" using assms(2) by simp
  consider "i div 8 < p div 8" | "i div 8 = p div 8" | "p div 8 < i div 8" by linarith
  then have "bit (prefix_mask p ! (i div 8)) (7 - i mod 8) \<longleftrightarrow> i < p"
  proof cases
    case 1
    then have "i < p" by (metis div_le_mono not_le)
    have "prefix_mask p ! (i div 8) = 255"
      using 1 \<open>i div 8 < 16\<close> assms(1) by (simp add: prefix_mask_nth)
    then show ?thesis unfolding byte_255_bit using \<open>i < p\<close> by (simp only: byte_255_bit) simp
  next
    case 2
    have "i < p \<longleftrightarrow> i mod 8 < p mod 8"
      using 2 div_mult_mod_eq[of i 8] div_mult_mod_eq[of p 8] by linarith
    moreover have "8 - p mod 8 \<le> 7 - i mod 8 \<longleftrightarrow> i mod 8 < p mod 8" if "p mod 8 \<noteq> 0"
      using that mod_less_divisor[of 8 i] mod_less_divisor[of 8 p] by linarith
    moreover have "prefix_mask p ! (i div 8) =
        (if p mod 8 \<noteq> 0 then word_of_nat (255 * 2 ^ (8 - p mod 8)) else 0)"
      using 2 prefix_mask_nth[OF \<open>i div 8 < 16\<close> assms(1)] by (simp only: less_irrefl if_False simp_thms)
    ultimately show ?thesis
      by (cases "p mod 8 = 0") (simp_all only: partial_byte_bit if_True if_False simp_thms, auto)
  next
    case 3
    then have "\<not> i < p" by (metis div_le_mono less_imp_le not_le)
    with 3 show ?thesis using \<open>i div 8 < 16\<close> assms(1) by (simp add: prefix_mask_nth)
  qed
  then show ?thesis by simp
qed

theorem prefix_mask_bits_witness:
  "bit (prefix_mask 20 ! 2) 4 \<and> \<not> bit (prefix_mask 20 ! 2) 3"
  using prefix_mask_bits[of 20 19] prefix_mask_bits[of 20 20] by simp

text \<open>The family that is read back from the first two bytes of an address.\<close>

lemma rd_family:
  assumes "take 2 (drop p blk) = le_bytes 2 f" and "p + 2 \<le> length blk" and "inet_family f"
  shows "rd_le 2 blk p = Inr f"
proof -
  have "le_nat (le_bytes 2 f) = f"
    using assms(3) by (intro le_nat_bytes) (auto simp: inet_family_def af_defs)
  then show ?thesis using assms(1,2) by (simp add: rd_le_Inr)
qed

text \<open>What an address entry promises, \<open>pl\<close> being the prefix length of the message.\<close>

definition addr_entry_ok :: "nat \<Rightarrow> nat \<Rightarrow> ifaddrs \<Rightarrow> bool" where
  "addr_entry_ok f pl e \<longleftrightarrow>
     (\<forall>p. ifa_addr e = Some p \<or> ifa_dstaddr e = Some p \<or> ifa_netmask e = Some p \<longrightarrow>
        p + sa_len f \<le> length (ifa_block e) \<and> take 2 (drop p (ifa_block e)) = le_bytes 2 f)
     \<and> (\<forall>p. ifa_netmask e = Some p \<longrightarrow>
          take (sa_data_len f) (drop (p + sa_data_off f) (ifa_block e)) =
          take (sa_data_len f) (prefix_mask (min pl (8 * sa_data_len f))))
     \<and> (ifa_netmask e = None \<longleftrightarrow> ifa_addr e = None)"

lemma add_netmask_ok:
  assumes inv: "addr_inv f T N fl seen (e, l)" and f: "inet_family f" and "seen \<longrightarrow> l + sa_len f \<le> T"
  shows "\<exists>e'. add_netmask pl e l = Inr e' \<and> addr_entry_ok f pl e' \<and> ifa_flags e' = fl
    \<and> (ifa_addr e' \<noteq> None \<longleftrightarrow> seen)"
proof (cases "ifa_addr e")
  case None
  then have "addr_entry_ok f pl e"
    using inv unfolding addr_entry_ok_def addr_inv_def by fastforce
  then show ?thesis using None inv by (auto simp: add_netmask_def addr_inv_def)
next
  case (Some q)
  have T: "length (ifa_block e) = T" and nm: "ifa_netmask e = None" and seen
    and ptr: "\<And>p. ifa_addr e = Some p \<or> ifa_dstaddr e = Some p \<Longrightarrow>
        p + sa_len f \<le> l \<and> take 2 (drop p (ifa_block e)) = le_bytes 2 f"
    using inv Some by (auto simp: addr_inv_def)
  then have room: "l + sa_len f \<le> T" using assms(3) by simp
  have len2: "2 \<le> sa_len f" by (simp add: sa_len_def)
  have fam: "rd_le 2 (ifa_block e) q = Inr f"
    using ptr[of q] Some room T len2 by (intro rd_family[OF _ _ f]) auto
  let ?mask = "take (sa_data_len f) (prefix_mask (min pl (8 * sa_data_len f)))"
  have "length ?mask = sa_data_len f" by (simp add: sa_data_len_def)
  have "writes (ifa_block e) l (sa_len f) (makeSockaddr f (ifa_block e) l ?mask)"
    using f room T by (intro writes_makeSockaddr) (auto simp: inet_family_def sa_defs calcAddrLen_def af_defs)
  then obtain b where b: "makeSockaddr f (ifa_block e) l ?mask = Inr b" "length b = T"
      "\<And>j k. j + k \<le> l \<or> l + sa_len f \<le> j \<Longrightarrow> take k (drop j b) = take k (drop j (ifa_block e))"
    using T by (elim writesE) auto
  let ?e = "e\<lparr>ifa_block := b, ifa_netmask := Some l\<rparr>"
  have "add_netmask pl e l = Inr ?e"
    using Some fam b(1) f
    by (auto simp: add_netmask_def inet_family_def sa_data_len_def af_defs min_def Let_def split: if_splits)
  moreover have "take 2 (drop p b) = le_bytes 2 f" if "p + sa_len f \<le> l" "take 2 (drop p (ifa_block e)) = le_bytes 2 f" for p
    using b(3)[of p 2] that len2 by simp
  then have "addr_entry_ok f pl ?e"
    using ptr room b(2) Some makeSockaddr_family[OF b(1)] makeSockaddr_data[OF b(1) f] \<open>length ?mask = sa_data_len f\<close>
    unfolding addr_entry_ok_def by fastforce
  ultimately show ?thesis
    using inv Some by (auto simp: addr_inv_def)
qed

lemma take1_nth: "i < length xs \<Longrightarrow> le_nat (take 1 (drop i xs)) = unat (xs ! i)"
  by (simp add: Cons_nth_drop_Suc[symmetric])

text \<open>The kernel's contract on the level of the message.\<close>

definition addr_attrs_ok :: "nat \<Rightarrow> (nat \<times> byte list) list \<Rightarrow> bool" where
  "addr_attrs_ok f as \<longleftrightarrow>
     (\<forall>a\<in>set as. fst a = IFA_ADDRESS \<or> fst a = IFA_LOCAL \<or> fst a = IFA_BROADCAST \<longrightarrow> length (snd a) = sa_data_len f)"

lemma rta_walk_addr_ok: "addr_attrs_ok f as \<Longrightarrow> \<forall>a\<in>set (rta_walk off as). addr_rta_ok f a"
  by (induction as arbitrary: off) (auto simp: addr_attrs_ok_def addr_rta_ok_def is_addr_def)

lemma rta_walk_has_addr:
  "list_ex is_addr (rta_walk off as) \<longleftrightarrow> (\<exists>a\<in>set as. fst a = IFA_ADDRESS \<or> fst a = IFA_LOCAL)"
  by (induction as arbitrary: off) (auto simp: is_addr_def)

lemma interpretAddr_ok:
  assumes "payload_at buf hdr info as" and "length info = 8" and "\<forall>n. mem_ok n"
    and f: "f = unat (info ! 0)" "inet_family f" and "addr_attrs_ok f as"
    and ifc: "findInterface (to_int32 (le_nat (take 4 (drop 4 info)))) res n = Inr ifc"
  shows "\<exists>e. interpretAddr mem_ok junk buf hdr n res = Inr (0, res @ [e]) \<and> addr_entry_ok f (unat (info ! 1)) e
    \<and> ifa_flags e = (case ifc of Some i \<Rightarrow> or (unat (info ! 2)) (ifa_flags (res ! i)) | None \<Rightarrow> unat (info ! 2))
    \<and> (ifa_addr e \<noteq> None \<longleftrightarrow> (\<exists>a\<in>set as. fst a = IFA_ADDRESS \<or> fst a = IFA_LOCAL))"
proof -
  have "length info < 2000" using assms(2) by simp
  then obtain pre hd16 post where buf: "buf = pre @ hd16 @ info @ concat (map enc_rta as) @ post"
      and h: "length hd16 = 16" and hdr: "hdr = length pre"
      and len0: "nlmsg_len buf hdr = Inr (16 + length info + length (concat (map enc_rta as)))"
    using payload_at_split[OF assms(1)] by blast
  have len: "nlmsg_len buf hdr = Inr (24 + length (concat (map enc_rta as)))"
    using len0 unfolding assms(2) by simp
  let ?rtas = "rta_walk (hdr + 24) as"
  have small: "length (concat (map enc_rta as)) < 2147483000" and ok: "\<forall>a\<in>set as. rta_ok a"
    using assms(1) by (simp_all add: payload_at_def)
  have rtas: "rta_list buf (hdr + 16 + 8) (length (concat (map enc_rta as))) = Inr ?rtas"
    using rta_list_walk[OF ok, of buf "pre @ hd16 @ info" post "hdr + 24"] small buf h hdr assms(2)
    by (simp add: add.assoc)
  have valid: "\<forall>a\<in>set ?rtas. rta_valid buf a \<and> addr_rta_ok f a"
    using rta_walk_valid[of as buf "pre @ hd16 @ info" post "hdr + 24"] rta_walk_addr_ok[OF assms(6)]
      small buf h hdr assms(2) by simp
  have field: "rd_le k buf (hdr + 16 + i) = Inr (le_nat (take k (drop i info)))" if "i + k \<le> 8" for i k
    using bytes_at_info[OF buf h, of i k] that assms(2) hdr by (simp add: rd_le_def)
  have fam: "rd_le 1 buf (hdr + 16) = Inr f" and pl: "rd_le 1 buf (hdr + 16 + 1) = Inr (unat (info ! 1))"
    and fl: "rd_le 1 buf (hdr + 16 + 2) = Inr (unat (info ! 2))"
    and ix: "rd_le 4 buf (hdr + 16 + 4) = Inr (le_nat (take 4 (drop 4 info)))"
    using field[of 0 1] field[of 1 1] field[of 2 1] field[of 4 4] assms(2) f(1)
      take1_nth[of 0 info] take1_nth[of 1 info] take1_nth[of 2 info] by auto
  define N A M where nam: "N = sum_list (map label_room ?rtas)" "A = sum_list (map (addr_room f) ?rtas)"
    "M = (if list_ex is_addr ?rtas then sa_len f else 0)"
  let ?fl = "case ifc of Some i \<Rightarrow> or (unat (info ! 2)) (ifa_flags (res ! i)) | None \<Rightarrow> unat (info ! 2)"
  let ?e = "\<lparr>ifa_name = (case ifc of Some i \<Rightarrow> ifa_name (res ! i) | None \<Rightarrow> EmptyName), ifa_flags = ?fl,
      ifa_addr = None, ifa_netmask = None, ifa_dstaddr = None, ifa_data = None,
      ifa_block = replicate (N + (A + M)) junk\<rparr>"
  have "addr_inv f (N + A + M) N ?fl False (?e, N)"
    by (simp add: addr_inv_def)
  from addr_fold[OF this f(2) valid, of M "hdr + 16" "length res"] obtain e l where
    st: "foldE (addr_attr buf (hdr + 16) f (length res) 0) ?rtas (?e, N) = Inr (e, l)"
        "addr_inv f (N + A + M) N ?fl (list_ex is_addr ?rtas) (e, l)" "l + M \<le> N + A + M"
    using nam buf h hdr assms(2) by auto
  from add_netmask_ok[OF st(2) f(2), of "unat (info ! 1)"] st(3) obtain e' where
    e': "add_netmask (unat (info ! 1)) e l = Inr e'" "addr_entry_ok f (unat (info ! 1)) e'" "ifa_flags e' = ?fl"
        "ifa_addr e' \<noteq> None \<longleftrightarrow> list_ex is_addr ?rtas"
    using nam(3) by auto
  have "f \<noteq> AF_PACKET" using f(2) by (auto simp: inet_family_def af_defs)
  then have "interpretAddr mem_ok junk buf hdr n res = Inr (0, res @ [e'])"
    using ix ifc fam pl fl len rtas small assms(3) st(1) e'(1)
    by (simp add: interpretAddr_def Let_def fold_addr_size[OF f(2)] nam[symmetric] addToEnd_def)
  with e'(2-4) rta_walk_has_addr show ?thesis by auto
qed

text \<open>
  C27: A well-formed IPv4 or IPv6 address message is interpreted without leaving the
  message or the allocated entry: \<open>interpretAddr\<close> appends one entry with the flags of the
  message and of its interface; every pointer of the entry (address, destination or
  broadcast, netmask) leads to a complete socket address of the message's family inside
  the entry; an address is present exactly if the message has one, and then so is a
  netmask, which holds the (capped) prefix length as a bit mask.
\<close>

theorem interpretAddr_correct:
  assumes "payload_at buf hdr info as" and "length info = 8" and "\<forall>n. mem_ok n"
    and "f = unat (info ! 0)" and "inet_family f" and "addr_attrs_ok f as"
    and "findInterface (to_int32 (le_nat (take 4 (drop 4 info)))) res n = Inr ifc"
  shows "\<exists>e. interpretAddr mem_ok junk buf hdr n res = Inr (0, res @ [e]) \<and> addr_entry_ok f (unat (info ! 1)) e
    \<and> ifa_flags e = (case ifc of Some i \<Rightarrow> or (unat (info ! 2)) (ifa_flags (res ! i)) | None \<Rightarrow> unat (info ! 2))
    \<and> (ifa_addr e \<noteq> None \<longleftrightarrow> (\<exists>a\<in>set as. fst a = IFA_ADDRESS \<or> fst a = IFA_LOCAL))"
  by (rule interpretAddr_ok[OF assms])

definition addr_info_lo :: "byte list" where
  "addr_info_lo = [2, 8, 128, 254, 1, 0, 0, 0]"

definition addr_attrs_lo :: "(nat \<times> byte list) list" where
  "addr_attrs_lo = [(1, [127, 0, 0, 1]), (2, [127, 0, 0, 1]), (3, [108, 111, 0])]"

definition addr_msg_lo :: nlmsg where
  "addr_msg_lo = \<lparr>n_type = 20, n_flags = 2, n_seq = 7, n_pid = 1,
     n_payload = addr_info_lo @ concat (map enc_rta addr_attrs_lo)\<rparr>"

theorem interpretAddr_correct_witness:
  "\<exists>e. interpretAddr (\<lambda>n. True) 170 (enc_msg addr_msg_lo) 0 0 [] = Inr (0, [e]) \<and> addr_entry_ok 2 8 e
     \<and> ifa_addr e \<noteq> None"
proof -
  have p: "payload_at (enc_msg addr_msg_lo) 0 addr_info_lo addr_attrs_lo"
    by (rule payload_at_single) (simp_all add: addr_msg_lo_def rta_ok_def addr_attrs_lo_def rta_align_def)
  have "addr_attrs_ok 2 addr_attrs_lo" "inet_family 2"
    by (simp_all add: addr_attrs_ok_def addr_attrs_lo_def sa_data_len_def ifa_defs af_defs inet_family_def)
  moreover have "length addr_info_lo = 8" "2 = unat (addr_info_lo ! 0)" "unat (addr_info_lo ! 1) = 8"
    by (simp_all add: addr_info_lo_def)
  moreover have "findInterface (to_int32 (le_nat (take 4 (drop 4 addr_info_lo)))) [] 0 = Inr None"
    by (simp add: findInterface_def)
  moreover have "\<exists>a\<in>set addr_attrs_lo. fst a = IFA_ADDRESS \<or> fst a = IFA_LOCAL"
    by (simp add: addr_attrs_lo_def ifa_defs)
  ultimately show ?thesis
    using interpretAddr_correct[OF p, of "\<lambda>n. True" 2 "[]" 0 None 170] by (metis append_Nil)
qed

text \<open>
  \<open>getifaddrs\<close> cleans up after itself on every path: whenever it returns, with a
  result or with an error, the socket is closed and every transport block it allocated
  has been freed (given that the 24-byte list items can be allocated).
\<close>

theorem getifaddrs_cleans_up:
  assumes "getifaddrs ifap mem_ok junk sock bnd sendto evs = Inr r" and "mem_ok 24"
  shows "gr_live r = 0 \<and> \<not> gr_open r \<and> (gr_ret r = 0 \<or> gr_ret r = -1)"
proof -
  have live: "live' = live + (case res of None \<Rightarrow> 0 | Some l \<Rightarrow> 2 * int (length l))"
    if "getResultList mem_ok junk sendto s req live evs = Inr (res, live', evs')" for s req live evs res live' evs'
    using getResultList_live[OF that] assms(2) by (auto split: option.splits)
  obtain fd cl where fd: "netlink_socket sock bnd = (fd, cl)" by (cases "netlink_socket sock bnd")
  show ?thesis
  proof (cases "ifap \<and> \<not> fd < 0")
    case False
    then show ?thesis using assms(1) fd by (cases ifap) (auto simp: getifaddrs_def Let_def)
  next
    case True
    then obtain r1 l1 evs1 where 1: "getResultList mem_ok junk sendto fd RTM_GETLINK 0 evs = Inr (r1, l1, evs1)"
      using assms(1) fd by (auto simp: getifaddrs_def Let_def bindE_eq_Inr)
    show ?thesis
    proof (cases r1)
      case None
      then show ?thesis using assms(1) fd True 1 live[OF 1] by (auto simp: getifaddrs_def Let_def)
    next
      case r1: (Some links)
      then obtain r2 l2 evs2 where 2: "getResultList mem_ok junk sendto fd RTM_GETADDR l1 evs1 = Inr (r2, l2, evs2)"
        using assms(1) fd True 1 by (auto simp: getifaddrs_def Let_def bindE_eq_Inr)
      show ?thesis
        using assms(1) fd True 1 r1 2 live[OF 1] live[OF 2]
        by (cases r2)
          (auto simp: getifaddrs_def Let_def bindE_eq_Inr freeResultList_def case_prod_beta split: if_splits)
    qed
  qed
qed

theorem getifaddrs_cleans_up_witness:
  "getifaddrs True (\<lambda>n. True) 0 3 (-1) (\<lambda>d. 17) [] =
     Inr \<lparr>gr_ret = -1, gr_list = [], gr_live = 0, gr_open = False\<rparr>
   \<and> gr_live \<lparr>gr_ret = -1, gr_list = [], gr_live = 0, gr_open = False\<rparr> = 0"
proof -
  have "getifaddrs True (\<lambda>n. True) 0 3 (-1) (\<lambda>d. 17) [] =
     Inr \<lparr>gr_ret = -1, gr_list = [], gr_live = 0, gr_open = False\<rparr>"
    by (simp add: getifaddrs_def netlink_socket_def Let_def)
  from conjI[OF this conjunct1[OF getifaddrs_cleans_up[OF this]]] show ?thesis by simp
qed

end
