(* ===== verification/Enumeration.thy ===== *)
theory Enumeration
  imports Ifaddrs
begin

text \<open>
  \<open>getifaddrs\<close> from end to end: the transport of \<open>Netlink\<close> and the interpretation of
  \<open>Ifaddrs\<close> composed, on the dumps a kernel sends (a list of link messages, then a list
  of address messages, each closed by \<open>NLMSG_DONE\<close>).
\<close>

section \<open>Finding an interface\<close>

text \<open>The search succeeds on entries that carry an index, and finds the first match among the links.\<close>

lemma find_loop_correct:
  assumes "\<forall>e\<in>set (take m es). 4 \<le> length (ifa_block e)"
  shows "\<exists>r. find_loop idx k (int (k + m)) es = Inr r
    \<and> (case r of
         None \<Rightarrow> \<forall>e\<in>set (take m es). to_int32 (le_nat (take 4 (ifa_block e))) \<noteq> idx
       | Some i \<Rightarrow> k \<le> i \<and> i < k + min m (length es)
           \<and> to_int32 (le_nat (take 4 (ifa_block (es ! (i - k))))) = idx)"
  using assms
proof (induction es arbitrary: k m)
  case (Cons e es)
  show ?case
  proof (cases m)
    case (Suc m')
    have rd: "rd_le 4 (ifa_block e) 0 = Inr (le_nat (take 4 (ifa_block e)))"
      using Cons.prems Suc by (simp add: rd_le_Inr)
    from Cons.IH[of m' "Suc k"] Cons.prems Suc obtain r where
      r: "find_loop idx (Suc k) (int (k + m)) es = Inr r"
         "case r of
         None \<Rightarrow> \<forall>e\<in>set (take m' es). to_int32 (le_nat (take 4 (ifa_block e))) \<noteq> idx
       | Some i \<Rightarrow> Suc k \<le> i \<and> i < Suc k + min m' (length es)
           \<and> to_int32 (le_nat (take 4 (ifa_block (es ! (i - Suc k))))) = idx"
      using Suc by auto
    show ?thesis
    proof (cases "to_int32 (le_nat (take 4 (ifa_block e))) = idx")
      case True
      then show ?thesis using rd Suc by auto
    next
      case False
      have "(e # es) ! (i - k) = es ! (i - Suc k)" if "Suc k \<le> i" for i
        using that by (simp add: nth_Cons')
      then show ?thesis
        using False rd r Suc by (auto split: option.splits)
    qed
  qed simp
qed simp

lemma findInterface_total:
  assumes "\<forall>e\<in>set (take m res). 4 \<le> length (ifa_block e)"
  shows "\<exists>r. findInterface idx res (int m) = Inr r"
  using find_loop_correct[OF assms, of idx 0] by (auto simp: findInterface_def)

section \<open>Link dumps\<close>

text \<open>A link message of the kernel: addressed to the socket, an \<open>ifinfomsg\<close> and attributes.\<close>

definition link_wf :: "int \<Rightarrow> nlmsg \<Rightarrow> bool" where
  "link_wf p_socket m \<longleftrightarrow> msg_ok m \<and> n_type m = RTM_NEWLINK \<and> to_int32 (n_seq m) = p_socket
     \<and> (\<exists>info as. n_payload m = info @ concat (map enc_rta as) \<and> length info = 16
          \<and> (\<forall>a\<in>set as. rta_ok a) \<and> length (concat (map enc_rta as)) < 2147483000)"

definition done_wf :: "int \<Rightarrow> nlmsg \<Rightarrow> bool" where
  "done_wf p_socket m \<longleftrightarrow> msg_ok m \<and> n_type m = NLMSG_DONE \<and> to_int32 (n_seq m) = p_socket"

text \<open>The entry of a link message: index and flags are those of the message.\<close>

definition link_entry :: "nlmsg \<Rightarrow> ifaddrs \<Rightarrow> bool" where
  "link_entry m e \<longleftrightarrow> take 4 (ifa_block e) = take 4 (drop 4 (n_payload m))
     \<and> 4 \<le> length (ifa_block e)
     \<and> ifa_flags e = le_nat (take 4 (drop 8 (n_payload m)))"

lemma link_body_step:
  assumes "buf = pre @ enc_msg m @ post" and "off = length pre" and "link_wf p_socket m" and "\<forall>n. mem_ok n"
  shows "\<exists>e. link_body mem_ok junk p_socket buf off (res, k) = Inr (Continue (res @ [e], k + 1)) \<and> link_entry m e"
proof -
  obtain info as where m: "n_payload m = info @ concat (map enc_rta as)" "length info = 16"
      "\<forall>a\<in>set as. rta_ok a" "length (concat (map enc_rta as)) < 2147483000"
    using assms(3) by (auto simp: link_wf_def)
  then have "payload_at buf off info as"
    using assms(1,2) unfolding payload_at_def by blast
  from interpretLink_ok[OF this m(2) assms(4), of junk res] obtain e l N A D where
    e: "interpretLink mem_ok junk buf off res = Inr (0, res @ [e])"
       "link_inv N A D (take 4 (drop 4 info)) (le_nat (take 4 (drop 8 info))) (length res) (e, l)" by auto
  have "link_entry m e"
    using e(2) m(1,2) by (simp add: link_entry_def link_inv_def)
  moreover have "link_body mem_ok junk p_socket buf off (res, k) = Inr (Continue (res @ [e], k + 1))"
    using assms(1-3) e(1)
    by (simp add: link_body_def nlmsg_seq_at nlmsg_type_at link_wf_def nl_consts)
  ultimately show ?thesis by blast
qed

lemma link_body_done:
  assumes "buf = pre @ enc_msg m @ post" and "off = length pre" and "done_wf p_socket m"
  shows "link_body mem_ok junk p_socket buf off st = Inr (Break st)"
  using assms by (cases st) (simp add: link_body_def nlmsg_seq_at nlmsg_type_at done_wf_def)

lemma link_fold_messages:
  assumes "\<forall>m\<in>set ms. link_wf p_socket m" and "done_wf p_socket dn" and "\<forall>n. mem_ok n"
    and "buf = pre @ concat (map enc_msg (ms @ [dn])) @ post" and "off = length pre"
  shows "\<exists>es. nl_fold (link_body mem_ok junk p_socket buf) off (ms @ [dn]) (res, k)
      = Inr (Inl (res @ es, k + int (length ms))) \<and> list_all2 link_entry ms es"
  using assms
proof (induction ms arbitrary: pre off res k)
  case Nil
  then show ?case by (simp add: link_body_done)
next
  case (Cons m ms)
  obtain e where e: "link_body mem_ok junk p_socket buf off (res, k) = Inr (Continue (res @ [e], k + 1))" "link_entry m e"
    using link_body_step[of buf pre m "concat (map enc_msg (ms @ [dn])) @ post" off p_socket mem_ok junk res k] Cons.prems by auto
  have "\<exists>es. nl_fold (link_body mem_ok junk p_socket buf) (off + msg_size m) (ms @ [dn]) (res @ [e], k + 1)
      = Inr (Inl ((res @ [e]) @ es, k + 1 + int (length ms))) \<and> list_all2 link_entry ms es"
    by (rule Cons.IH[where pre = "pre @ enc_msg m"]) (use Cons.prems in simp_all)
  then obtain es where "nl_fold (link_body mem_ok junk p_socket buf) (off + msg_size m) (ms @ [dn]) (res @ [e], k + 1)
      = Inr (Inl ((res @ [e]) @ es, k + 1 + int (length ms)))" "list_all2 link_entry ms es" by blast
  then show ?case
    using e by (intro exI[of _ "e # es"]) (simp add: add.assoc)
qed

section \<open>Address dumps\<close>

definition addr_wf :: "int \<Rightarrow> nlmsg \<Rightarrow> bool" where
  "addr_wf p_socket m \<longleftrightarrow> msg_ok m \<and> n_type m = RTM_NEWADDR \<and> to_int32 (n_seq m) = p_socket
     \<and> (\<exists>info as. n_payload m = info @ concat (map enc_rta as) \<and> length info = 8
          \<and> inet_family (unat (info ! 0)) \<and> addr_attrs_ok (unat (info ! 0)) as
          \<and> (\<forall>a\<in>set as. rta_ok a) \<and> length (concat (map enc_rta as)) < 2147483000)"

definition addr_entry :: "nlmsg \<Rightarrow> ifaddrs \<Rightarrow> bool" where
  "addr_entry m e \<longleftrightarrow> addr_entry_ok (unat (n_payload m ! 0)) (unat (n_payload m ! 1)) e"

lemma addr_body_step:
  assumes "buf = pre @ enc_msg m @ post" and "off = length pre" and "addr_wf p_socket m" and "\<forall>n. mem_ok n"
    and "\<forall>e\<in>set (take n res). 4 \<le> length (ifa_block e)"
  shows "\<exists>e. addr_body mem_ok junk p_socket (int n) buf off res = Inr (Continue (res @ [e])) \<and> addr_entry m e"
proof -
  obtain info as where m: "n_payload m = info @ concat (map enc_rta as)" "length info = 8"
      "inet_family (unat (info ! 0))" "addr_attrs_ok (unat (info ! 0)) as"
      "\<forall>a\<in>set as. rta_ok a" "length (concat (map enc_rta as)) < 2147483000"
    using assms(3) by (auto simp: addr_wf_def)
  then have p: "payload_at buf off info as"
    using assms(1,2) unfolding payload_at_def by blast
  obtain ifc where "findInterface (to_int32 (le_nat (take 4 (drop 4 info)))) res (int n) = Inr ifc"
    using findInterface_total[OF assms(5)] by blast
  from interpretAddr_ok[OF p m(2) assms(4) refl m(3,4) this, of junk] obtain e where
    e: "interpretAddr mem_ok junk buf off (int n) res = Inr (0, res @ [e])"
       "addr_entry_ok (unat (info ! 0)) (unat (info ! 1)) e" by blast
  have "addr_entry m e"
    using e(2) m(1,2) by (simp add: addr_entry_def nth_append)
  moreover have "addr_body mem_ok junk p_socket (int n) buf off res = Inr (Continue (res @ [e]))"
    using assms(1-3) e(1)
    by (simp add: addr_body_def nlmsg_seq_at nlmsg_type_at addr_wf_def nl_consts)
  ultimately show ?thesis by blast
qed

lemma addr_body_done:
  assumes "buf = pre @ enc_msg m @ post" and "off = length pre" and "done_wf p_socket m"
  shows "addr_body mem_ok junk p_socket n buf off res = Inr (Break res)"
  using assms by (simp add: addr_body_def nlmsg_seq_at nlmsg_type_at done_wf_def)

lemma addr_fold_messages:
  assumes "\<forall>m\<in>set ms. addr_wf p_socket m" and "done_wf p_socket dn" and "\<forall>n. mem_ok n"
    and "\<forall>e\<in>set (take n res). 4 \<le> length (ifa_block e)" and "n \<le> length res"
    and "buf = pre @ concat (map enc_msg (ms @ [dn])) @ post" and "off = length pre"
  shows "\<exists>es. nl_fold (addr_body mem_ok junk p_socket (int n) buf) off (ms @ [dn]) res
      = Inr (Inl (res @ es)) \<and> list_all2 addr_entry ms es"
  using assms
proof (induction ms arbitrary: pre off res)
  case Nil
  then show ?case by (simp add: addr_body_done)
next
  case (Cons m ms)
  obtain e where e: "addr_body mem_ok junk p_socket (int n) buf off res = Inr (Continue (res @ [e]))" "addr_entry m e"
    using addr_body_step[of buf pre m "concat (map enc_msg (ms @ [dn])) @ post" off p_socket mem_ok n res junk]
      Cons.prems by auto
  have "\<exists>es. nl_fold (addr_body mem_ok junk p_socket (int n) buf) (off + msg_size m) (ms @ [dn]) (res @ [e])
      = Inr (Inl ((res @ [e]) @ es)) \<and> list_all2 addr_entry ms es"
    by (rule Cons.IH[where pre = "pre @ enc_msg m"]) (use Cons.prems in simp_all)
  then obtain es where "nl_fold (addr_body mem_ok junk p_socket (int n) buf) (off + msg_size m) (ms @ [dn]) (res @ [e])
      = Inr (Inl ((res @ [e]) @ es))" "list_all2 addr_entry ms es" by blast
  then show ?case
    using e by (intro exI[of _ "e # es"]) simp
qed

section \<open>One dump in one datagram\<close>

definition dump_wf :: "(int \<Rightarrow> nlmsg \<Rightarrow> bool) \<Rightarrow> int \<Rightarrow> nlmsg list \<Rightarrow> nlmsg \<Rightarrow> bool" where
  "dump_wf msg_wf p_socket ms dn \<longleftrightarrow> (\<forall>m\<in>set ms. msg_wf p_socket m) \<and> done_wf p_socket dn
     \<and> length (concat (map enc_msg (ms @ [dn]))) \<le> 4096"

definition dump_block :: "byte \<Rightarrow> nlmsg list \<Rightarrow> nlmsg \<Rightarrow> byte list" where
  "dump_block junk ms dn =
     concat (map enc_msg (ms @ [dn])) @ replicate (4096 - length (concat (map enc_msg (ms @ [dn])))) junk"

lemma final_msg_dump:
  "\<forall>m\<in>set ms. n_type m \<noteq> NLMSG_DONE \<and> n_type m \<noteq> NLMSG_ERROR \<Longrightarrow> done_wf p_socket dn \<Longrightarrow>
     final_msg p_socket (ms @ [dn]) = Some dn"
  by (induction ms) (auto simp: final_msg_def done_wf_def)

lemma getResultList_dump:
  assumes "dump_wf msg_wf p_socket ms dn" and "\<forall>n. mem_ok n" and "\<forall>d. 0 \<le> sendto d"
    and "\<And>m. msg_wf p_socket m \<Longrightarrow> msg_ok m \<and> n_type m \<noteq> NLMSG_DONE \<and> n_type m \<noteq> NLMSG_ERROR"
  shows "getResultList mem_ok junk sendto p_socket req live (RecvData (concat (map enc_msg (ms @ [dn]))) # evs)
    = Inr (Some [(dump_block junk ms dn, length (concat (map enc_msg (ms @ [dn]))))], live + 2, evs)"
proof -
  have "\<forall>m\<in>set (ms @ [dn]). msg_ok m" and "n_type dn = NLMSG_DONE"
    and fin: "final_msg p_socket (ms @ [dn]) = Some dn"
    using assms(1,4) by (auto simp: dump_wf_def done_wf_def intro!: final_msg_dump)
  from getNetlinkResponse_datagram[OF this(1), of mem_ok junk p_socket evs] this(2) fin assms(1,2)
  have resp: "getNetlinkResponse mem_ok junk p_socket 4096 (RecvData (concat (map enc_msg (ms @ [dn]))) # evs)
      = Inr (Some (dump_block junk ms dn, length (concat (map enc_msg (ms @ [dn])))), True, evs)"
    by (simp only: dump_wf_def dump_block_def Let_def option.case if_True simp_thms)
  have "\<not> sendto (netlink_request p_socket req) < 0"
    using assms(3) by (simp add: not_less)
  then show ?thesis
    using resp assms(2) by (simp add: getResultList_def netlink_send_def result_loop.simps newListItem_def del: map_append concat_append)
qed

abbreviation dump :: "nlmsg list \<Rightarrow> nlmsg \<Rightarrow> byte list" where
  "dump ms dn \<equiv> concat (map enc_msg (ms @ [dn]))"

lemma dump_walk:
  assumes "dump_wf msg_wf p_socket ms dn" and "\<And>m. msg_wf p_socket m \<Longrightarrow> msg_ok m"
  shows "nl_loop body (dump_block junk ms dn) 0 (length (dump ms dn)) st = nl_fold body 0 (ms @ [dn]) st"
proof (rule nl_loop_walk[where pre = "[]" and post = "replicate (4096 - length (dump ms dn)) junk"])
  show "\<forall>m\<in>set (ms @ [dn]). msg_ok m"
    using assms by (auto simp: dump_wf_def done_wf_def)
  show "length (dump ms dn) + 3 < 4294967296"
    using assms(1) unfolding dump_wf_def by linarith
  show "dump_block junk ms dn = [] @ dump ms dn @ replicate (4096 - length (dump ms dn)) junk"
    by (simp only: dump_block_def append_Nil)
qed simp

lemma link_wf_ok: "link_wf p_socket m \<Longrightarrow> msg_ok m"
  by (simp add: link_wf_def)

lemma addr_wf_ok: "addr_wf p_socket m \<Longrightarrow> msg_ok m"
  by (simp add: addr_wf_def)

lemma interpretLinks_dump:
  assumes "dump_wf link_wf p_socket ms dn" and "\<forall>n. mem_ok n"
  shows "\<exists>es. interpretLinks mem_ok junk p_socket [(dump_block junk ms dn, length (dump ms dn))] []
    = Inr (int (length ms), es) \<and> list_all2 link_entry ms es"
proof -
  let ?b = "dump_block junk ms dn"
  have "\<exists>es. nl_fold (link_body mem_ok junk p_socket ?b) 0 (ms @ [dn]) ([], 0)
      = Inr (Inl ([] @ es, 0 + int (length ms))) \<and> list_all2 link_entry ms es"
    by (rule link_fold_messages[where pre = "[]" and post = "replicate (4096 - length (dump ms dn)) junk"])
      (use assms in \<open>simp_all add: dump_wf_def dump_block_def\<close>)
  then obtain es where es: "nl_fold (link_body mem_ok junk p_socket ?b) 0 (ms @ [dn]) ([], 0)
      = Inr (Inl (es, int (length ms)))" "list_all2 link_entry ms es" by auto
  have "nl_loop (link_body mem_ok junk p_socket ?b) ?b 0 (length (dump ms dn)) ([], 0) = Inr (Inl (es, int (length ms)))"
    by (rule trans[OF dump_walk[OF assms(1)] es(1)]) (rule link_wf_ok)
  then show ?thesis
    using es(2) by (auto simp: interpretLinks_def simp del: map_append concat_append length_append)
qed

lemma interpretAddrs_dump:
  assumes "dump_wf addr_wf p_socket ms dn" and "\<forall>n. mem_ok n"
    and "\<forall>e\<in>set (take n res). 4 \<le> length (ifa_block e)" and "n \<le> length res"
  shows "\<exists>es. interpretAddrs mem_ok junk p_socket (int n) [(dump_block junk ms dn, length (dump ms dn))] res
    = Inr (0, res @ es) \<and> list_all2 addr_entry ms es"
proof -
  let ?b = "dump_block junk ms dn"
  have "\<exists>es. nl_fold (addr_body mem_ok junk p_socket (int n) ?b) 0 (ms @ [dn]) res
      = Inr (Inl (res @ es)) \<and> list_all2 addr_entry ms es"
    by (rule addr_fold_messages[where pre = "[]" and post = "replicate (4096 - length (dump ms dn)) junk"])
      (use assms in \<open>simp_all add: dump_wf_def dump_block_def\<close>)
  then obtain es where es: "nl_fold (addr_body mem_ok junk p_socket (int n) ?b) 0 (ms @ [dn]) res
      = Inr (Inl (res @ es))" "list_all2 addr_entry ms es" by blast
  have "nl_loop (addr_body mem_ok junk p_socket (int n) ?b) ?b 0 (length (dump ms dn)) res = Inr (Inl (res @ es))"
    by (rule trans[OF dump_walk[OF assms(1)] es(1)]) (rule addr_wf_ok)
  then show ?thesis
    using es(2) by (auto simp del: map_append concat_append length_append)
qed

lemma link_entries_indexed:
  assumes "list_all2 link_entry ms es"
  shows "\<forall>e\<in>set (take (length ms) es). 4 \<le> length (ifa_block e)" and "length ms = length es"
  using assms by (auto simp: list_all2_conv_all_nth link_entry_def in_set_conv_nth)

lemma getifaddrs_dumps:
  assumes "dump_wf link_wf (int fd) links d1" and "dump_wf addr_wf (int fd) addrs d2" and "\<forall>n. mem_ok n"
    and "\<forall>d. 0 \<le> sendto d" and "0 \<le> bnd"
  shows "\<exists>les aes. getifaddrs True mem_ok junk (int fd) bnd sendto [RecvData (dump links d1), RecvData (dump addrs d2)]
      = Inr \<lparr>gr_ret = 0, gr_list = les @ aes, gr_live = 0, gr_open = False\<rparr>
    \<and> list_all2 link_entry links les \<and> list_all2 addr_entry addrs aes"
proof -
  have 1: "getResultList mem_ok junk sendto (int fd) RTM_GETLINK 0 [RecvData (dump links d1), RecvData (dump addrs d2)]
      = Inr (Some [(dump_block junk links d1, length (dump links d1))], 2, [RecvData (dump addrs d2)])"
    using getResultList_dump[OF assms(1,3,4), of junk RTM_GETLINK 0 "[RecvData (dump addrs d2)]"]
    by (simp add: link_wf_def nl_consts del: map_append concat_append length_append)
  have 2: "getResultList mem_ok junk sendto (int fd) RTM_GETADDR 2 [RecvData (dump addrs d2)]
      = Inr (Some [(dump_block junk addrs d2, length (dump addrs d2))], 4, [])"
    using getResultList_dump[OF assms(2,3,4), of junk RTM_GETADDR 2 "[]"]
    by (simp add: addr_wf_def nl_consts del: map_append concat_append length_append)
  obtain les where les: "interpretLinks mem_ok junk (int fd) [(dump_block junk links d1, length (dump links d1))] []
      = Inr (int (length links), les)" "list_all2 link_entry links les"
    using interpretLinks_dump[OF assms(1,3)] by blast
  obtain aes where aes: "interpretAddrs mem_ok junk (int fd) (int (length links))
        [(dump_block junk addrs d2, length (dump addrs d2))] les = Inr (0, les @ aes)" "list_all2 addr_entry addrs aes"
    using interpretAddrs_dump[OF assms(2,3) link_entries_indexed(1)[OF les(2)]] link_entries_indexed(2)[OF les(2)] by auto
  have "netlink_socket (int fd) bnd = (int fd, False)"
    using assms(5) by (simp add: netlink_socket_def)
  then show ?thesis
    using 1 2 les aes
    by (intro exI[of _ les] exI[of _ aes])
      (simp add: getifaddrs_def Let_def freeResultList_def del: interpretAddrs.simps map_append concat_append length_append)
qed

end
