(* ===== verification/StdHeap.thy ===== *)
theory StdHeap
  imports Main "HOL-Library.Multiset"
begin

text \<open>
  The heap algorithms of the C++ standard library (\<open>std::push_heap\<close>, \<open>std::pop_heap\<close>,
  \<open>std::make_heap\<close>) that \<open>utils/anr.cc\<close> uses on a vector, as functions on lists. A vector is
  ordered by a key; the comparison of \<open>check_content\<close> is reversed, so the front has the least
  key. The specification locale \<open>key_heap\<close> states what the standard promises; it is
  interpreted on the functions at the end.
\<close>

section \<open>The algorithms\<close>

definition swap_at :: "'a list \<Rightarrow> nat \<Rightarrow> nat \<Rightarrow> 'a list" where
  "swap_at xs i j = xs[i := xs ! j, j := xs ! i]"

text \<open>Moving the element at \<open>i\<close> towards the root.\<close>

function sift_up :: "('a \<Rightarrow> 'k::linorder) \<Rightarrow> 'a list \<Rightarrow> nat \<Rightarrow> 'a list" where
  "sift_up key xs i =
     (if i = 0 then xs
      else
        let p = (i - 1) div 2
        in if key (xs ! i) < key (xs ! p) then sift_up key (swap_at xs i p) p else xs)"
  by pat_completeness auto
termination by (relation "measure (\<lambda>(key, xs, i). i)") auto

text \<open>Moving the element at \<open>i\<close> towards the leaves, among the first \<open>n\<close> elements.\<close>

definition least_child :: "('a \<Rightarrow> 'k::linorder) \<Rightarrow> 'a list \<Rightarrow> nat \<Rightarrow> nat \<Rightarrow> nat" where
  "least_child key xs n i =
     (if 2 * i + 2 < n \<and> key (xs ! (2 * i + 2)) < key (xs ! (2 * i + 1)) then 2 * i + 2 else 2 * i + 1)"

lemma least_child_bounds: "2 * i + 1 < n \<Longrightarrow> i < least_child key xs n i \<and> least_child key xs n i < n"
  by (auto simp: least_child_def)

function sift_down :: "('a \<Rightarrow> 'k::linorder) \<Rightarrow> nat \<Rightarrow> 'a list \<Rightarrow> nat \<Rightarrow> 'a list" where
  "sift_down key n xs i =
     (if n \<le> 2 * i + 1 then xs
      else
        let c = least_child key xs n i
        in if key (xs ! c) < key (xs ! i) then sift_down key n (swap_at xs i c) c else xs)"
  by pat_completeness auto
termination
  by (relation "measure (\<lambda>(key, n, xs, i). n - i)") (auto simp: least_child_def)

declare sift_up.simps [simp del] sift_down.simps [simp del]

definition push_heap :: "('a \<Rightarrow> 'k::linorder) \<Rightarrow> 'a list \<Rightarrow> 'a list" where
  "push_heap key xs = sift_up key xs (length xs - 1)"

definition pop_heap :: "('a \<Rightarrow> 'k::linorder) \<Rightarrow> 'a list \<Rightarrow> 'a list" where
  "pop_heap key xs = sift_down key (length xs - 1) (swap_at xs 0 (length xs - 1)) 0"

fun make_heap_from :: "('a \<Rightarrow> 'k::linorder) \<Rightarrow> 'a list \<Rightarrow> nat \<Rightarrow> 'a list" where
  "make_heap_from key xs 0 = xs"
| "make_heap_from key xs (Suc i) = make_heap_from key (sift_down key (length xs) xs i) i"

definition make_heap :: "('a \<Rightarrow> 'k::linorder) \<Rightarrow> 'a list \<Rightarrow> 'a list" where
  "make_heap key xs = make_heap_from key xs (length xs div 2)"

section \<open>The heap order\<close>

text \<open>The edges below the nodes from \<open>k\<close> on, among the first \<open>n\<close> elements.\<close>

definition heap_from :: "('a \<Rightarrow> 'k::linorder) \<Rightarrow> nat \<Rightarrow> nat \<Rightarrow> 'a list \<Rightarrow> bool" where
  "heap_from key k n xs \<longleftrightarrow> (\<forall>j<n. 0 < j \<longrightarrow> k \<le> (j - 1) div 2 \<longrightarrow> key (xs ! ((j - 1) div 2)) \<le> key (xs ! j))"

definition is_heap :: "('a \<Rightarrow> 'k::linorder) \<Rightarrow> 'a list \<Rightarrow> bool" where
  "is_heap key xs \<longleftrightarrow> heap_from key 0 (length xs) xs"

lemma length_swap_at [simp]: "length (swap_at xs i j) = length xs"
  by (simp add: swap_at_def)

lemma mset_swap_at: "i < length xs \<Longrightarrow> j < length xs \<Longrightarrow> mset (swap_at xs i j) = mset xs"
  by (simp add: swap_at_def mset_swap)

lemma nth_swap_at:
  "i < length xs \<Longrightarrow> j < length xs \<Longrightarrow>
   swap_at xs i j ! k = (if k = j then xs ! i else if k = i then xs ! j else xs ! k)"
  by (auto simp: swap_at_def nth_list_update)

lemma heap_least:
  assumes "is_heap key xs" and "i < length xs"
  shows "key (xs ! 0) \<le> key (xs ! i)"
  using assms(2)
proof (induction i rule: less_induct)
  case (less i)
  show ?case
  proof (cases "i = 0")
    case False
    then have p: "(i - 1) div 2 < i" by simp
    have "key (xs ! ((i - 1) div 2)) \<le> key (xs ! i)"
      using assms(1) less.prems False by (simp add: is_heap_def heap_from_def)
    with less.IH[OF p] less.prems p show ?thesis by force
  qed simp
qed

text \<open>Sifting up: all edges are in order but the one above \<open>i\<close>, and the parent of \<open>i\<close> is below its children.\<close>

definition up_inv :: "('a \<Rightarrow> 'k::linorder) \<Rightarrow> 'a list \<Rightarrow> nat \<Rightarrow> bool" where
  "up_inv key xs i \<longleftrightarrow>
     (\<forall>j<length xs. 0 < j \<longrightarrow> j \<noteq> i \<longrightarrow> key (xs ! ((j - 1) div 2)) \<le> key (xs ! j))
     \<and> (\<forall>j<length xs. 0 < i \<longrightarrow> 0 < j \<longrightarrow> (j - 1) div 2 = i \<longrightarrow> key (xs ! ((i - 1) div 2)) \<le> key (xs ! j))"

lemma up_inv_swap:
  assumes inv: "up_inv key xs i" and i: "i < length xs" "0 < i" and lt: "key (xs ! i) < key (xs ! ((i - 1) div 2))"
  shows "up_inv key (swap_at xs i ((i - 1) div 2)) ((i - 1) div 2)"
proof -
  define p where "p = (i - 1) div 2"
  have p: "p < i" "p < length xs" using i by (auto simp: p_def)
  have lt: "key (xs ! i) < key (xs ! p)" and pi: "(i - Suc 0) div 2 = p" using lt by (simp_all add: p_def)
  note nth = nth_swap_at[OF i(1) p(2)]
  have edge: "key (xs ! ((j - 1) div 2)) \<le> key (xs ! j)" if "j < length xs" "0 < j" "j \<noteq> i" for j
    using inv that by (simp add: up_inv_def)
  have child: "key (xs ! p) \<le> key (xs ! j)" if "j < length xs" "0 < j" "(j - 1) div 2 = i" for j
    using inv that i(2) by (simp add: up_inv_def p_def)
  have "key (swap_at xs i p ! ((j - 1) div 2)) \<le> key (swap_at xs i p ! j)" if j: "j < length xs" "0 < j" "j \<noteq> p" for j
  proof (cases "j = i")
    case True
    then show ?thesis using lt p(1) by (simp add: nth pi)
  next
    case False
    have pj: "(j - 1) div 2 < j" using j(2) by simp
    consider "(j - 1) div 2 = i" | "(j - 1) div 2 = p" | "(j - 1) div 2 \<noteq> i" "(j - 1) div 2 \<noteq> p" by blast
    then show ?thesis
    proof cases
      case 1
      then show ?thesis using child[OF j(1,2) 1] j(3) False p(1) by (simp add: nth)
    next
      case 2
      have "key (xs ! p) \<le> key (xs ! j)" using edge[OF j(1,2) False] 2 by simp
      then show ?thesis using lt 2 j(3) False p(1) by (simp add: nth)
    next
      case 3
      then show ?thesis using edge[OF j(1,2) False] j(3) False by (simp add: nth)
    qed
  qed
  moreover have "key (swap_at xs i p ! ((p - 1) div 2)) \<le> key (swap_at xs i p ! j)"
    if j: "j < length xs" "0 < p" "0 < j" "(j - 1) div 2 = p" for j
  proof -
    have pp: "(p - 1) div 2 < p" using j(2) by simp
    have up: "key (xs ! ((p - 1) div 2)) \<le> key (xs ! p)" using edge[OF p(2) j(2)] p(1) by simp
    have "j \<noteq> p" using j(3,4) by auto
    show ?thesis
    proof (cases "j = i")
      case True
      then show ?thesis using up pp p(1) by (simp add: nth)
    next
      case False
      have "key (xs ! p) \<le> key (xs ! j)" using edge[OF j(1,3) False] j(4) by simp
      then show ?thesis using up pp p(1) False \<open>j \<noteq> p\<close> by (simp add: nth)
    qed
  qed
  ultimately show ?thesis by (simp add: up_inv_def pi)
qed

lemma sift_up_ok:
  "i < length xs \<Longrightarrow> up_inv key xs i \<Longrightarrow>
     is_heap key (sift_up key xs i) \<and> mset (sift_up key xs i) = mset xs"
proof (induction key xs i rule: sift_up.induct)
  case (1 key xs i)
  let ?p = "(i - 1) div 2"
  consider (root) "i = 0" | (swap) "i \<noteq> 0" "key (xs ! i) < key (xs ! ?p)" | (stop) "i \<noteq> 0" "\<not> key (xs ! i) < key (xs ! ?p)"
    by blast
  then show ?case
  proof cases
    case root
    then show ?thesis using 1(3) by (simp add: sift_up.simps[of key xs 0] is_heap_def heap_from_def up_inv_def)
  next
    case swap
    have p: "?p < length xs" using 1(2) by simp
    have inv: "up_inv key (swap_at xs i ?p) ?p" using up_inv_swap[OF 1(3,2) _ swap(2)] swap(1) by simp
    have "is_heap key (sift_up key (swap_at xs i ?p) ?p) \<and> mset (sift_up key (swap_at xs i ?p) ?p) = mset (swap_at xs i ?p)"
      by (rule 1(1)[OF swap(1) refl swap(2) _ inv]) (use p in simp)
    then show ?thesis using swap mset_swap_at[OF 1(2) p] by (simp add: sift_up.simps[of key xs i] Let_def)
  next
    case stop
    have "key (xs ! ((j - 1) div 2)) \<le> key (xs ! j)" if "j < length xs" "0 < j" for j
      using 1(3) that stop by (cases "j = i") (auto simp: up_inv_def)
    then have "is_heap key xs" by (simp add: is_heap_def heap_from_def)
    with stop show ?thesis by (simp add: sift_up.simps[of key xs i] Let_def)
  qed
qed

text \<open>
  Sifting down: from \<open>k\<close> on, all edges are in order but those below \<open>i\<close>, and the parent of \<open>i\<close> is
  below the children of \<open>i\<close>.
\<close>

definition down_inv :: "('a \<Rightarrow> 'k::linorder) \<Rightarrow> nat \<Rightarrow> nat \<Rightarrow> 'a list \<Rightarrow> nat \<Rightarrow> bool" where
  "down_inv key k n xs i \<longleftrightarrow>
     (\<forall>j<n. 0 < j \<longrightarrow> k \<le> (j - 1) div 2 \<longrightarrow> (j - 1) div 2 \<noteq> i \<longrightarrow> key (xs ! ((j - 1) div 2)) \<le> key (xs ! j))
     \<and> (\<forall>j<n. 0 < i \<longrightarrow> k \<le> (i - 1) div 2 \<longrightarrow> 0 < j \<longrightarrow> (j - 1) div 2 = i \<longrightarrow> key (xs ! ((i - 1) div 2)) \<le> key (xs ! j))"

lemma children: "0 < (j::nat) \<Longrightarrow> (j - 1) div 2 = i \<longleftrightarrow> j = 2 * i + 1 \<or> j = 2 * i + 2"
  by presburger

lemma least_child_le:
  assumes "2 * i + 1 < n" and "j < n" and "0 < j" and "(j - 1) div 2 = i"
  shows "key (xs ! least_child key xs n i) \<le> key (xs ! j)"
  using assms children[of j i] by (auto simp: least_child_def)

lemma least_child_parent: "(least_child key xs n i - 1) div 2 = i"
  by (simp add: least_child_def)

lemma down_inv_swap:
  assumes inv: "down_inv key k n xs i" and n: "n \<le> length xs" "2 * i + 1 < n" and "k \<le> i"
    and lt: "key (xs ! least_child key xs n i) < key (xs ! i)"
  shows "down_inv key k n (swap_at xs i (least_child key xs n i)) (least_child key xs n i)"
proof -
  define c where "c = least_child key xs n i"
  have c: "i < c" "c < n" "(c - 1) div 2 = i" "0 < c"
    using least_child_bounds[OF n(2), of key xs] least_child_parent[of key xs n i] by (auto simp: c_def)
  have len: "i < length xs" "c < length xs" using c n by auto
  note nth = nth_swap_at[OF len]
  have lt': "key (xs ! c) < key (xs ! i)" using lt by (simp add: c_def)
  have edge: "key (xs ! ((j - 1) div 2)) \<le> key (xs ! j)" if "j < n" "0 < j" "k \<le> (j - 1) div 2" "(j - 1) div 2 \<noteq> i" for j
    using inv that by (simp add: down_inv_def)
  have up: "key (xs ! ((i - 1) div 2)) \<le> key (xs ! j)" if "0 < i" "k \<le> (i - 1) div 2" "j < n" "0 < j" "(j - 1) div 2 = i" for j
    using inv that by (simp add: down_inv_def)
  have least: "key (xs ! c) \<le> key (xs ! j)" if "j < n" "0 < j" "(j - 1) div 2 = i" for j
    using least_child_le[OF n(2) that] by (simp add: c_def)
  have "key (swap_at xs i c ! ((j - 1) div 2)) \<le> key (swap_at xs i c ! j)"
    if j: "j < n" "0 < j" "k \<le> (j - 1) div 2" "(j - 1) div 2 \<noteq> c" for j
  proof -
    have pj: "(j - 1) div 2 < j" using j(2) by simp
    consider (below) "(j - 1) div 2 = i" | (at) "j = i" "(j - 1) div 2 \<noteq> i" | (other) "j \<noteq> i" "(j - 1) div 2 \<noteq> i" by blast
    then show ?thesis
    proof cases
      case below
      then show ?thesis using least[OF j(1,2) below] lt' c(1) pj by (auto simp: nth)
    next
      case at
      then have "0 < i" using j(2) by simp
      have "key (xs ! ((i - 1) div 2)) \<le> key (xs ! c)" using up[OF \<open>0 < i\<close> _ c(2,4,3)] j(3) at by simp
      then show ?thesis using at j(4) c(1) by (simp add: nth)
    next
      case other
      then have "j \<noteq> c" using c(3) by auto
      then show ?thesis using edge[OF j(1-3) other(2)] other j(4) by (simp add: nth)
    qed
  qed
  moreover have "key (swap_at xs i c ! ((c - 1) div 2)) \<le> key (swap_at xs i c ! j)"
    if j: "j < n" "0 < j" "(j - 1) div 2 = c" for j
  proof -
    have pj: "(j - 1) div 2 < j" using j(2) by simp
    have "key (xs ! c) \<le> key (xs ! j)" using edge[OF j(1,2)] j(3) c(1) assms(4) by simp
    then show ?thesis using c pj j(3) by (simp add: nth)
  qed
  ultimately show ?thesis by (simp add: down_inv_def c_def[symmetric])
qed

lemma sift_down_ok:
  "n \<le> length xs \<Longrightarrow> k \<le> i \<Longrightarrow> down_inv key k n xs i \<Longrightarrow>
     heap_from key k n (sift_down key n xs i) \<and> mset (sift_down key n xs i) = mset xs
     \<and> (\<forall>j. n \<le> j \<longrightarrow> i < n \<longrightarrow> sift_down key n xs i ! j = xs ! j)"
proof (induction key n xs i rule: sift_down.induct)
  case (1 key n xs i)
  define c where "c = least_child key xs n i"
  consider (leaf) "n \<le> 2 * i + 1" | (swap) "\<not> n \<le> 2 * i + 1" "key (xs ! c) < key (xs ! i)"
    | (stop) "\<not> n \<le> 2 * i + 1" "\<not> key (xs ! c) < key (xs ! i)" by blast
  then show ?case
  proof cases
    case leaf
    have "key (xs ! ((j - 1) div 2)) \<le> key (xs ! j)" if "j < n" "0 < j" "k \<le> (j - 1) div 2" for j
    proof -
      have "(j - 1) div 2 \<noteq> i" using children[OF that(2), of i] leaf that(1) by linarith
      then show ?thesis using 1(4) that by (simp add: down_inv_def)
    qed
    then show ?thesis using leaf by (simp add: sift_down.simps[of key n xs i] heap_from_def)
  next
    case swap
    have b: "i < c" "c < n" using least_child_bounds[of i n key xs] swap(1) by (auto simp: c_def)
    have inv: "down_inv key k n (swap_at xs i c) c"
      using down_inv_swap[OF 1(4,2) _ 1(3)] swap by (simp add: c_def)
    have "heap_from key k n (sift_down key n (swap_at xs i c) c)
        \<and> mset (sift_down key n (swap_at xs i c) c) = mset (swap_at xs i c)
        \<and> (\<forall>j. n \<le> j \<longrightarrow> c < n \<longrightarrow> sift_down key n (swap_at xs i c) c ! j = swap_at xs i c ! j)"
      by (rule 1(1)[OF swap(1) c_def swap(2) _ _ inv]) (use 1(2,3) b in simp_all)
    then show ?thesis
      using swap b 1(2) mset_swap_at[of i xs c] nth_swap_at[of i xs c]
      by (simp add: sift_down.simps[of key n xs i] c_def[symmetric])
  next
    case stop
    have "key (xs ! ((j - 1) div 2)) \<le> key (xs ! j)" if "j < n" "0 < j" "k \<le> (j - 1) div 2" for j
    proof (cases "(j - 1) div 2 = i")
      case True
      have "key (xs ! c) \<le> key (xs ! j)" using least_child_le[of i n j key xs] stop(1) that True by (simp add: c_def)
      then show ?thesis using stop(2) True by simp
    next
      case False
      then show ?thesis using 1(4) that by (simp add: down_inv_def)
    qed
    then show ?thesis using stop by (simp add: sift_down.simps[of key n xs i] c_def[symmetric] heap_from_def)
  qed
qed

section \<open>push_heap, pop_heap, make_heap\<close>

lemma push_heap_ok:
  assumes "is_heap key xs"
  shows "is_heap key (push_heap key (xs @ [x]))" "mset (push_heap key (xs @ [x])) = add_mset x (mset xs)"
proof -
  have "(length xs - Suc 0) div 2 \<noteq> length xs" if "xs \<noteq> []" using that by (cases xs) auto
  then have "up_inv key (xs @ [x]) (length xs)"
    using assms by (auto simp: up_inv_def is_heap_def heap_from_def nth_append less_Suc_eq)
  from sift_up_ok[OF _ this] show "is_heap key (push_heap key (xs @ [x]))" "mset (push_heap key (xs @ [x])) = add_mset x (mset xs)"
    by (simp_all add: push_heap_def)
qed

lemma heap_from_down_inv:
  "heap_from key (Suc i) n xs \<Longrightarrow> down_inv key i n xs i"
  by (auto simp: heap_from_def down_inv_def)

lemma pop_heap_ok:
  assumes "is_heap key xs" and "xs \<noteq> []"
  shows "is_heap key (butlast (pop_heap key xs))" "last (pop_heap key xs) = hd xs"
    "mset (butlast (pop_heap key xs)) = mset xs - {#hd xs#}"
proof -
  define n where "n = length xs - 1"
  define ys where "ys = swap_at xs 0 n"
  have len: "length xs = Suc n" "0 < length xs" using assms(2) by (auto simp: n_def)
  have nth: "ys ! k = (if k = n then xs ! 0 else if k = 0 then xs ! n else xs ! k)" for k
    using nth_swap_at[of 0 xs n k] len by (simp add: ys_def)
  have "down_inv key 0 n ys 0"
    using assms(1) len by (auto simp: down_inv_def is_heap_def heap_from_def nth)
  from sift_down_ok[OF _ _ this] have r: "heap_from key 0 n (pop_heap key xs)" "mset (pop_heap key xs) = mset xs"
      "0 < n \<Longrightarrow> pop_heap key xs ! n = xs ! 0"
    using len mset_swap_at[of 0 xs n] by (auto simp: pop_heap_def ys_def n_def[symmetric] nth[unfolded ys_def])
  have l: "length (pop_heap key xs) = Suc n" using r(2) len by (metis size_mset)
  have zero: "n = 0 \<Longrightarrow> pop_heap key xs = xs"
    using len by (cases xs) (auto simp: pop_heap_def sift_down.simps swap_at_def)
  have lst: "pop_heap key xs ! n = xs ! 0" using r(3) zero by (cases "n = 0") auto
  have ne: "pop_heap key xs \<noteq> []" using l by auto
  show last: "last (pop_heap key xs) = hd xs"
    using lst l ne len(2) by (simp add: last_conv_nth hd_conv_nth)
  show "is_heap key (butlast (pop_heap key xs))"
    using r(1) l by (simp add: is_heap_def heap_from_def nth_butlast)
  have "mset (pop_heap key xs) = add_mset (hd xs) (mset (butlast (pop_heap key xs)))"
    using ne last by (metis add_mset_add_single append_butlast_last_id mset.simps(1,2) mset_append)
  then show "mset (butlast (pop_heap key xs)) = mset xs - {#hd xs#}" using r(2) by (metis add_mset_remove_trivial)
qed

lemma make_heap_from_ok:
  "heap_from key i (length xs) xs \<Longrightarrow>
     is_heap key (make_heap_from key xs i) \<and> mset (make_heap_from key xs i) = mset xs"
proof (induction i arbitrary: xs)
  case 0
  then show ?case by (simp add: is_heap_def)
next
  case (Suc i)
  have d: "heap_from key i (length xs) (sift_down key (length xs) xs i)" "mset (sift_down key (length xs) xs i) = mset xs"
    using sift_down_ok[OF _ _ heap_from_down_inv[OF Suc.prems]] by auto
  then have "length (sift_down key (length xs) xs i) = length xs" by (metis size_mset)
  then show ?case using Suc.IH[of "sift_down key (length xs) xs i"] d by simp
qed

lemma make_heap_ok: "is_heap key (make_heap key xs)" "mset (make_heap key xs) = mset xs"
proof -
  have "heap_from key (length xs div 2) (length xs) xs"
  proof -
    have "\<not> length xs div 2 \<le> (j - 1) div 2" if "j < length xs" "0 < j" for j using that by presburger
    then show ?thesis by (auto simp: heap_from_def)
  qed
  then show "is_heap key (make_heap key xs)" "mset (make_heap key xs) = mset xs"
    using make_heap_from_ok[of key "length xs div 2" xs] by (simp_all add: make_heap_def)
qed

section \<open>The interface\<close>

text \<open>
  What the C++ standard promises of the heap operations on a vector: \<open>push\<close> after an element has been
  appended, \<open>pop\<close> (which leaves the front at the end, to be removed), and \<open>rebuild\<close>.
\<close>

locale key_heap =
  fixes key :: "'a \<Rightarrow> 'k::linorder"
    and heap_ok :: "'a list \<Rightarrow> bool"
    and push pop rebuild :: "'a list \<Rightarrow> 'a list"
  assumes empty_ok: "heap_ok []"
    and front_least: "heap_ok xs \<Longrightarrow> x \<in> set xs \<Longrightarrow> key (hd xs) \<le> key x"
    and push_ok: "heap_ok xs \<Longrightarrow> heap_ok (push (xs @ [x]))"
    and push_mset: "heap_ok xs \<Longrightarrow> mset (push (xs @ [x])) = add_mset x (mset xs)"
    and pop_ok: "heap_ok xs \<Longrightarrow> xs \<noteq> [] \<Longrightarrow> heap_ok (butlast (pop xs))"
    and pop_mset: "heap_ok xs \<Longrightarrow> xs \<noteq> [] \<Longrightarrow> mset (butlast (pop xs)) = mset xs - {#hd xs#}"
    and rebuild_ok: "heap_ok (rebuild xs)"
    and rebuild_mset: "mset (rebuild xs) = mset xs"
begin

lemma front_Min: "heap_ok xs \<Longrightarrow> xs \<noteq> [] \<Longrightarrow> key (hd xs) = Min (key ` set xs)"
  using front_least by (intro Min_eqI[symmetric]) auto

lemma push_set: "heap_ok xs \<Longrightarrow> set (push (xs @ [x])) = insert x (set xs)"
  using push_mset by (metis set_mset_add_mset_insert set_mset_mset)

lemma rebuild_set: "set (rebuild xs) = set xs"
  using rebuild_mset by (metis set_mset_mset)

lemma pop_distinct:
  assumes "heap_ok xs" and "xs \<noteq> []" and "distinct (map f xs)"
  shows "set (butlast (pop xs)) = set xs - {hd xs}" "distinct (map f (butlast (pop xs)))"
proof -
  have m: "mset (butlast (pop xs)) = mset (tl xs)" using pop_mset[OF assms(1,2)] assms(2) by (cases xs) auto
  have d: "distinct xs" using assms(3) by (simp add: distinct_map)
  have "set (butlast (pop xs)) = set (tl xs)" using m by (metis set_mset_mset)
  then show "set (butlast (pop xs)) = set xs - {hd xs}" using d assms(2) by (cases xs) auto
  have "mset (map f (butlast (pop xs))) = mset (map f (tl xs))" using m by simp
  then show "distinct (map f (butlast (pop xs)))" using assms(3)
    by (metis distinct_tl map_tl mset_eq_imp_distinct_iff)
qed

end

end
