(* ===== verification/Anr.thy ===== *)
theory Anr
  imports Prelude StdHeap
begin

text \<open>
  Model of \<open>utils/anr.cc\<close> and \<open>utils/anr.h\<close>, compiled for Android or Apple: objects register a
  deadline, and a checker thread sleeps until the earliest one and reports it when it has
  passed. The vector \<open>sg_check_heap\<close> is kept as a heap whose front has the earliest deadline.
  Readings of the clocks are arguments. \<open>sg_mutex\<close> makes \<open>__register_anr\<close>, \<open>__unregister_anr\<close> and
  the two halves of a checker round (before and after \<open>sg_cond.wait\<close>, which releases the mutex)
  atomic; while the checker waits, other threads may run any number of them. Reporting
  calls \<open>__ASSERT2\<close>, which traps when assertions are enabled (\<open>ae\<close>); \<open>sk\<close>: a failed
  \<open>skassert\<close> traps; \<open>lg\<close>: warnings are logged, so that the arguments of \<open>skwarn\<close> are evaluated.
\<close>

section \<open>State and operations\<close>

record check_content =
  an_ptr :: nat
  an_file :: string
  an_func :: string
  an_line :: int
  an_timeout :: int
  an_tid :: int
  an_start_time :: u64
  an_end_time :: u64
  an_start_tickcount :: u64
  an_used_cpu_time :: u64

record anr_state =
  an_heap :: "check_content list"
  an_exit :: bool
  an_iOS_style :: bool

definition anr_init :: anr_state where
  "anr_init = \<lparr>an_heap = [], an_exit = False, an_iOS_style = False\<rparr>"

text \<open>
  \<open>operator<\<close> holds of \<open>a\<close> and \<open>b\<close> iff \<open>a\<close> ends later, so a heap of the standard library has the
  earliest deadline in front: the heap operations are those of \<open>StdHeap\<close> with \<open>an_end_time\<close> as key.
\<close>

fun erase_ptr :: "nat \<Rightarrow> check_content list \<Rightarrow> check_content list option" where
  "erase_ptr ptr [] = None"
| "erase_ptr ptr (x # xs) = (if an_ptr x = ptr then Some xs else map_option (Cons x) (erase_ptr ptr xs))"

definition unregister_anr_impl :: "nat \<Rightarrow> anr_state \<Rightarrow> anr_state" where
  "unregister_anr_impl ptr s =
     (case erase_ptr ptr (an_heap s) of None \<Rightarrow> s | Some h \<Rightarrow> s\<lparr>an_heap := make_heap an_end_time h\<rparr>)"

text \<open>The flag tells whether \<open>sg_cond.notifyAll\<close> is called.\<close>

definition unregister_anr :: "nat \<Rightarrow> anr_state \<Rightarrow> anr_state \<times> bool" where
  "unregister_anr ptr s = (unregister_anr_impl ptr s, True)"

definition register_anr ::
  "nat \<Rightarrow> string \<Rightarrow> string \<Rightarrow> int \<Rightarrow> int \<Rightarrow> int \<Rightarrow> u64 \<Rightarrow> u64 \<Rightarrow> anr_state \<Rightarrow> anr_state \<times> bool" where
  "register_anr ptr fname func line timeout tid now tick s =
     (let s = unregister_anr_impl ptr s
      in if 0 \<ge> timeout then (s, False)
         else
           let ch = \<lparr>an_ptr = ptr, an_file = fname, an_func = func, an_line = line, an_timeout = timeout, an_tid = tid,
                     an_start_time = now, an_end_time = 0, an_start_tickcount = tick, an_used_cpu_time = 0\<rparr>;
               ch = ch\<lparr>an_end_time := an_start_time ch + word_of_int (an_timeout ch)\<rparr>
           in (s\<lparr>an_heap := push_heap an_end_time (an_heap s @ [ch])\<rparr>, True))"

definition kEachRoundSleepTime :: int where "kEachRoundSleepTime = 15 * 1000"
definition kTimeDeviation :: int where "kTimeDeviation = 500"

text \<open>
  The first half of a checker round: \<open>None\<close> is the end of the thread, otherwise the time to wait,
  \<open>None\<close> for a wait without limit.
\<close>

definition anr_wait :: "u64 \<Rightarrow> anr_state \<Rightarrow> int option option" where
  "anr_wait now s =
     (if an_exit s then None
      else Some (case an_heap s of
          [] \<Rightarrow> None
        | front # _ \<Rightarrow>
            let wait_timeout = sint (an_end_time front - now);
                wait_timeout = (if wait_timeout < 0 then 0 else wait_timeout)
            in Some (min wait_timeout kEachRoundSleepTime)))"

text \<open>
  The second half: \<open>wait\<close> is what the first half decided, \<open>timed_out\<close> whether the wait ended with
  \<open>ETIMEDOUT\<close>; \<open>start\<close> and \<open>woken\<close> are the clock at the start of the round and after the wait, \<open>now\<close>
  the clock when the deadline is compared, \<open>cpu\<close> the processor time used in between. The result
  holds the entry that was reported.
\<close>

definition anr_hit :: "bool \<Rightarrow> u64 \<Rightarrow> anr_state \<Rightarrow> bool cres" where
  "anr_hit sk now s =
     (case an_heap s of
        [] \<Rightarrow> Inr False
      | front # _ \<Rightarrow>
          if an_iOS_style s then
            (if (word_of_int (an_timeout front) :: u64) \<le> an_used_cpu_time front
             then ASSERT sk (an_end_time front \<le> now) (Inr True) else Inr False)
          else Inr (an_end_time front \<le> now))"

definition anr_drift :: "int option \<Rightarrow> bool \<Rightarrow> u64 \<Rightarrow> u64 \<Rightarrow> bool" where
  "anr_drift wait timed_out start woken =
     (case wait of
        None \<Rightarrow> False
      | Some wait_timeout \<Rightarrow>
          let is_wait_timeout = (wait_timeout > 0 \<and> timed_out);
              round_tick_elapse = sint (woken - start)
          in is_wait_timeout \<and> round_tick_elapse > wait_timeout + kTimeDeviation)"

definition anr_report :: "bool \<Rightarrow> bool \<Rightarrow> u64 \<Rightarrow> anr_state \<Rightarrow> (check_content option \<times> anr_state) cres" where
  "anr_report sk ae now s =
     bindE (anr_hit sk now s) (\<lambda>check_hit.
       if an_heap s \<noteq> [] \<and> check_hit then
         ASSERT ae False
           (Inr (Some (hd (an_heap s)), s\<lparr>an_heap := butlast (pop_heap an_end_time (an_heap s))\<rparr>))
       else Inr (None, s))"

definition anr_check ::
  "bool \<Rightarrow> bool \<Rightarrow> bool \<Rightarrow> int option \<Rightarrow> bool \<Rightarrow> u64 \<Rightarrow> u64 \<Rightarrow> u64 \<Rightarrow> u64 \<Rightarrow> anr_state \<Rightarrow> (check_content option \<times> anr_state) cres" where
  "anr_check sk ae lg wait timed_out start woken now cpu s =
     bindE (if anr_drift wait timed_out start woken then
              (if lg \<and> an_heap s = [] then Inl MemFault else Inr (s\<lparr>an_iOS_style := True\<rparr>))
            else Inr s) (\<lambda>s.
       anr_report sk ae now
         (s\<lparr>an_heap := map (\<lambda>c. c\<lparr>an_used_cpu_time := an_used_cpu_time c + cpu\<rparr>) (an_heap s)\<rparr>))"

text \<open>\<open>~startup\<close> asks the thread to end.\<close>

definition anr_shutdown :: "anr_state \<Rightarrow> anr_state" where
  "anr_shutdown s = s\<lparr>an_exit := True\<rparr>"

text \<open>\<open>scope_anr\<close>: \<open>anr(timeout)\<close> registers under the address of the object, the destructor unregisters it.\<close>

record scope_anr =
  sa_this :: nat
  sa_file :: string
  sa_func :: string
  sa_line :: int

definition scope_anr_anr :: "int \<Rightarrow> int \<Rightarrow> u64 \<Rightarrow> u64 \<Rightarrow> scope_anr \<Rightarrow> anr_state \<Rightarrow> anr_state" where
  "scope_anr_anr timeout tid now tick obj s =
     fst (register_anr (sa_this obj) (sa_file obj) (sa_func obj) (sa_line obj) timeout tid now tick s)"

definition scope_anr_delete :: "scope_anr \<Rightarrow> anr_state \<Rightarrow> anr_state" where
  "scope_anr_delete obj s = fst (unregister_anr (sa_this obj) s)"

section \<open>The table of deadlines\<close>

interpretation anr: key_heap an_end_time "is_heap an_end_time" "push_heap an_end_time" "pop_heap an_end_time"
  "make_heap an_end_time"
proof
  show "is_heap an_end_time []" by (simp add: is_heap_def heap_from_def)
  show "an_end_time (hd xs) \<le> an_end_time x" if h: "is_heap an_end_time xs" and x: "x \<in> set xs" for xs x
  proof -
    obtain i where i: "i < length xs" "x = xs ! i" using x by (auto simp: in_set_conv_nth)
    then show ?thesis using heap_least[OF h i(1)] by (cases xs) auto
  qed
qed (simp_all add: push_heap_ok pop_heap_ok make_heap_ok)

definition anr_inv :: "anr_state \<Rightarrow> bool" where
  "anr_inv s \<longleftrightarrow> is_heap an_end_time (an_heap s) \<and> distinct (map an_ptr (an_heap s))"

text \<open>The abstract value: at most one entry per object.\<close>

definition anr_table :: "anr_state \<Rightarrow> nat \<rightharpoonup> check_content" where
  "anr_table s = map_of (map (\<lambda>c. (an_ptr c, c)) (an_heap s))"

lemma anr_table_iff:
  "anr_inv s \<Longrightarrow> anr_table s p = Some c \<longleftrightarrow> c \<in> set (an_heap s) \<and> an_ptr c = p"
  by (auto simp: anr_table_def anr_inv_def map_of_eq_Some_iff comp_def)

lemma anr_table_eqI:
  assumes "anr_inv s" and "\<And>p c. m p = Some c \<longleftrightarrow> c \<in> set (an_heap s) \<and> an_ptr c = p"
  shows "anr_table s = m"
proof
  fix p
  show "anr_table s p = m p"
  proof (cases "m p")
    case None
    then show ?thesis using anr_table_iff[OF assms(1), of p] assms(2)[of p] by (cases "anr_table s p") auto
  next
    case (Some c)
    then show ?thesis using anr_table_iff[OF assms(1), of p c] assms(2)[of p c] by simp
  qed
qed

lemma erase_ptr_None: "erase_ptr p xs = None \<longleftrightarrow> p \<notin> an_ptr ` set xs"
  by (induction xs) auto

lemma erase_ptr_Some:
  "erase_ptr p xs = Some ys \<Longrightarrow> distinct (map an_ptr xs) \<Longrightarrow>
     set ys = {c \<in> set xs. an_ptr c \<noteq> p} \<and> distinct (map an_ptr ys)"
proof (induction xs arbitrary: ys)
  case (Cons x xs)
  then show ?case by (cases "an_ptr x = p") (auto simp: image_iff)
qed simp

lemma mset_distinct_ptr: "mset xs = mset ys \<Longrightarrow> distinct (map an_ptr ys) \<Longrightarrow> distinct (map an_ptr xs)"
  by (metis mset_eq_imp_distinct_iff mset_map)

lemma unregister_ok:
  assumes "anr_inv s"
  shows "anr_inv (unregister_anr_impl p s)" "set (an_heap (unregister_anr_impl p s)) = {c \<in> set (an_heap s). an_ptr c \<noteq> p}"
proof -
  have "anr_inv (unregister_anr_impl p s) \<and> set (an_heap (unregister_anr_impl p s)) = {c \<in> set (an_heap s). an_ptr c \<noteq> p}"
  proof (cases "erase_ptr p (an_heap s)")
    case None
    then show ?thesis using assms erase_ptr_None[of p "an_heap s"] by (auto simp: unregister_anr_impl_def)
  next
    case (Some h)
    then have h: "set h = {c \<in> set (an_heap s). an_ptr c \<noteq> p}" "distinct (map an_ptr h)"
      using erase_ptr_Some[OF Some] assms by (simp_all add: anr_inv_def)
    then show ?thesis
      using Some anr.rebuild_ok[of h] anr.rebuild_set[of h] mset_distinct_ptr[OF anr.rebuild_mset h(2)]
      by (simp add: unregister_anr_impl_def anr_inv_def)
  qed
  then show "anr_inv (unregister_anr_impl p s)" "set (an_heap (unregister_anr_impl p s)) = {c \<in> set (an_heap s). an_ptr c \<noteq> p}"
    by simp_all
qed

definition new_content :: "nat \<Rightarrow> string \<Rightarrow> string \<Rightarrow> int \<Rightarrow> int \<Rightarrow> int \<Rightarrow> u64 \<Rightarrow> u64 \<Rightarrow> check_content" where
  "new_content ptr fname func line timeout tid now tick =
     \<lparr>an_ptr = ptr, an_file = fname, an_func = func, an_line = line, an_timeout = timeout, an_tid = tid,
      an_start_time = now, an_end_time = now + word_of_int timeout, an_start_tickcount = tick, an_used_cpu_time = 0\<rparr>"

lemma register_ok:
  assumes "anr_inv s" and s'_def: "s' = fst (register_anr ptr fname func line timeout tid now tick s)"
  shows "anr_inv s'" "set (an_heap s') = {c \<in> set (an_heap s). an_ptr c \<noteq> ptr}
    \<union> (if 0 < timeout then {new_content ptr fname func line timeout tid now tick} else {})"
proof -
  define s1 where "s1 = unregister_anr_impl ptr s"
  note u = unregister_ok[OF assms(1), of ptr, folded s1_def]
  let ?c = "new_content ptr fname func line timeout tid now tick"
  have hp: "is_heap an_end_time (an_heap s1)" "distinct (map an_ptr (an_heap s1))" using u(1) by (simp_all add: anr_inv_def)
  have s': "s' = (if 0 < timeout then s1\<lparr>an_heap := push_heap an_end_time (an_heap s1 @ [?c])\<rparr> else s1)"
    by (simp add: s'_def register_anr_def new_content_def s1_def Let_def)
  have "distinct (map an_ptr (an_heap s1 @ [?c]))" using hp(2) u(2) by (auto simp: new_content_def)
  then have "distinct (map an_ptr (push_heap an_end_time (an_heap s1 @ [?c])))"
    using mset_distinct_ptr[of "push_heap an_end_time (an_heap s1 @ [?c])" "an_heap s1 @ [?c]"] anr.push_mset[OF hp(1)] by simp
  then show "anr_inv s'" using u(1) anr.push_ok[OF hp(1)] by (simp add: s' anr_inv_def)
  show "set (an_heap s') = {c \<in> set (an_heap s). an_ptr c \<noteq> ptr} \<union> (if 0 < timeout then {?c} else {})"
    using u(2) anr.push_set[OF hp(1)] by (auto simp: s')
qed

definition add_cpu :: "u64 \<Rightarrow> check_content \<Rightarrow> check_content" where
  "add_cpu cpu c = c\<lparr>an_used_cpu_time := an_used_cpu_time c + cpu\<rparr>"

lemma add_cpu_fields [simp]:
  "an_ptr (add_cpu cpu c) = an_ptr c" "an_end_time (add_cpu cpu c) = an_end_time c"
  "an_timeout (add_cpu cpu c) = an_timeout c"
  "an_used_cpu_time (add_cpu cpu c) = an_used_cpu_time c + cpu"
  by (simp_all add: add_cpu_def)

lemma cpu_inv: "anr_inv (s\<lparr>an_heap := map (add_cpu cpu) (an_heap s)\<rparr>) \<longleftrightarrow> anr_inv s"
  by (simp add: anr_inv_def is_heap_def heap_from_def comp_def)

lemma pop_inv:
  assumes "anr_inv s" and "an_heap s \<noteq> []"
  defines "s' \<equiv> s\<lparr>an_heap := butlast (pop_heap an_end_time (an_heap s))\<rparr>"
  shows "anr_inv s'" "set (an_heap s') = set (an_heap s) - {hd (an_heap s)}"
    "length (an_heap s) = Suc (length (an_heap s'))"
proof -
  have h: "is_heap an_end_time (an_heap s)" "distinct (map an_ptr (an_heap s))" using assms(1) by (simp_all add: anr_inv_def)
  note d = anr.pop_distinct[OF h(1) assms(2) h(2)]
  show "anr_inv s'" using anr.pop_ok[OF h(1) assms(2)] d(2) by (simp add: s'_def anr_inv_def)
  show "set (an_heap s') = set (an_heap s) - {hd (an_heap s)}" using d(1) by (simp add: s'_def)
  have "mset (an_heap s') = mset (an_heap s) - {#hd (an_heap s)#}" using anr.pop_mset[OF h(1) assms(2)] by (simp add: s'_def)
  then show "length (an_heap s) = Suc (length (an_heap s'))"
    using assms(2) by (cases "an_heap s") (auto simp flip: size_mset)
qed

definition front_hit :: "u64 \<Rightarrow> anr_state \<Rightarrow> bool" where
  "front_hit now s \<longleftrightarrow> an_heap s \<noteq> [] \<and>
     (if an_iOS_style s then (word_of_int (an_timeout (hd (an_heap s))) :: u64) \<le> an_used_cpu_time (hd (an_heap s))
      else an_end_time (hd (an_heap s)) \<le> now)"

definition aged :: "bool \<Rightarrow> u64 \<Rightarrow> anr_state \<Rightarrow> anr_state" where
  "aged drift cpu s = s\<lparr>an_iOS_style := an_iOS_style s \<or> drift, an_heap := map (add_cpu cpu) (an_heap s)\<rparr>"

lemma aged_fields [simp]:
  "an_heap (aged d cpu s) = map (add_cpu cpu) (an_heap s)" "an_exit (aged d cpu s) = an_exit s"
  "an_iOS_style (aged d cpu s) = (an_iOS_style s \<or> d)"
  by (simp_all add: aged_def)

lemma aged_inv [simp]: "anr_inv (aged d cpu s) \<longleftrightarrow> anr_inv s"
  using cpu_inv[of cpu s] by (simp add: anr_inv_def)

lemma anr_hit_front: "anr_hit sk now s = Inr h \<Longrightarrow> h = front_hit now s"
  by (auto simp: anr_hit_def front_hit_def ASSERT_def split: list.splits if_splits)

lemma anr_report_cases:
  assumes "anr_report sk ae now s = Inr (r, s')"
  shows "if front_hit now s then \<not> ae \<and> r = Some (hd (an_heap s)) \<and> s' = s\<lparr>an_heap := butlast (pop_heap an_end_time (an_heap s))\<rparr>
         else r = None \<and> s' = s"
  using assms anr_hit_front[where sk = sk and now = now and s = s]
  by (cases "anr_hit sk now s") (auto simp: anr_report_def front_hit_def ASSERT_def split: if_splits)

lemma anr_check_report:
  assumes "anr_check sk ae lg wait to start woken now cpu s = Inr (r, s')"
  shows "anr_report sk ae now (aged (anr_drift wait to start woken) cpu s) = Inr (r, s')"
proof -
  have "aged d cpu s = (if d then s\<lparr>an_iOS_style := True\<rparr> else s)
      \<lparr>an_heap := map (\<lambda>c. c\<lparr>an_used_cpu_time := an_used_cpu_time c + cpu\<rparr>) (an_heap s)\<rparr>" for d
    by (simp add: aged_def add_cpu_def[abs_def])
  with assms show ?thesis by (simp add: anr_check_def split: if_splits)
qed

lemmas anr_check_cases = anr_report_cases[OF anr_check_report]

section \<open>Events and the abstract table\<close>

text \<open>The atomic actions on the detector, by any thread, in the order in which they take \<open>sg_mutex\<close>.\<close>

datatype anr_event =
  Register nat string string int int int u64 u64
| Unregister nat
| Check bool "int option" bool u64 u64 u64 u64

fun anr_exec :: "bool \<Rightarrow> bool \<Rightarrow> anr_event \<Rightarrow> anr_state \<Rightarrow> anr_state cres" where
  "anr_exec sk lg (Register ptr fname func line timeout tid now tick) s =
     Inr (fst (register_anr ptr fname func line timeout tid now tick s))"
| "anr_exec sk lg (Unregister ptr) s = Inr (fst (unregister_anr ptr s))"
| "anr_exec sk lg (Check ae wait to start woken now cpu) s =
     bindE (anr_check sk ae lg wait to start woken now cpu s) (\<lambda>(r, s). Inr s)"

fun anr_run :: "bool \<Rightarrow> bool \<Rightarrow> anr_event list \<Rightarrow> anr_state \<Rightarrow> anr_state cres" where
  "anr_run sk lg [] s = Inr s"
| "anr_run sk lg (e # es) s = bindE (anr_exec sk lg e s) (anr_run sk lg es)"

text \<open>
  The specification: a table with at most one deadline per object. A round of the checker ages every
  entry and removes at most one of them, one with the earliest deadline.
\<close>

inductive table_step :: "anr_event \<Rightarrow> (nat \<rightharpoonup> check_content) \<Rightarrow> (nat \<rightharpoonup> check_content) \<Rightarrow> bool" where
  replace: "0 < timeout \<Longrightarrow>
    table_step (Register ptr fname func line timeout tid now tick) m
      (m(ptr \<mapsto> new_content ptr fname func line timeout tid now tick))"
| cancel: "timeout \<le> 0 \<Longrightarrow>
    table_step (Register ptr fname func line timeout tid now tick) m (m(ptr := None))"
| remove: "table_step (Unregister ptr) m (m(ptr := None))"
| age: "table_step (Check ae wait to start woken now cpu) m (map_option (add_cpu cpu) \<circ> m)"
| report: "m ptr = Some c \<Longrightarrow> (\<And>d. d \<in> ran m \<Longrightarrow> an_end_time c \<le> an_end_time d) \<Longrightarrow>
    table_step (Check ae wait to start woken now cpu) m ((map_option (add_cpu cpu) \<circ> m)(ptr := None))"

inductive table_run :: "anr_event list \<Rightarrow> (nat \<rightharpoonup> check_content) \<Rightarrow> (nat \<rightharpoonup> check_content) \<Rightarrow> bool" where
  "table_run [] m m"
| "table_step e m m' \<Longrightarrow> table_run es m' m'' \<Longrightarrow> table_run (e # es) m m''"

lemma ran_anr_table: "anr_inv s \<Longrightarrow> ran (anr_table s) = set (an_heap s)"
  by (auto simp: ran_def anr_table_iff)

lemma unregister_table: "anr_inv s \<Longrightarrow> anr_table (unregister_anr_impl p s) = (anr_table s)(p := None)"
  using unregister_ok[of s p] by (intro anr_table_eqI) (auto simp: anr_table_iff)

lemma register_table:
  assumes "anr_inv s" and "s' = fst (register_anr ptr fname func line timeout tid now tick s)"
  shows "anr_table s' = (anr_table s)(ptr := if 0 < timeout then Some (new_content ptr fname func line timeout tid now tick) else None)"
  using register_ok[OF assms] assms(1)
  by (intro anr_table_eqI) (auto simp: anr_table_iff new_content_def)

lemma aged_table: "anr_table (aged d cpu s) = map_option (add_cpu cpu) \<circ> anr_table s"
proof -
  have "map_of (map (\<lambda>c. (an_ptr c, add_cpu cpu c)) xs) = map_option (add_cpu cpu) \<circ> map_of (map (\<lambda>c. (an_ptr c, c)) xs)" for xs
    by (induction xs) auto
  then show ?thesis by (simp add: anr_table_def comp_def)
qed

lemma pop_table:
  assumes "anr_inv s" and "an_heap s \<noteq> []"
  shows "anr_table (s\<lparr>an_heap := butlast (pop_heap an_end_time (an_heap s))\<rparr>) = (anr_table s)(an_ptr (hd (an_heap s)) := None)"
proof (rule anr_table_eqI)
  have "distinct (map an_ptr (an_heap s))" using assms(1) by (simp add: anr_inv_def)
  then show "((anr_table s)(an_ptr (hd (an_heap s)) := None)) p = Some c
      \<longleftrightarrow> c \<in> set (an_heap (s\<lparr>an_heap := butlast (pop_heap an_end_time (an_heap s))\<rparr>)) \<and> an_ptr c = p" for p c
    unfolding pop_inv(2)[OF assms] using assms
    by (cases "an_heap s") (force simp: anr_table_iff image_iff)+
qed (rule pop_inv(1)[OF assms])

lemma front_earliest:
  assumes "anr_inv s" and "c \<in> set (an_heap s)"
  shows "an_end_time (hd (an_heap s)) \<le> an_end_time c"
  using assms anr.front_least[of "an_heap s" c] by (simp add: anr_inv_def)

lemma anr_exec_refines:
  assumes "anr_inv s" and "anr_exec sk lg e s = Inr s'"
  shows "anr_inv s' \<and> table_step e (anr_table s) (anr_table s')"
proof (cases e)
  case (Register ptr fname func line timeout tid now tick)
  then have s': "s' = fst (register_anr ptr fname func line timeout tid now tick s)" using assms(2) by simp
  show ?thesis
    using register_ok(1)[OF assms(1) s'] register_table[OF assms(1) s'] Register
    by (cases "0 < timeout") (auto intro: table_step.intros)
next
  case (Unregister ptr)
  then show ?thesis using assms unregister_ok(1) unregister_table by (auto simp: unregister_anr_def intro: table_step.intros)
next
  case (Check ae wait to start woken now cpu)
  define s2 where "s2 = aged (anr_drift wait to start woken) cpu s"
  obtain r where "anr_check sk ae lg wait to start woken now cpu s = Inr (r, s')"
    using assms(2) Check by (cases "anr_check sk ae lg wait to start woken now cpu s") auto
  note r = anr_check_cases[OF this, folded s2_def]
  have s2: "anr_inv s2" "anr_table s2 = map_option (add_cpu cpu) \<circ> anr_table s"
    using assms(1) by (simp_all add: s2_def aged_table)
  show ?thesis
  proof (cases "front_hit now s2")
    case True
    then have ne: "an_heap s2 \<noteq> []" "an_heap s \<noteq> []" by (auto simp: front_hit_def s2_def)
    have tab: "anr_table s' = (map_option (add_cpu cpu) \<circ> anr_table s)(an_ptr (hd (an_heap s)) := None)" "anr_inv s'"
      using r True pop_table[OF s2(1) ne(1)] s2(2) pop_inv(1)[OF s2(1) ne(1)] ne(2) by (simp_all add: s2_def hd_map)
    have "anr_table s (an_ptr (hd (an_heap s))) = Some (hd (an_heap s))"
      using ne(2) by (simp add: anr_table_iff[OF assms(1)])
    then show ?thesis
      using tab front_earliest[OF assms(1)] ran_anr_table[OF assms(1)] Check by (auto intro!: table_step.report)
  next
    case False
    then show ?thesis using r s2 Check by (auto intro: table_step.intros)
  qed
qed

lemma anr_run_refines:
  "anr_inv s \<Longrightarrow> anr_run sk lg es s = Inr s' \<Longrightarrow> anr_inv s' \<and> table_run es (anr_table s) (anr_table s')"
proof (induction es arbitrary: s)
  case Nil
  then show ?case by (auto intro: table_run.intros)
next
  case (Cons e es)
  then obtain s1 where "anr_exec sk lg e s = Inr s1" "anr_run sk lg es s1 = Inr s'" by (cases "anr_exec sk lg e s") auto
  then show ?case using Cons anr_exec_refines by (meson table_run.intros(2))
qed

lemma anr_init_ok [simp]: "anr_inv anr_init" "anr_table anr_init = Map.empty"
  by (simp_all add: anr_inv_def anr_init_def anr_table_def anr.empty_ok)

section \<open>Successive rounds\<close>

text \<open>
  Rounds of the checker that each find the clock at \<open>now\<close>, no drift of the clock having been seen
  (\<open>iOS_style\<close> is off), with the entries they report.
\<close>

fun anr_rounds :: "bool \<Rightarrow> bool \<Rightarrow> nat \<Rightarrow> u64 \<Rightarrow> u64 \<Rightarrow> anr_state \<Rightarrow> (check_content list \<times> anr_state) cres" where
  "anr_rounds sk lg 0 now cpu s = Inr ([], s)"
| "anr_rounds sk lg (Suc n) now cpu s =
     bindE (anr_check sk False lg None False now now now cpu s) (\<lambda>(r, s).
       bindE (anr_rounds sk lg n now cpu s) (\<lambda>(rs, s). Inr ((case r of None \<Rightarrow> rs | Some c \<Rightarrow> c # rs), s)))"

definition due :: "u64 \<Rightarrow> anr_state \<Rightarrow> check_content set" where
  "due now s = {c \<in> set (an_heap s). an_end_time c \<le> now}"

definition later :: "u64 \<Rightarrow> anr_state \<Rightarrow> check_content set" where
  "later now s = {c \<in> set (an_heap s). now < an_end_time c}"

lemma check_strict:
  assumes "\<not> an_iOS_style s"
  shows "anr_check sk False lg None False now now now cpu s =
    (let s2 = aged False cpu s
     in if front_hit now s2 then Inr (Some (hd (an_heap s2)), s2\<lparr>an_heap := butlast (pop_heap an_end_time (an_heap s2))\<rparr>)
        else Inr (None, s2))"
  using assms
  by (simp add: anr_check_def anr_drift_def anr_report_def anr_hit_def front_hit_def aged_def add_cpu_def[abs_def] ASSERT_def
      split: list.splits)

lemma not_hit_none_due:
  assumes "anr_inv s" and "\<not> an_iOS_style s" and "\<not> front_hit now s"
  shows "due now s = {}"
proof -
  have "now < an_end_time c" if "c \<in> set (an_heap s)" for c
  proof -
    have "now < an_end_time (hd (an_heap s))" using assms(2,3) that by (auto simp: front_hit_def)
    then show ?thesis using front_earliest[OF assms(1) that] by simp
  qed
  then show ?thesis by (force simp: due_def)
qed

definition deadline :: "check_content \<Rightarrow> nat \<times> u64" where
  "deadline c = (an_ptr c, an_end_time c)"

lemma deadline_add_cpu [simp]: "deadline (add_cpu cpu c) = deadline c"
  by (simp add: deadline_def)

lemma aged_due: "due now (aged d cpu s) = add_cpu cpu ` due now s"
  by (auto simp: due_def)

lemma aged_later: "later now (aged d cpu s) = add_cpu cpu ` later now s"
  by (auto simp: later_def)

lemma deadlines_aged:
  "deadline ` due now (aged d cpu s) = deadline ` due now s"
  "deadline ` later now (aged d cpu s) = deadline ` later now s"
  by (simp_all add: aged_due aged_later image_image)

lemma none_due_later: "due now s = {} \<Longrightarrow> later now s = set (an_heap s)"
  by (auto simp: due_def later_def not_le)

lemma finite_due [simp]: "finite (due now s)"
  by (simp add: due_def)

lemma anr_rounds_due:
  assumes "anr_inv s" and "\<not> an_iOS_style s" and "card (due now s) \<le> n"
  shows "\<exists>rs s'. anr_rounds sk lg n now cpu s = Inr (rs, s') \<and> anr_inv s'
    \<and> sorted (map an_end_time rs) \<and> distinct (map an_ptr rs)
    \<and> deadline ` set rs = deadline ` due now s
    \<and> deadline ` set (an_heap s') = deadline ` later now s"
  using assms
proof (induction n arbitrary: s)
  case 0
  then have none: "due now s = {}" by simp
  show ?case using 0(1) none_due_later[OF none] by (simp add: none)
next
  case (Suc n)
  define s2 where "s2 = aged False cpu s"
  have s2: "anr_inv s2" "\<not> an_iOS_style s2" using Suc.prems by (simp_all add: s2_def)
  have le: "card (due now s2) \<le> Suc n"
    unfolding s2_def aged_due using Suc.prems(3) card_image_le[of "due now s" "add_cpu cpu"] by simp
  note k2 = deadlines_aged[where now = now and d = False and cpu = cpu and s = s, folded s2_def]
  note step = check_strict[OF Suc.prems(2), of sk lg now cpu, folded s2_def]
  show ?case
  proof (cases "front_hit now s2")
    case False
    have "due now s2 = {}" by (rule not_hit_none_due[OF s2 False])
    then have "card (due now s2) \<le> n" by (simp only: card.empty)
    from Suc.IH[OF s2 this] show ?thesis unfolding k2 using False by (auto simp: step)
  next
    case True
    define c where "c = hd (an_heap s2)"
    define s3 where "s3 = s2\<lparr>an_heap := butlast (pop_heap an_end_time (an_heap s2))\<rparr>"
    have ne: "an_heap s2 \<noteq> []" and c: "c \<in> due now s2" using True s2(2) by (auto simp: front_hit_def c_def due_def)
    have s3: "anr_inv s3" "\<not> an_iOS_style s3" "set (an_heap s3) = set (an_heap s2) - {c}"
      using pop_inv[OF s2(1) ne] s2(2) by (simp_all add: s3_def c_def)
    have "later now s3 = later now s2 - {c}" unfolding later_def s3(3) by blast
    moreover have "c \<notin> later now s2" using c by (simp add: due_def later_def not_less)
    ultimately have d3: "due now s3 = due now s2 - {c}" "later now s3 = later now s2"
      unfolding due_def s3(3) by blast+
    have "card (due now s3) \<le> n" using le c by (simp add: d3)
    from Suc.IH[OF s3(1,2) this] obtain rs s' where r: "anr_rounds sk lg n now cpu s3 = Inr (rs, s')" "anr_inv s'"
      "sorted (map an_end_time rs)" "distinct (map an_ptr rs)" "deadline ` set rs = deadline ` due now s3"
      "deadline ` set (an_heap s') = deadline ` later now s3" by auto
    have up: "an_end_time c \<le> an_end_time x \<and> an_ptr x \<noteq> an_ptr c" if "x \<in> set rs" for x
    proof -
      have "deadline x \<in> deadline ` due now s3" using that imageI[of x "set rs" deadline] r(5) by blast
      then obtain y where y: "y \<in> set (an_heap s2)" "y \<noteq> c" "deadline x = deadline y" unfolding due_def s3(3) by blast
      have "inj_on an_ptr (set (an_heap s2))" using s2(1) by (simp add: anr_inv_def distinct_map)
      then have "an_ptr y \<noteq> an_ptr c" using y(1,2) c by (auto dest: inj_onD simp: due_def)
      then show ?thesis using front_earliest[OF s2(1) y(1)] y(3) by (simp add: c_def deadline_def)
    qed
    have "anr_rounds sk lg (Suc n) now cpu s = Inr (c # rs, s')"
      using True r(1) by (simp add: step s3_def[symmetric] c_def[symmetric])
    moreover have "sorted (map an_end_time (c # rs))" "distinct (map an_ptr (c # rs))" using r(3,4) up by force+
    moreover have "deadline ` set (c # rs) = deadline ` due now s"
      using r(5) c by (simp add: d3 k2(1)[symmetric]) (metis insert_Diff image_insert)
    moreover have "deadline ` set (an_heap s') = deadline ` later now s" using r(6) d3(2) k2(2) by simp
    ultimately show ?thesis using r(2) by blast
  qed
qed

section \<open>Properties\<close>

definition ev_sample :: "anr_event list" where
  "ev_sample = [Register 1 ''a.cc'' ''f'' 10 300 7 1000 1000, Register 2 ''b.cc'' ''g'' 20 100 8 1000 1000,
     Register 3 ''c.cc'' ''h'' 30 200 9 1000 1000, Unregister 3, Register 1 ''a.cc'' ''f'' 11 50 7 1010 1010]"

definition st_sample :: anr_state where
  "st_sample = \<lparr>an_heap = [new_content 1 ''a.cc'' ''f'' 11 50 7 1010 1010, new_content 2 ''b.cc'' ''g'' 20 100 8 1000 1000],
     an_exit = False, an_iOS_style = False\<rparr>"

lemma run_sample: "anr_run True True ev_sample anr_init = Inr st_sample"
  unfolding ev_sample_def st_sample_def by code_simp

lemma sint_diff_clock:
  fixes a b :: u64
  assumes "uint a < 2 ^ 63" and "uint b < 2 ^ 63"
  shows "sint (a - b) = uint a - uint b"
proof -
  have "sint (a - b) = signed_take_bit 63 (uint a - uint b)"
    by (subst word_sub_wi, subst sint_sbintrunc') simp
  also have "\<dots> = uint a - uint b"
    using assms uint_ge_0[of a] uint_ge_0[of b] by (intro signed_take_bit_int_eq_self) linarith+
  finally show ?thesis .
qed

text \<open>
  C9: Whatever threads register, cancel and check, in whatever order their critical sections come,
  the vector of the detector keeps the heap order and holds at most one entry per object, and it
  behaves as the table of deadlines of the specification: a registration replaces the object's entry
  (or only removes it when the timeout is not positive), an unregistration removes it, and a round of
  the checker ages all the entries and drops at most one, of the earliest deadline.
\<close>

theorem Anr_refines_deadline_table:
  assumes "anr_run sk lg es anr_init = Inr s"
  shows "is_heap an_end_time (an_heap s) \<and> distinct (map an_ptr (an_heap s)) \<and> table_run es Map.empty (anr_table s)"
  using anr_run_refines[OF anr_init_ok(1) assms] by (simp add: anr_inv_def)

theorem Anr_refines_deadline_table_witness:
  "anr_run True True ev_sample anr_init = Inr st_sample
   \<and> table_run ev_sample Map.empty (anr_table st_sample) \<and> dom (anr_table st_sample) = {1, 2}"
proof -
  have "dom (anr_table st_sample) = {1, 2}" by (auto simp: anr_table_def st_sample_def new_content_def)
  then show ?thesis using Anr_refines_deadline_table[OF run_sample] run_sample by blast
qed

text \<open>
  C33: From any state that threads can produce, while no drift of the clock has been seen, as many
  rounds of the checker as deadlines have passed report exactly the entries whose deadline
  has passed, each once, in the order of their deadlines, and keep exactly the others.
\<close>

theorem Anr_reports_due_in_order:
  assumes "anr_run sk lg es anr_init = Inr s" and "\<not> an_iOS_style s" and "card (due now s) \<le> n"
  shows "\<exists>rs s'. anr_rounds sk lg n now cpu s = Inr (rs, s')
    \<and> sorted (map an_end_time rs) \<and> distinct (map an_ptr rs)
    \<and> deadline ` set rs = {d \<in> deadline ` ran (anr_table s). snd d \<le> now}
    \<and> deadline ` ran (anr_table s') = {d \<in> deadline ` ran (anr_table s). now < snd d}"
proof -
  have inv: "anr_inv s" using anr_run_refines[OF anr_init_ok(1) assms(1)] by simp
  have "deadline ` due now s = {d \<in> deadline ` ran (anr_table s). snd d \<le> now}"
    "deadline ` later now s = {d \<in> deadline ` ran (anr_table s). now < snd d}"
    by (auto simp: ran_anr_table[OF inv] due_def later_def deadline_def)
  moreover from anr_rounds_due[OF inv assms(2,3), of sk lg cpu] obtain rs s' where "anr_rounds sk lg n now cpu s = Inr (rs, s')" "anr_inv s'" "sorted (map an_end_time rs)"
    "distinct (map an_ptr rs)" "deadline ` set rs = deadline ` due now s" "deadline ` set (an_heap s') = deadline ` later now s"
    by (elim exE conjE)
  ultimately show ?thesis using ran_anr_table by (intro exI[of _ rs] exI[of _ s']) simp
qed

theorem Anr_reports_due_in_order_witness:
  "card (due 1080 st_sample) \<le> 2
   \<and> (\<exists>rs s'. anr_rounds True True 2 1080 5 st_sample = Inr (rs, s') \<and> sorted (map an_end_time rs)
        \<and> distinct (map an_ptr rs)
        \<and> deadline ` set rs = {d \<in> deadline ` ran (anr_table st_sample). snd d \<le> 1080}
        \<and> deadline ` ran (anr_table s') = {d \<in> deadline ` ran (anr_table st_sample). 1080 < snd d})"
proof -
  have c: "card (due 1080 st_sample) \<le> 2"
  proof -
    have "due 1080 st_sample \<subseteq> set (an_heap st_sample)" by (auto simp: due_def)
    then have "card (due 1080 st_sample) \<le> card (set (an_heap st_sample))" by (simp add: card_mono)
    also have "\<dots> \<le> length (an_heap st_sample)" by (rule card_length)
    finally show ?thesis by (simp add: st_sample_def)
  qed
  have i: "\<not> an_iOS_style st_sample" by (simp add: st_sample_def)
  show ?thesis using c Anr_reports_due_in_order[OF run_sample i c, of 5] by blast
qed

text \<open>
  The checker never sleeps past a deadline: it waits without limit only when nothing is
  registered, otherwise between 0 and 15 seconds and never longer than to the earliest deadline
  of the table (while the clock and the deadlines are below \<open>2^63\<close> milliseconds).
\<close>

theorem Anr_never_oversleeps:
  assumes "anr_run sk lg es anr_init = Inr s" and "\<not> an_exit s"
    and "uint now < 2 ^ 63" and "\<And>c. c \<in> ran (anr_table s) \<Longrightarrow> uint (an_end_time c) < 2 ^ 63"
  shows "case anr_wait now s of
      None \<Rightarrow> False
    | Some None \<Rightarrow> anr_table s = Map.empty
    | Some (Some w) \<Rightarrow> 0 \<le> w \<and> w \<le> 15000 \<and>
        (\<forall>c \<in> ran (anr_table s). w \<le> max 0 (uint (an_end_time c) - uint now))"
proof -
  have inv: "anr_inv s" using anr_run_refines[OF anr_init_ok(1) assms(1)] by simp
  note ran = ran_anr_table[OF inv]
  show ?thesis
  proof (cases "an_heap s")
    case Nil
    then show ?thesis using assms(2) by (simp add: anr_wait_def anr_table_def)
  next
    case (Cons f xs)
    have b: "uint (an_end_time f) < 2 ^ 63" using assms(4)[of f] ran Cons by simp
    have "uint (an_end_time f) \<le> uint (an_end_time c)" if "c \<in> set (an_heap s)" for c
      using front_earliest[OF inv that] Cons by (simp add: word_le_def)
    then show ?thesis
      using assms(2) Cons sint_diff_clock[OF b assms(3)]
      by (simp add: anr_wait_def ran Let_def kEachRoundSleepTime_def) (smt (verit))
  qed
qed

theorem Anr_never_oversleeps_witness:
  "anr_wait 1020 st_sample = Some (Some 40)
   \<and> (case anr_wait 1020 st_sample of None \<Rightarrow> False | Some None \<Rightarrow> anr_table st_sample = Map.empty
      | Some (Some w) \<Rightarrow> 0 \<le> w \<and> w \<le> 15000 \<and>
          (\<forall>c \<in> ran (anr_table st_sample). w \<le> max 0 (uint (an_end_time c) - uint (1020 :: u64))))"
proof -
  have e: "\<not> an_exit st_sample" by (simp add: st_sample_def)
  have b: "uint (an_end_time c) < 2 ^ 63" if "c \<in> ran (anr_table st_sample)" for c
    using that by (auto simp: anr_table_def st_sample_def new_content_def ran_def split: if_splits)
  have "anr_wait 1020 st_sample = Some (Some 40)" by code_simp
  then show ?thesis using Anr_never_oversleeps[OF run_sample e _ b, of 1020] by simp
qed

text \<open>
  The warning about a late wake-up reads \<open>front()\<close> of the vector without asking whether it is empty:
  an object that is unregistered while the checker waits for it, and a wait that ends late.
\<close>

theorem Anr_warning_reads_empty_heap:
  "anr_run sk True [Register 1 ''a.cc'' ''f'' 10 100 7 1000 1000, Unregister 1, Check ae (Some 100) True 1000 2000 2000 0] anr_init
     = Inl MemFault"
  by (simp add: register_anr_def unregister_anr_def unregister_anr_impl_def anr_init_def push_heap_def sift_up.simps
      make_heap_def anr_check_def anr_drift_def kTimeDeviation_def)

end
