(* ===== verification/SocketSelect.thy ===== *)
theory SocketSelect
  imports Prelude
begin

text \<open>
  Model of \<open>utils/socketselect.h\<close> and the \<open>poll\<close> branch of \<open>utils/socketselect.cc\<close> (the
  \<open>kqueue\<close> branch is compiled out): \<open>SocketSelectBreaker\<close>, a pipe that wakes up a thread
  in \<open>poll\<close>, and \<open>SocketSelect\<close>, the set of watched descriptors. What a system call
  returns is an argument. The POSIX behaviour of \<open>poll\<close> and of a non-blocking pipe is
  written out as functions: \<open>poll_fds\<close> of the readiness of each descriptor,
  \<open>pipe_write\<close> and \<open>pipe_read\<close> of the number of bytes in the pipe. Parameter \<open>sk\<close>: a
  failed \<open>skassert\<close> traps.
\<close>

section \<open>The breaker\<close>

record SocketSelectBreaker =
  brk_pipe0 :: int
  brk_pipe1 :: int
  brk_create_success :: bool
  brk_broken :: bool

text \<open>The results of \<open>pipe\<close> and of the four \<open>fcntl\<close> calls of \<open>ReCreate\<close>.\<close>

record pipe_io =
  pi_ret :: int
  pi_fd0 :: int
  pi_fd1 :: int
  pi_getfl0 :: int
  pi_getfl1 :: int
  pi_setfl0 :: int
  pi_setfl1 :: int

text \<open>The last component of the result lists the descriptors that were closed.\<close>

definition ReCreate ::
  "bool \<Rightarrow> pipe_io \<Rightarrow> SocketSelectBreaker \<Rightarrow> (bool \<times> SocketSelectBreaker \<times> int list) cres" where
  "ReCreate sk io b =
     (let failed = b\<lparr>brk_pipe0 := -1, brk_pipe1 := -1, brk_create_success := False\<rparr>
      in ASSERT sk (pi_ret io \<noteq> -1)
          (if pi_ret io = -1 then Inr (False, failed, [])
           else if pi_getfl0 io < 0 \<or> pi_getfl1 io < 0
           then Inr (False, failed, [pi_fd0 io, pi_fd1 io])
           else if pi_setfl1 io = -1 \<or> pi_setfl0 io = -1
           then Inr (False, failed, [pi_fd0 io, pi_fd1 io])
           else Inr (True, b\<lparr>brk_pipe0 := pi_fd0 io, brk_pipe1 := pi_fd1 io, brk_create_success := True\<rparr>, [])))"

definition SocketSelectBreaker_new ::
  "bool \<Rightarrow> pipe_io \<Rightarrow> SocketSelectBreaker cres" where
  "SocketSelectBreaker_new sk io =
     bindE (ReCreate sk io \<lparr>brk_pipe0 = -1, brk_pipe1 = -1, brk_create_success = True, brk_broken = False\<rparr>)
       (\<lambda>(_, b, _). Inr b)"

definition IsCreateSuc :: "SocketSelectBreaker \<Rightarrow> bool" where
  "IsCreateSuc b = brk_create_success b"

text \<open>\<open>Break\<close>: \<open>wr\<close> is what \<open>write(pipes_[1], "1", 1)\<close> returns, if it is called.\<close>

definition Break :: "int \<Rightarrow> SocketSelectBreaker \<Rightarrow> bool \<times> SocketSelectBreaker" where
  "Break wr b =
     (if brk_broken b then (True, b)
      else
        let b = b\<lparr>brk_broken := True\<rparr>;
            b = (if wr < 0 \<or> wr \<noteq> 1 then b\<lparr>brk_broken := False\<rparr> else b)
        in (brk_broken b, b))"

text \<open>\<open>Clear\<close>: \<open>rd\<close> is what \<open>read(pipes_[0], dummy, 128)\<close> returns.\<close>

definition Clear :: "int \<Rightarrow> SocketSelectBreaker \<Rightarrow> bool \<times> SocketSelectBreaker" where
  "Clear rd b = (if rd < 0 then (False, b) else (True, b\<lparr>brk_broken := False\<rparr>))"

definition Breaker_Close :: "SocketSelectBreaker \<Rightarrow> SocketSelectBreaker \<times> int list" where
  "Breaker_Close b =
     (b\<lparr>brk_broken := True\<rparr>,
      (if brk_pipe1 b \<ge> 0 then [brk_pipe1 b] else []) @ (if brk_pipe0 b \<ge> 0 then [brk_pipe0 b] else []))"

definition BreakerFD :: "SocketSelectBreaker \<Rightarrow> int" where
  "BreakerFD b = brk_pipe0 b"

definition Breaker_IsBreak :: "SocketSelectBreaker \<Rightarrow> bool" where
  "Breaker_IsBreak b = brk_broken b"

section \<open>The set of watched descriptors\<close>

record pollfd =
  pfd :: int
  pevents :: "16 word"
  prevents :: "16 word"

definition POLLIN :: "16 word" where "POLLIN = 1"
definition POLLPRI :: "16 word" where "POLLPRI = 2"
definition POLLOUT :: "16 word" where "POLLOUT = 4"
definition POLLERR :: "16 word" where "POLLERR = 8"
definition POLLHUP :: "16 word" where "POLLHUP = 16"
definition POLLNVAL :: "16 word" where "POLLNVAL = 32"

lemmas poll_consts = POLLIN_def POLLPRI_def POLLOUT_def POLLERR_def POLLHUP_def POLLNVAL_def

record SocketSelect =
  ss_vfds :: "pollfd list"
  ss_ret :: int
  ss_errno :: int
  ss_autoclear :: bool

definition SocketSelect_new :: "bool \<Rightarrow> SocketSelect" where
  "SocketSelect_new autoclear = \<lparr>ss_vfds = [], ss_ret = 0, ss_errno = 0, ss_autoclear = autoclear\<rparr>"

definition breaker_item :: "SocketSelectBreaker \<Rightarrow> pollfd" where
  "breaker_item b = \<lparr>pfd = BreakerFD b, pevents = POLLIN OR POLLPRI OR POLLERR, prevents = 0\<rparr>"

definition PreSelect :: "SocketSelectBreaker \<Rightarrow> SocketSelect \<Rightarrow> SocketSelect" where
  "PreSelect b s = s\<lparr>ss_vfds := [breaker_item b], ss_ret := 0, ss_errno := 0\<rparr>"

definition Consign :: "SocketSelectBreaker \<Rightarrow> SocketSelect \<Rightarrow> SocketSelect \<Rightarrow> SocketSelect" where
  "Consign consignor_breaker consignor s =
     s\<lparr>ss_vfds := (ss_vfds s @ [breaker_item consignor_breaker]) @ ss_vfds consignor\<rparr>"

text \<open>The loop the three \<open>*_FD_SET\<close> operations share, with the bits they add.\<close>

fun add_events :: "16 word \<Rightarrow> int \<Rightarrow> pollfd list \<Rightarrow> pollfd list" where
  "add_events ev sock [] = [\<lparr>pfd = sock, pevents = ev, prevents = 0\<rparr>]"
| "add_events ev sock (x # xs) =
     (if pfd x = sock then x\<lparr>pevents := pevents x OR ev\<rparr> # xs else x # add_events ev sock xs)"

definition Read_FD_SET :: "int \<Rightarrow> SocketSelect \<Rightarrow> SocketSelect" where
  "Read_FD_SET sock s = s\<lparr>ss_vfds := add_events (POLLIN OR POLLERR) sock (ss_vfds s)\<rparr>"

definition Write_FD_SET :: "int \<Rightarrow> SocketSelect \<Rightarrow> SocketSelect" where
  "Write_FD_SET sock s = s\<lparr>ss_vfds := add_events (POLLOUT OR POLLERR) sock (ss_vfds s)\<rparr>"

definition Exception_FD_SET :: "int \<Rightarrow> SocketSelect \<Rightarrow> SocketSelect" where
  "Exception_FD_SET sock s = s\<lparr>ss_vfds := add_events POLLERR sock (ss_vfds s)\<rparr>"

text \<open>
  \<open>Select(int)\<close>: \<open>poll\<close> yields the return value, the array with \<open>revents\<close> filled in and
  \<open>errno\<close>; \<open>rd\<close> is the result of the \<open>read\<close> of \<open>Clear\<close>. \<open>&vfds_[0]\<close> of an empty vector
  is outside the vector.
\<close>

definition Select ::
  "(pollfd list \<Rightarrow> int \<Rightarrow> int \<times> pollfd list \<times> int) \<Rightarrow> int \<Rightarrow> int \<Rightarrow> SocketSelectBreaker \<Rightarrow> SocketSelect
    \<Rightarrow> (int \<times> SocketSelectBreaker \<times> SocketSelect) cres" where
  "Select poll rd msec b s =
     (if ss_vfds s = [] then Inl MemFault
      else
        let (ret, vfds, en) = poll (ss_vfds s) msec;
            s = s\<lparr>ss_vfds := vfds, ss_ret := ret, ss_errno := (if 0 > ret then en else ss_errno s)\<rparr>;
            b = (if ss_autoclear s then snd (Clear rd b) else b)
        in Inr (ret, b, s))"

text \<open>\<open>Select()\<close>\<close>

definition Select_forever ::
  "(pollfd list \<Rightarrow> int \<Rightarrow> int \<times> pollfd list \<times> int) \<Rightarrow> int \<Rightarrow> SocketSelectBreaker \<Rightarrow> SocketSelect
    \<Rightarrow> (int \<times> SocketSelectBreaker \<times> SocketSelect) cres" where
  "Select_forever poll rd b s = Select poll rd (-1) b s"

text \<open>The first entry of a descriptor, on which the \<open>*_ISSET\<close> loops return.\<close>

definition isset :: "16 word \<Rightarrow> int \<Rightarrow> SocketSelect \<Rightarrow> 16 word" where
  "isset bits sock s =
     (case find (\<lambda>x. pfd x = sock) (ss_vfds s) of None \<Rightarrow> 0 | Some x \<Rightarrow> prevents x AND bits)"

definition Read_FD_ISSET :: "int \<Rightarrow> SocketSelect \<Rightarrow> 16 word" where
  "Read_FD_ISSET sock s = isset (POLLIN OR POLLHUP) sock s"

definition Write_FD_ISSET :: "int \<Rightarrow> SocketSelect \<Rightarrow> 16 word" where
  "Write_FD_ISSET sock s = isset POLLOUT sock s"

definition Exception_FD_ISSET :: "int \<Rightarrow> SocketSelect \<Rightarrow> 16 word" where
  "Exception_FD_ISSET sock s = isset (POLLERR OR POLLNVAL) sock s"

definition IsException :: "SocketSelectBreaker \<Rightarrow> SocketSelect \<Rightarrow> bool" where
  "IsException b s \<longleftrightarrow> Exception_FD_ISSET (BreakerFD b) s \<noteq> 0"

definition IsBreak :: "SocketSelectBreaker \<Rightarrow> SocketSelect \<Rightarrow> bool" where
  "IsBreak b s \<longleftrightarrow> isset POLLIN (BreakerFD b) s \<noteq> 0"

definition Errno :: "SocketSelect \<Rightarrow> int" where
  "Errno s = ss_errno s"

text \<open>
  \<open>Report\<close>: the loops compare every entry with every entry of the consignor. \<open>x\<close> and \<open>y\<close>
  are copies of the vector elements, so the assignment to \<open>y.revents\<close> has no effect.
\<close>

fun report_row :: "bool \<Rightarrow> pollfd \<Rightarrow> pollfd list \<Rightarrow> int \<Rightarrow> int cres" where
  "report_row sk x [] event_count = Inr event_count"
| "report_row sk x (y # ys) event_count =
     ASSERT sk (pfd x \<noteq> pfd y \<or> (pfd x = pfd y \<and> pevents x = pevents y))
       (report_row sk x ys
          (if pfd x = pfd y \<and> pevents x = pevents y \<and> prevents x \<noteq> 0 then event_count + 1 else event_count))"

fun report_count :: "bool \<Rightarrow> pollfd list \<Rightarrow> pollfd list \<Rightarrow> int \<Rightarrow> int cres" where
  "report_count sk [] ys event_count = Inr event_count"
| "report_count sk (x # xs) ys event_count =
     bindE (report_row sk x ys event_count) (\<lambda>event_count. report_count sk xs ys event_count)"

definition Report ::
  "bool \<Rightarrow> int \<Rightarrow> SocketSelectBreaker \<Rightarrow> SocketSelect \<Rightarrow> int \<Rightarrow> SocketSelect
    \<Rightarrow> (bool \<times> SocketSelectBreaker \<times> SocketSelect) cres" where
  "Report sk rd cb consignor timeout s =
     bindE (report_count sk (ss_vfds s) (ss_vfds consignor) (if Breaker_IsBreak cb then 1 else 0)) (\<lambda>event_count.
     let cleared = (if ss_autoclear consignor then snd (Clear rd cb) else cb)
     in if 0 > ss_ret s then Inr (True, cleared, consignor\<lparr>ss_ret := ss_ret s, ss_errno := ss_errno s\<rparr>)
        else if ss_ret s = 0 \<and> 0 \<ge> timeout then Inr (True, cleared, consignor\<lparr>ss_ret := 0, ss_errno := ss_errno s\<rparr>)
        else if 0 < event_count
        then Inr (True, cleared, consignor\<lparr>ss_ret := (if 0 < ss_ret s then ss_ret s else 1), ss_errno := ss_errno s\<rparr>)
        else Inr (False, cb, consignor))"

section \<open>What poll and the pipe do\<close>

text \<open>
  \<open>poll\<close> on an array, given the readiness \<open>rdy\<close> of each descriptor: negative descriptors
  are skipped; \<open>POLLERR\<close>, \<open>POLLHUP\<close> and \<open>POLLNVAL\<close> are reported unasked.
\<close>

definition poll_fds :: "(int \<Rightarrow> 16 word) \<Rightarrow> pollfd list \<Rightarrow> pollfd list" where
  "poll_fds rdy = map (\<lambda>x. x\<lparr>prevents := (if pfd x < 0 then 0
       else rdy (pfd x) AND (pevents x OR (POLLERR OR POLLHUP OR POLLNVAL)))\<rparr>)"

definition poll_ready :: "(int \<Rightarrow> 16 word) \<Rightarrow> pollfd list \<Rightarrow> int \<Rightarrow> int \<times> pollfd list \<times> int" where
  "poll_ready rdy vfds msec =
     (int (length (filter (\<lambda>x. prevents x \<noteq> 0) (poll_fds rdy vfds))), poll_fds rdy vfds, 0)"

text \<open>
  A non-blocking pipe with room for \<open>cap\<close> bytes that holds \<open>n\<close>: a short write is all or
  nothing, a read of an empty pipe fails.
\<close>

definition pipe_write :: "nat \<Rightarrow> nat \<Rightarrow> nat \<Rightarrow> int \<times> nat" where
  "pipe_write cap len n = (if n + len \<le> cap then (int len, n + len) else (-1, n))"

definition pipe_read :: "nat \<Rightarrow> nat \<Rightarrow> int \<times> nat" where
  "pipe_read len n = (if n = 0 then (-1, 0) else (int (min len n), n - min len n))"

definition pipe_ready :: "nat \<Rightarrow> 16 word" where
  "pipe_ready n = (if n = 0 then 0 else POLLIN)"

text \<open>
  The breaker and its pipe under calls of \<open>Break\<close> and \<open>Clear\<close>, which \<open>mutex_\<close> makes
  atomic, from any number of threads. A step returns what the call returns.
\<close>

datatype brk_op = OpBreak | OpClear

fun brk_step :: "nat \<Rightarrow> brk_op \<Rightarrow> SocketSelectBreaker \<times> nat \<Rightarrow> bool \<times> SocketSelectBreaker \<times> nat" where
  "brk_step cap OpBreak (b, n) =
     (if brk_broken b then (case Break 0 b of (r, b) \<Rightarrow> (r, b, n))
      else (case pipe_write cap 1 n of (wr, n) \<Rightarrow> (case Break wr b of (r, b) \<Rightarrow> (r, b, n))))"
| "brk_step cap OpClear (b, n) =
     (case pipe_read 128 n of (rd, n) \<Rightarrow> (case Clear rd b of (r, b) \<Rightarrow> (r, b, n)))"

fun brk_run :: "nat \<Rightarrow> brk_op list \<Rightarrow> SocketSelectBreaker \<times> nat \<Rightarrow> SocketSelectBreaker \<times> nat" where
  "brk_run cap [] st = st"
| "brk_run cap (op # ops) st = brk_run cap ops (snd (brk_step cap op st))"

text \<open>Requests of a client between \<open>PreSelect\<close> and \<open>Select\<close>.\<close>

datatype fd_request = ReqRead int | ReqWrite int | ReqException int

primrec fd_set :: "fd_request \<Rightarrow> SocketSelect \<Rightarrow> SocketSelect" where
  "fd_set (ReqRead fd) = Read_FD_SET fd"
| "fd_set (ReqWrite fd) = Write_FD_SET fd"
| "fd_set (ReqException fd) = Exception_FD_SET fd"

section \<open>Lemmas\<close>

lemma and_nonzero_iff: "(x AND m) \<noteq> 0 \<longleftrightarrow> (\<exists>i. bit x i \<and> bit m i)" for x m :: "'a::len word"
  by (auto simp: bit_eq_iff bit_and_iff dest: bit_imp_le_length)

lemma poll_exps:
  "POLLIN = 2 ^ 0" "POLLPRI = 2 ^ 1" "POLLOUT = 2 ^ 2" "POLLERR = 2 ^ 3" "POLLHUP = 2 ^ 4" "POLLNVAL = 2 ^ 5"
  by (simp_all add: poll_consts)

lemma bit_two_exp16: "bit ((2 :: 16 word) ^ n) i \<longleftrightarrow> n < 16 \<and> i = n"
  by (auto simp: bit_exp_iff)

lemma bit_poll_consts [simp]:
  "bit POLLIN i \<longleftrightarrow> i = 0" "bit POLLPRI i \<longleftrightarrow> i = 1" "bit POLLOUT i \<longleftrightarrow> i = 2"
  "bit POLLERR i \<longleftrightarrow> i = 3" "bit POLLHUP i \<longleftrightarrow> i = 4" "bit POLLNVAL i \<longleftrightarrow> i = 5"
  unfolding poll_exps by (rule trans[OF bit_two_exp16], simp)+

lemma find_add_events:
  "find (\<lambda>x. pfd x = fd) (add_events ev sock xs) =
     (if fd = sock then
        Some (case find (\<lambda>x. pfd x = fd) xs of None \<Rightarrow> \<lparr>pfd = sock, pevents = ev, prevents = 0\<rparr>
              | Some x \<Rightarrow> x\<lparr>pevents := pevents x OR ev\<rparr>)
      else find (\<lambda>x. pfd x = fd) xs)"
  by (induction xs) auto

lemma find_poll_fds:
  "find (\<lambda>x. pfd x = fd) (poll_fds rdy xs) =
     map_option (\<lambda>x. x\<lparr>prevents := (if pfd x < 0 then 0
       else rdy (pfd x) AND (pevents x OR (POLLERR OR POLLHUP OR POLLNVAL)))\<rparr>) (find (\<lambda>x. pfd x = fd) xs)"
  by (induction xs) (auto simp: poll_fds_def)

definition req_fd :: "fd_request \<Rightarrow> int" where
  "req_fd r = (case r of ReqRead fd \<Rightarrow> fd | ReqWrite fd \<Rightarrow> fd | ReqException fd \<Rightarrow> fd)"

definition req_mask :: "fd_request \<Rightarrow> 16 word" where
  "req_mask r = (case r of ReqRead fd \<Rightarrow> POLLIN OR POLLERR | ReqWrite fd \<Rightarrow> POLLOUT OR POLLERR | ReqException fd \<Rightarrow> POLLERR)"

lemma fd_set_vfds: "ss_vfds (fd_set r s) = add_events (req_mask r) (req_fd r) (ss_vfds s)"
  by (cases r) (simp_all add: req_mask_def req_fd_def Read_FD_SET_def Write_FD_SET_def Exception_FD_SET_def)

text \<open>The events an array asks for, per descriptor.\<close>

definition events_of :: "int \<Rightarrow> pollfd list \<Rightarrow> 16 word option" where
  "events_of fd xs = map_option pevents (find (\<lambda>x. pfd x = fd) xs)"

lemma events_of_add:
  "events_of fd (add_events ev sock xs) =
     (if fd = sock then Some (case events_of fd xs of None \<Rightarrow> ev | Some e \<Rightarrow> e OR ev) else events_of fd xs)"
  by (simp add: events_of_def find_add_events split: option.splits)

lemma events_of_requests:
  "events_of fd (ss_vfds (fold fd_set rs s)) =
     (if \<exists>r\<in>set rs. req_fd r = fd
      then Some (fold (\<lambda>r e. e OR req_mask r) (filter (\<lambda>r. req_fd r = fd) rs)
                  (case events_of fd (ss_vfds s) of None \<Rightarrow> 0 | Some e \<Rightarrow> e))
      else events_of fd (ss_vfds s))"
  by (induction rs arbitrary: s) (auto simp: fd_set_vfds events_of_add or.commute split: option.splits)

lemma bit_fold_or: "bit (fold (\<lambda>r e. e OR f r) rs e) i \<longleftrightarrow> bit e i \<or> (\<exists>r\<in>set rs. bit (f r) i)" for f :: "'b \<Rightarrow> 16 word"
  by (induction rs arbitrary: e) (auto simp: bit_or_iff)

lemma bit_req_mask: "bit (req_mask r) 0 \<longleftrightarrow> r = ReqRead (req_fd r)" "bit (req_mask r) 2 \<longleftrightarrow> r = ReqWrite (req_fd r)"
  by (cases r; simp add: req_mask_def req_fd_def bit_or_iff)+

lemma add_events_nonempty [simp]: "add_events ev sock xs \<noteq> []"
  by (cases xs) auto

lemma fold_fd_set_nonempty: "ss_vfds s \<noteq> [] \<Longrightarrow> ss_vfds (fold fd_set rs s) \<noteq> []"
  by (induction rs arbitrary: s) (auto simp: fd_set_vfds)

lemma isset_poll:
  assumes "ss_vfds s = poll_fds rdy xs" and "0 \<le> fd"
  shows "isset bits fd s = (case events_of fd xs of None \<Rightarrow> 0
    | Some ev \<Rightarrow> (rdy fd AND (ev OR (POLLERR OR POLLHUP OR POLLNVAL))) AND bits)"
proof (cases "find (\<lambda>x. pfd x = fd) xs")
  case None
  then show ?thesis using assms by (simp add: isset_def find_poll_fds events_of_def)
next
  case (Some x)
  then have "pfd x = fd" by (auto simp: find_Some_iff)
  with Some assms show ?thesis by (simp add: isset_def find_poll_fds events_of_def)
qed

lemma fd_set_frame1: "ss_autoclear (fd_set r s) = ss_autoclear s \<and> ss_errno (fd_set r s) = ss_errno s"
  by (cases r) (simp_all add: Read_FD_SET_def Write_FD_SET_def Exception_FD_SET_def)

lemma fd_set_frame: "ss_autoclear (fold fd_set rs s) = ss_autoclear s"
  "ss_errno (fold fd_set rs s) = ss_errno s"
  by (induction rs arbitrary: s) (simp_all add: fd_set_frame1)

lemma Select_ready:
  assumes "\<not> ss_autoclear s"
  obtains s' where
    "Select (poll_ready rdy) rd msec b (fold fd_set rs (PreSelect b s)) = Inr (ss_ret s', b, s')"
    "ss_vfds s' = poll_fds rdy (ss_vfds (fold fd_set rs (PreSelect b s)))"
proof -
  let ?s = "fold fd_set rs (PreSelect b s)"
  let ?s' = "?s\<lparr>ss_vfds := poll_fds rdy (ss_vfds ?s), ss_ret := fst (poll_ready rdy (ss_vfds ?s) msec),
    ss_errno := ss_errno ?s\<rparr>"
  have "Select (poll_ready rdy) rd msec b ?s = Inr (ss_ret ?s', b, ?s')"
    using assms fold_fd_set_nonempty[of "PreSelect b s" rs]
    by (simp add: Select_def poll_ready_def fd_set_frame PreSelect_def)
  then show ?thesis using that[of ?s'] by simp
qed

section \<open>Properties\<close>

text \<open>
  C26: After \<open>PreSelect\<close> and any sequence of \<open>*_FD_SET\<close> calls, in any order and with
  repetitions, \<open>Select\<close> succeeds and the \<open>*_ISSET\<close> queries answer exactly what was asked for
  and is ready: a descriptor is readable if its hang-up is reported or reading was requested
  and it has input, writable only if writing was requested, exceptional only if it was
  watched at all; descriptors that were not passed are never reported.
\<close>

theorem Select_reports_requested:
  assumes "0 \<le> fd" and "fd \<noteq> BreakerFD b"
  shows "\<exists>s'. Select (poll_ready rdy) rd msec b (fold fd_set rs (PreSelect b (SocketSelect_new False)))
        = Inr (ss_ret s', b, s')
    \<and> (Read_FD_ISSET fd s' \<noteq> 0 \<longleftrightarrow> (\<exists>r\<in>set rs. req_fd r = fd) \<and> (rdy fd AND POLLHUP) \<noteq> 0
          \<or> ReqRead fd \<in> set rs \<and> (rdy fd AND POLLIN) \<noteq> 0)
    \<and> (Write_FD_ISSET fd s' \<noteq> 0 \<longleftrightarrow> ReqWrite fd \<in> set rs \<and> (rdy fd AND POLLOUT) \<noteq> 0)
    \<and> (Exception_FD_ISSET fd s' \<noteq> 0 \<longleftrightarrow> (\<exists>r\<in>set rs. req_fd r = fd) \<and> (rdy fd AND (POLLERR OR POLLNVAL)) \<noteq> 0)"
proof -
  define s where "s = fold fd_set rs (PreSelect b (SocketSelect_new False))"
  obtain s' where sel: "Select (poll_ready rdy) rd msec b s = Inr (ss_ret s', b, s')"
    and v: "ss_vfds s' = poll_fds rdy (ss_vfds s)"
    using Select_ready[of "SocketSelect_new False"] unfolding s_def by (metis SocketSelect_new_def SocketSelect.select_convs(4))
  have none: "events_of fd (ss_vfds (PreSelect b (SocketSelect_new False))) = None"
    using assms(2) by (simp add: events_of_def PreSelect_def breaker_item_def)
  have ev: "events_of fd (ss_vfds s) = (if \<exists>r\<in>set rs. req_fd r = fd
      then Some (fold (\<lambda>r e. e OR req_mask r) (filter (\<lambda>r. req_fd r = fd) rs) 0) else None)"
    by (simp add: s_def events_of_requests none)
  have rd: "(\<exists>r\<in>set rs. req_fd r = fd \<and> bit (req_mask r) 0) \<longleftrightarrow> ReqRead fd \<in> set rs"
    and wr: "(\<exists>r\<in>set rs. req_fd r = fd \<and> bit (req_mask r) 2) \<longleftrightarrow> ReqWrite fd \<in> set rs"
    by (metis bit_req_mask fd_request.simps(10,11) req_fd_def)+
  note bits = isset_poll[OF v assms(1)] ev and_nonzero_iff bit_and_iff bit_or_iff bit_fold_or
  have "Read_FD_ISSET fd s' \<noteq> 0 \<longleftrightarrow> (\<exists>r\<in>set rs. req_fd r = fd) \<and> (rdy fd AND POLLHUP) \<noteq> 0
          \<or> ReqRead fd \<in> set rs \<and> (rdy fd AND POLLIN) \<noteq> 0"
    unfolding rd[symmetric] by (auto simp: Read_FD_ISSET_def bits)
  moreover have "Write_FD_ISSET fd s' \<noteq> 0 \<longleftrightarrow> ReqWrite fd \<in> set rs \<and> (rdy fd AND POLLOUT) \<noteq> 0"
    unfolding wr[symmetric] by (auto simp: Write_FD_ISSET_def bits)
  moreover have "Exception_FD_ISSET fd s' \<noteq> 0 \<longleftrightarrow>
      (\<exists>r\<in>set rs. req_fd r = fd) \<and> (rdy fd AND (POLLERR OR POLLNVAL)) \<noteq> 0"
    by (auto simp: Exception_FD_ISSET_def bits)
  ultimately show ?thesis using sel unfolding s_def by blast
qed

definition demo_breaker :: SocketSelectBreaker where
  "demo_breaker = \<lparr>brk_pipe0 = 3, brk_pipe1 = 4, brk_create_success = True, brk_broken = False\<rparr>"

theorem Select_reports_requested_witness:
  "\<exists>s'. Select (poll_ready (\<lambda>fd. if fd = 7 then POLLOUT else 0)) 0 100 demo_breaker
        (fold fd_set [ReqException 7, ReqWrite 7, ReqRead 7] (PreSelect demo_breaker (SocketSelect_new False)))
        = Inr (ss_ret s', demo_breaker, s')
    \<and> Write_FD_ISSET 7 s' \<noteq> 0 \<and> Read_FD_ISSET 7 s' = 0 \<and> Exception_FD_ISSET 7 s' = 0"
proof -
  have "(0::int) \<le> 7" and "7 \<noteq> BreakerFD demo_breaker"
    by (simp_all add: BreakerFD_def demo_breaker_def)
  from Select_reports_requested[OF this, of "\<lambda>fd. if fd = 7 then POLLOUT else 0" 0 100
      "[ReqException 7, ReqWrite 7, ReqRead 7]"]
  show ?thesis by (auto simp: and_nonzero_iff bit_or_iff poll_consts simp del: fold.simps)
qed

definition brk_inv :: "SocketSelectBreaker \<times> nat \<Rightarrow> bool" where
  "brk_inv st \<longleftrightarrow> snd st = (if brk_broken (fst st) then 1 else 0)"

lemma brk_step_inv: "1 \<le> cap \<Longrightarrow> brk_inv st \<Longrightarrow> brk_inv (snd (brk_step cap op st))"
  by (cases st; cases op) (auto simp: brk_inv_def Break_def Clear_def pipe_write_def pipe_read_def)

lemma brk_step_fd: "BreakerFD (fst (snd (brk_step cap op st))) = BreakerFD (fst st)"
  by (cases st; cases op) (auto simp: BreakerFD_def Break_def Clear_def case_prod_beta Let_def)

lemma brk_run_inv: "1 \<le> cap \<Longrightarrow> brk_inv st \<Longrightarrow> brk_inv (brk_run cap ops st)"
  by (induction ops arbitrary: st) (simp_all add: brk_step_inv)

lemma brk_run_fd: "BreakerFD (fst (brk_run cap ops st)) = BreakerFD (fst st)"
  by (induction ops arbitrary: st) (simp_all add: brk_step_fd)

text \<open>Whatever else is watched, the entry of the breaker asks for input.\<close>

lemma breaker_watched:
  "\<exists>e. events_of (BreakerFD b) (ss_vfds (fold fd_set rs (PreSelect b s))) = Some e \<and> bit e 0"
proof -
  have "events_of (BreakerFD b) (ss_vfds (PreSelect b s)) = Some (POLLIN OR POLLPRI OR POLLERR)"
    by (simp add: events_of_def PreSelect_def breaker_item_def)
  then show ?thesis by (auto simp: events_of_requests bit_fold_or bit_or_iff)
qed

lemma IsBreak_poll:
  assumes "ss_vfds s' = poll_fds rdy (ss_vfds (fold fd_set rs (PreSelect b s)))" and "0 \<le> BreakerFD b"
  shows "IsBreak b s' \<longleftrightarrow> (rdy (BreakerFD b) AND POLLIN) \<noteq> 0"
proof -
  obtain e where "events_of (BreakerFD b) (ss_vfds (fold fd_set rs (PreSelect b s))) = Some e" "bit e 0"
    using breaker_watched by blast
  then show ?thesis
    by (auto simp: IsBreak_def isset_poll[OF assms] and_nonzero_iff bit_and_iff bit_or_iff)
qed

text \<open>
  C32: The wake-up channel never loses or piles up a break. After any sequence of \<open>Break\<close>
  and \<open>Clear\<close> calls on a breaker that was created successfully, the pipe holds one byte if
  the breaker is broken and none otherwise; \<open>Break\<close> succeeds, \<open>Clear\<close> succeeds exactly when
  there is a break to clear; and a \<open>Select\<close> that polls the pipe, whatever else it watches,
  reports \<open>IsBreak\<close> exactly when the breaker is broken.
\<close>

theorem Breaker_wakes_select:
  assumes "SocketSelectBreaker_new sk io = Inr b0" and "IsCreateSuc b0" and "1 \<le> cap" and "0 \<le> pi_fd0 io"
    and "brk_run cap ops (b0, 0) = (b, n)" and "rdy (BreakerFD b) = pipe_ready n"
    and "Select (poll_ready rdy) rd msec b (fold fd_set rs (PreSelect b s)) = Inr (r, b', s')"
  shows "n = (if Breaker_IsBreak b then 1 else 0) \<and> fst (brk_step cap OpBreak (b, n))
    \<and> fst (brk_step cap OpClear (b, n)) = Breaker_IsBreak b
    \<and> (IsBreak b s' \<longleftrightarrow> Breaker_IsBreak b)"
proof -
  have b0: "\<not> brk_broken b0" "BreakerFD b0 = pi_fd0 io"
    using assms(1,2) by (auto simp: SocketSelectBreaker_new_def ReCreate_def ASSERT_def IsCreateSuc_def
        BreakerFD_def Let_def split: if_splits)
  have inv: "n = (if Breaker_IsBreak b then 1 else 0)"
    using brk_run_inv[OF assms(3), of "(b0, 0)" ops] assms(5) b0
    by (simp add: brk_inv_def Breaker_IsBreak_def)
  have fd: "0 \<le> BreakerFD b" using brk_run_fd[of cap ops "(b0, 0)"] assms(4,5) b0 by simp
  have v: "ss_vfds s' = poll_fds rdy (ss_vfds (fold fd_set rs (PreSelect b s)))"
    using assms(7) by (auto simp: Select_def poll_ready_def Let_def split: if_splits)
  have "IsBreak b s' \<longleftrightarrow> Breaker_IsBreak b"
    using IsBreak_poll[OF v fd] assms(6) inv by (auto simp: pipe_ready_def and_nonzero_iff)
  then show ?thesis
    using inv assms(3)
    by (auto simp: Break_def Clear_def pipe_write_def pipe_read_def Breaker_IsBreak_def)
qed

theorem Breaker_wakes_select_witness:
  "\<exists>b n s'. brk_run 4096 [OpBreak, OpClear, OpClear, OpBreak, OpBreak] (demo_breaker, 0) = (b, n)
    \<and> Select (poll_ready (\<lambda>fd. pipe_ready n)) 0 1000 b (fold fd_set [ReqRead 9] (PreSelect b (SocketSelect_new False)))
        = Inr (ss_ret s', b, s')
    \<and> n = 1 \<and> IsBreak b s'"
proof -
  define io where "io = \<lparr>pi_ret = 0, pi_fd0 = 3, pi_fd1 = 4, pi_getfl0 = 0, pi_getfl1 = 1, pi_setfl0 = 0, pi_setfl1 = 0\<rparr>"
  have new: "SocketSelectBreaker_new True io = Inr demo_breaker"
    by (simp add: SocketSelectBreaker_new_def ReCreate_def io_def demo_breaker_def)
  define b where "b = demo_breaker\<lparr>brk_broken := True\<rparr>"
  have run: "brk_run 4096 [OpBreak, OpClear, OpClear, OpBreak, OpBreak] (demo_breaker, 0) = (b, 1)"
    by (simp add: b_def demo_breaker_def Break_def Clear_def pipe_write_def pipe_read_def)
  define s where "s = fold fd_set [ReqRead 9] (PreSelect b (SocketSelect_new False))"
  define rdy :: "int \<Rightarrow> 16 word" where "rdy = (\<lambda>fd. pipe_ready 1)"
  obtain s' where sel: "Select (poll_ready rdy) 0 1000 b s = Inr (ss_ret s', b, s')"
    using Select_ready[of "SocketSelect_new False"] unfolding s_def by (metis SocketSelect_new_def SocketSelect.select_convs(4))
  have "IsBreak b s'"
    using Breaker_wakes_select[OF new _ _ _ run _ sel[unfolded s_def]]
    by (simp add: io_def IsCreateSuc_def demo_breaker_def Breaker_IsBreak_def b_def rdy_def)
  then show ?thesis using run sel unfolding s_def rdy_def by blast
qed

lemma Report_vfds: "Report sk rd cb c t s = Inr (r, cb', c') \<Longrightarrow> ss_vfds c' = ss_vfds c"
  by (auto simp: Report_def bindE_eq_Inr Let_def split: if_splits)

lemma add_events_revents:
  "\<forall>x\<in>set xs. prevents x = 0 \<Longrightarrow> \<forall>x\<in>set (add_events ev sock xs). prevents x = 0"
  by (induction xs) auto

lemma fold_fd_set_revents:
  "\<forall>x\<in>set (ss_vfds s). prevents x = 0 \<Longrightarrow> \<forall>x\<in>set (ss_vfds (fold fd_set rs s)). prevents x = 0"
proof (induction rs arbitrary: s)
  case (Cons r rs)
  have "\<forall>x\<in>set (ss_vfds (fd_set r s)). prevents x = 0"
    unfolding fd_set_vfds by (rule add_events_revents[OF Cons.prems])
  then show ?case using Cons.IH by simp
qed simp

lemma isset_quiet: "\<forall>x\<in>set (ss_vfds s). prevents x = 0 \<Longrightarrow> isset bits fd s = 0"
  by (auto simp: isset_def find_Some_iff split: option.splits)

text \<open>
  \<open>Report\<close> does not report. Whatever the shared \<open>poll\<close> found, a consignor that prepared its
  set (\<open>PreSelect\<close> and any \<open>*_FD_SET\<close> calls) sees no event afterwards: every
  \<open>*_ISSET\<close> query, \<open>IsBreak\<close> and \<open>IsException\<close> answer no, because \<open>revents\<close> is stored in a copy
  of the vector element. \<open>Report\<close> still returns true and a positive \<open>ret_\<close>.
\<close>

theorem Report_loses_events:
  assumes "Report sk rd cb (fold fd_set rs (PreSelect cb c)) t s = Inr (r, cb', c')"
  shows "Read_FD_ISSET fd c' = 0 \<and> Write_FD_ISSET fd c' = 0 \<and> Exception_FD_ISSET fd c' = 0
    \<and> \<not> IsBreak cb' c' \<and> \<not> IsException cb' c'"
proof -
  have "\<forall>x\<in>set (ss_vfds (PreSelect cb c)). prevents x = 0"
    by (simp add: PreSelect_def breaker_item_def)
  then have "\<forall>x\<in>set (ss_vfds c'). prevents x = 0"
    using fold_fd_set_revents Report_vfds[OF assms] by metis
  from isset_quiet[OF this] show ?thesis
    by (simp add: Read_FD_ISSET_def Write_FD_ISSET_def Exception_FD_ISSET_def IsBreak_def IsException_def)
qed

theorem Report_loses_events_witness:
  "\<exists>c'. Report True 0 demo_breaker (fold fd_set [ReqRead 7] (PreSelect demo_breaker (SocketSelect_new False))) 1000
       \<lparr>ss_vfds = [\<lparr>pfd = 7, pevents = POLLIN OR POLLERR, prevents = POLLIN\<rparr>], ss_ret = 1, ss_errno = 0, ss_autoclear = False\<rparr>
     = Inr (True, demo_breaker, c') \<and> ss_ret c' = 1 \<and> Read_FD_ISSET 7 c' = 0"
proof -
  define s where "s = \<lparr>ss_vfds = [\<lparr>pfd = 7, pevents = POLLIN OR POLLERR, prevents = POLLIN\<rparr>], ss_ret = 1,
    ss_errno = 0, ss_autoclear = False\<rparr>"
  define c where "c = fold fd_set [ReqRead 7] (PreSelect demo_breaker (SocketSelect_new False))"
  have "Report True 0 demo_breaker c 1000 s = Inr (True, demo_breaker, c\<lparr>ss_ret := 1, ss_errno := 0\<rparr>)"
    by (simp add: Report_def c_def s_def PreSelect_def SocketSelect_new_def Read_FD_SET_def breaker_item_def
        demo_breaker_def BreakerFD_def Breaker_IsBreak_def poll_consts)
  with Report_loses_events[of True 0 demo_breaker "[ReqRead 7]" "SocketSelect_new False" 1000 s]
  show ?thesis unfolding s_def c_def by fastforce
qed

end
