(* ===== verification/TcpClientFsm.thy ===== *)
theory TcpClientFsm
  imports AutoBuffer SocketSelect "HOL-Library.Multiset"
begin

text \<open>
  Model of \<open>network/tcpclient_fsm.h\<close> and \<open>network/tcpclient_fsm.cc\<close>: a client connection
  driven by \<open>PreSelect\<close>, \<open>Select\<close> and \<open>AfterSelect\<close>. The object is the record
  \<open>TcpClientFSM\<close>; derived classes extend the record, as they extend the class, and supply
  their virtual functions in a table. Each handler takes a record with the results of the
  system calls and clock readings it may make (every call site is executed at most once per
  handler) and returns the new object and the list of effects on the system, in order.

  \<open>sk\<close>: a failed \<open>skassert\<close> traps; \<open>ae\<close> and \<open>mem_ok\<close> as in \<open>AutoBuffer\<close>. The calls
  \<open>getNetInfo\<close>, \<open>socket_fix_tcp_mss\<close> and \<open>socket_ipv6only\<close> only have their result logged and
  are left out, as is all logging. The address is the byte image of the \<open>sockaddr\<close>.
\<close>

section \<open>State\<close>

datatype TSocketStatus = EStart | EConnecting | EReadWrite | EEnd

fun status_rank :: "TSocketStatus \<Rightarrow> nat" where
  "status_rank EStart = 0"
| "status_rank EConnecting = 1"
| "status_rank EReadWrite = 2"
| "status_rank EEnd = 3"

lemma status_rank_inj: "status_rank a = status_rank b \<Longrightarrow> a = b"
  by (cases a; cases b) simp_all

text \<open>The order of the enumerators of the C++ \<open>enum\<close>.\<close>

instantiation TSocketStatus :: linorder
begin

definition less_eq_TSocketStatus :: "TSocketStatus \<Rightarrow> TSocketStatus \<Rightarrow> bool" where
  "less_eq_TSocketStatus a b \<longleftrightarrow> status_rank a \<le> status_rank b"

definition less_TSocketStatus :: "TSocketStatus \<Rightarrow> TSocketStatus \<Rightarrow> bool" where
  "less_TSocketStatus a b \<longleftrightarrow> status_rank a < status_rank b"

instance
  by standard (auto simp: less_eq_TSocketStatus_def less_TSocketStatus_def dest: status_rank_inj)

end

lemmas status_order = less_eq_TSocketStatus_def less_TSocketStatus_def

lemma le_EEnd [simp]: "s \<le> EEnd"
  by (cases s) (simp_all add: status_order)

lemma le_EStart [simp]: "s \<le> EStart \<longleftrightarrow> s = EStart"
  by (cases s) (simp_all add: status_order)

record TcpClientFSM =
  fsm_status :: TSocketStatus
  fsm_last_status :: TSocketStatus
  fsm_error :: int
  fsm_remote_close :: bool
  fsm_request_send :: bool
  fsm_addr :: "byte list"
  fsm_sock :: int
  fsm_start_connecttime :: u64
  fsm_end_connecttime :: u64
  fsm_send_buf :: AutoBuffer
  fsm_recv_buf :: AutoBuffer

abbreviation (input) INVALID_SOCKET :: int where "INVALID_SOCKET \<equiv> -1"

definition INT_MAX :: int where "INT_MAX = 2147483647"
definition ETIMEDOUT :: int where "ETIMEDOUT = 110"
definition EINPROGRESS :: int where "EINPROGRESS = 115"
definition EAGAIN :: int where "EAGAIN = 11"

definition IS_NOBLOCK_CONNECT_ERRNO :: "int \<Rightarrow> bool" where
  "IS_NOBLOCK_CONNECT_ERRNO err \<longleftrightarrow> err = EINPROGRESS"

text \<open>\<open>EWOULDBLOCK\<close> is \<open>EAGAIN\<close>; the macro is the same for sending and receiving.\<close>

definition IS_NOBLOCK_WRITE_ERRNO :: "int \<Rightarrow> bool" where
  "IS_NOBLOCK_WRITE_ERRNO err \<longleftrightarrow> err = EAGAIN"

definition IS_NOBLOCK_READ_ERRNO :: "int \<Rightarrow> bool" where
  "IS_NOBLOCK_READ_ERRNO err \<longleftrightarrow> err = EAGAIN"

text \<open>Results of the system calls and readings of \<open>gettickcount()\<close> during one handler.\<close>

record fsm_io =
  io_socket :: int
  io_socket_errno :: int
  io_nobio :: int
  io_nobio_errno :: int
  io_connect :: int
  io_connect_errno :: int
  io_getsockopt :: int
  io_so_error :: int
  io_getsockopt_errno :: int
  io_send :: int
  io_send_errno :: int
  io_recv :: int
  io_recv_data :: "byte list"
  io_recv_errno :: int
  io_t_start :: u64
  io_t_end :: u64
  io_t_timeout :: u64

datatype sys_event =
  EvSocket int
| EvConnect int "byte list"
| EvClose int
| EvSend int "byte list"
| EvRecv int "byte list"

text \<open>The virtual functions. Those that read the clock or ask an observer find it in the first argument.\<close>

record ('i, 'f) fsm_virtuals =
  v_OnCreate :: "'i \<Rightarrow> 'f \<Rightarrow> 'f"
  v_OnConnect :: "'i \<Rightarrow> 'f \<Rightarrow> 'f"
  v_OnConnected :: "'i \<Rightarrow> int \<Rightarrow> 'f \<Rightarrow> 'f"
  v_OnRecv :: "'i \<Rightarrow> int \<Rightarrow> 'f \<Rightarrow> 'f"
  v_OnRequestSend :: "'i \<Rightarrow> 'f \<Rightarrow> 'f"
  v_OnSend :: "'i \<Rightarrow> int \<Rightarrow> 'f \<Rightarrow> 'f"
  v_OnClose :: "'i \<Rightarrow> TSocketStatus \<Rightarrow> int \<Rightarrow> bool \<Rightarrow> 'f \<Rightarrow> 'f"
  v_ConnectTimeout :: "u64 \<Rightarrow> 'f \<Rightarrow> int"
  v_ReadWriteTimeout :: "u64 \<Rightarrow> 'f \<Rightarrow> int"

text \<open>The defaults of the base class.\<close>

definition base_ConnectTimeout :: int where "base_ConnectTimeout = INT_MAX"
definition base_ReadWriteTimeout :: int where "base_ReadWriteTimeout = INT_MAX"
definition base_ConnectAbsTimeout :: int where "base_ConnectAbsTimeout = INT_MAX"
definition base_ReadWriteAbsTimeout :: int where "base_ReadWriteAbsTimeout = INT_MAX"
definition base_OnRequestSend :: "'f \<Rightarrow> 'f" where "base_OnRequestSend f = f"

section \<open>Operations\<close>

definition TcpClientFSM_new :: "byte list \<Rightarrow> TcpClientFSM" where
  "TcpClientFSM_new addr =
     \<lparr>fsm_status = EStart, fsm_last_status = EStart, fsm_error = 0, fsm_remote_close = False,
      fsm_request_send = False, fsm_addr = addr, fsm_sock = INVALID_SOCKET,
      fsm_start_connecttime = 0, fsm_end_connecttime = 0,
      fsm_send_buf = AutoBuffer_new 128, fsm_recv_buf = AutoBuffer_new 128\<rparr>"

definition RequestSend :: "'a TcpClientFSM_scheme \<Rightarrow> 'a TcpClientFSM_scheme" where
  "RequestSend f = f\<lparr>fsm_request_send := True\<rparr>"

definition Status_set :: "TSocketStatus \<Rightarrow> 'a TcpClientFSM_scheme \<Rightarrow> 'a TcpClientFSM_scheme" where
  "Status_set st f = f\<lparr>fsm_last_status := st, fsm_status := st\<rparr>"

definition IsEndStatus :: "'a TcpClientFSM_scheme \<Rightarrow> bool" where
  "IsEndStatus f \<longleftrightarrow> EEnd = fsm_status f"

definition Socket_set :: "int \<Rightarrow> 'a TcpClientFSM_scheme \<Rightarrow> 'a TcpClientFSM_scheme" where
  "Socket_set s f = f\<lparr>fsm_sock := s\<rparr>"

text \<open>\<open>int(end_connecttime_ - start_connecttime_)\<close>\<close>

definition Rtt :: "'a TcpClientFSM_scheme \<Rightarrow> int" where
  "Rtt f = sint (ucast (fsm_end_connecttime f - fsm_start_connecttime f) :: u32)"

text \<open>\<open>last_status_ = status_; status_ = s\<close>, which ends every transition.\<close>

definition goto :: "TSocketStatus \<Rightarrow> 'a TcpClientFSM_scheme \<Rightarrow> 'a TcpClientFSM_scheme" where
  "goto s f = f\<lparr>fsm_last_status := fsm_status f, fsm_status := s\<rparr>"

definition fsm_Close ::
  "('i, 'a TcpClientFSM_scheme) fsm_virtuals \<Rightarrow> 'i \<Rightarrow> bool \<Rightarrow> 'a TcpClientFSM_scheme
    \<Rightarrow> 'a TcpClientFSM_scheme \<times> sys_event list" where
  "fsm_Close V io notify f =
     (if fsm_sock f = INVALID_SOCKET then (f, [])
      else if fsm_remote_close f \<or> fsm_error f \<noteq> 0
      then (f\<lparr>fsm_sock := INVALID_SOCKET\<rparr>, [EvClose (fsm_sock f)])
      else
        let evs = [EvClose (fsm_sock f)];
            f = goto EEnd (f\<lparr>fsm_sock := INVALID_SOCKET\<rparr>);
            f = f\<lparr>fsm_error := 0\<rparr>
        in (if notify then v_OnClose V io (fsm_last_status f) (-1) (fsm_remote_close f) f else f, evs))"

definition TcpClientFSM_delete ::
  "bool \<Rightarrow> ('i, 'a TcpClientFSM_scheme) fsm_virtuals \<Rightarrow> 'i \<Rightarrow> 'a TcpClientFSM_scheme \<Rightarrow> sys_event list cres" where
  "TcpClientFSM_delete sk V io f =
     (case fsm_Close V io False f of (f, evs) \<Rightarrow> ASSERT sk (fsm_sock f = INVALID_SOCKET) (Inr evs))"

text \<open>\<open>PreConnectSelect\<close> from \<open>start_connecttime_ = gettickcount()\<close> on, then as a whole.\<close>

definition start_connect ::
  "('i fsm_io_scheme, 'a TcpClientFSM_scheme) fsm_virtuals \<Rightarrow> 'i fsm_io_scheme \<Rightarrow> SocketSelect
    \<Rightarrow> 'a TcpClientFSM_scheme \<Rightarrow> 'a TcpClientFSM_scheme \<times> SocketSelect \<times> sys_event list" where
  "start_connect V io sel f =
     (let f = f\<lparr>fsm_start_connecttime := io_t_start io\<rparr>;
          evs = [EvConnect (fsm_sock f) (fsm_addr f)];
          failed = (0 \<noteq> io_connect io \<and> \<not> IS_NOBLOCK_CONNECT_ERRNO (io_connect_errno io));
          f = (if failed
               then f\<lparr>fsm_end_connecttime := io_t_end io, fsm_error := io_connect_errno io\<rparr> else f);
          sel = (if failed then sel else Exception_FD_SET (fsm_sock f) (Write_FD_SET (fsm_sock f) sel));
          f = goto (if 0 \<noteq> fsm_error f then EEnd else EConnecting) f;
          f = (if 0 = fsm_error f then v_OnConnect V io f else f)
      in (f, sel, evs))"

definition PreConnectSelect ::
  "bool \<Rightarrow> ('i fsm_io_scheme, 'a TcpClientFSM_scheme) fsm_virtuals \<Rightarrow> 'i fsm_io_scheme \<Rightarrow> SocketSelect
    \<Rightarrow> 'a TcpClientFSM_scheme \<Rightarrow> ('a TcpClientFSM_scheme \<times> SocketSelect \<times> sys_event list) cres" where
  "PreConnectSelect sk V io sel f =
     ASSERT sk (EStart = fsm_status f)
       (let f = v_OnCreate V io f;
            f = f\<lparr>fsm_sock := io_socket io\<rparr>
        in if fsm_sock f = INVALID_SOCKET then
             let f = goto EEnd (f\<lparr>fsm_error := io_socket_errno io\<rparr>)
             in Inr (v_OnClose V io (fsm_last_status f) (fsm_error f) False f, sel, [])
           else
             let evs = [EvSocket (fsm_sock f)];
                 f = (if 0 \<noteq> io_nobio io then f\<lparr>fsm_error := io_nobio_errno io\<rparr> else f)
             in if 0 \<noteq> fsm_error f then
                  let f = goto EEnd f
                  in Inr (v_OnClose V io (fsm_last_status f) (fsm_error f) False f, sel, evs)
                else
                  (case start_connect V io sel f of (f, sel, evs2) \<Rightarrow> Inr (f, sel, evs @ evs2)))"

text \<open>\<open>getsockopt(SO_ERROR)\<close> as used by the exception branches and by \<open>socket_error\<close> of \<open>unix_socket.cc\<close>.\<close>

definition socket_error :: "'i fsm_io_scheme \<Rightarrow> int" where
  "socket_error io = (if 0 \<noteq> io_getsockopt io then io_getsockopt_errno io else io_so_error io)"

definition AfterConnectSelect ::
  "bool \<Rightarrow> ('i fsm_io_scheme, 'a TcpClientFSM_scheme) fsm_virtuals \<Rightarrow> 'i fsm_io_scheme \<Rightarrow> SocketSelect
    \<Rightarrow> 'a TcpClientFSM_scheme \<Rightarrow> 'a TcpClientFSM_scheme cres" where
  "AfterConnectSelect sk V io sel f =
     ASSERT sk (EConnecting = fsm_status f)
       (let timeout = v_ConnectTimeout V (io_t_timeout io) f
        in if Exception_FD_ISSET (fsm_sock f) sel \<noteq> 0 then
             Inr (goto EEnd (f\<lparr>fsm_error := socket_error io, fsm_end_connecttime := io_t_end io\<rparr>))
           else
             let f = f\<lparr>fsm_error := socket_error io\<rparr>
             in if 0 \<noteq> fsm_error f then Inr (goto EEnd (f\<lparr>fsm_end_connecttime := io_t_end io\<rparr>))
                else if Write_FD_ISSET (fsm_sock f) sel \<noteq> 0 then
                  let f = goto EReadWrite (f\<lparr>fsm_end_connecttime := io_t_end io\<rparr>)
                  in Inr (v_OnConnected V io (Rtt f) f)
                else if 0 \<ge> timeout then
                  Inr (goto EEnd (f\<lparr>fsm_end_connecttime := io_t_end io, fsm_error := ETIMEDOUT\<rparr>))
                else Inr f)"

definition PreReadWriteSelect ::
  "bool \<Rightarrow> SocketSelect \<Rightarrow> 'a TcpClientFSM_scheme \<Rightarrow> SocketSelect cres" where
  "PreReadWriteSelect sk sel f =
     ASSERT sk (EReadWrite = fsm_status f)
       (let sel = Exception_FD_SET (fsm_sock f) (Read_FD_SET (fsm_sock f) sel)
        in Inr (if 0 < ab_Length (fsm_send_buf f) \<or> fsm_request_send f then Write_FD_SET (fsm_sock f) sel else sel))"

text \<open>
  \<open>AfterReadWriteSelect\<close> in its parts: sending, receiving, and the time limit. The flag in
  the result of a part tells that the handler returned there.
\<close>

definition rw_send ::
  "bool \<Rightarrow> bool \<Rightarrow> (nat \<Rightarrow> bool) \<Rightarrow> ('i fsm_io_scheme, 'a TcpClientFSM_scheme) fsm_virtuals \<Rightarrow> 'i fsm_io_scheme
    \<Rightarrow> 'a TcpClientFSM_scheme \<Rightarrow> ('a TcpClientFSM_scheme \<times> sys_event list \<times> bool) cres" where
  "rw_send sk ae mem_ok V io f =
     bindE (if fsm_request_send f \<and> 0 = ab_Length (fsm_send_buf f) then
              let f = v_OnRequestSend V io (f\<lparr>fsm_request_send := False\<rparr>)
              in ASSERT sk (0 = ab_Length (fsm_send_buf f)) (Inr f)
            else Inr f) (\<lambda>f.
     bindE (block_read (ab_parray (fsm_send_buf f)) 0 (ab_Length (fsm_send_buf f))) (\<lambda>bytes.
     let ret = io_send io
     in if 0 < ret then
          bindE (ab_Move ae mem_ok (- ret) (fsm_send_buf f)) (\<lambda>b.
            Inr (v_OnSend V io ret (f\<lparr>fsm_send_buf := b\<rparr>), [EvSend (fsm_sock f) (take (nat ret) bytes)], False))
        else if IS_NOBLOCK_WRITE_ERRNO (io_send_errno io) then Inr (f, [], False)
        else Inr (goto EEnd (f\<lparr>fsm_error := io_send_errno io\<rparr>), [], True)))"

definition rw_recv ::
  "bool \<Rightarrow> (nat \<Rightarrow> bool) \<Rightarrow> ('i fsm_io_scheme, 'a TcpClientFSM_scheme) fsm_virtuals \<Rightarrow> 'i fsm_io_scheme
    \<Rightarrow> 'a TcpClientFSM_scheme \<Rightarrow> ('a TcpClientFSM_scheme \<times> sys_event list \<times> bool) cres" where
  "rw_recv ae mem_ok V io f =
     (let b = fsm_recv_buf f; room = size_sub (ab_Capacity b) (ab_Length b)
      in bindE (if 8 * 1024 > room then ab_AddCapacity ae mem_ok (size_sub (16 * 1024) room) b else Inr b) (\<lambda>b.
      let ret = io_recv io
      in if 0 < ret then
           bindE (block_write (ab_parray b) (int (ab_Length b)) (io_recv_data io)) (\<lambda>arr.
           bindE (ab_SetLength ae (ab_Pos b) (size_add (ab_Length b) (to_size ret)) (b\<lparr>ab_parray := arr\<rparr>)) (\<lambda>b.
             Inr (v_OnRecv V io ret (f\<lparr>fsm_recv_buf := b\<rparr>), [EvRecv (fsm_sock f) (io_recv_data io)], False)))
         else
           let f = f\<lparr>fsm_recv_buf := b\<rparr>
           in if 0 = ret then Inr ((goto EEnd (f\<lparr>fsm_error := 0\<rparr>))\<lparr>fsm_remote_close := True\<rparr>, [], True)
              else if IS_NOBLOCK_READ_ERRNO (io_recv_errno io) then Inr (f, [], False)
              else Inr (goto EEnd (f\<lparr>fsm_error := io_recv_errno io\<rparr>), [], True)))"

definition AfterReadWriteSelect ::
  "bool \<Rightarrow> bool \<Rightarrow> (nat \<Rightarrow> bool) \<Rightarrow> ('i fsm_io_scheme, 'a TcpClientFSM_scheme) fsm_virtuals \<Rightarrow> 'i fsm_io_scheme
    \<Rightarrow> SocketSelect \<Rightarrow> 'a TcpClientFSM_scheme \<Rightarrow> ('a TcpClientFSM_scheme \<times> sys_event list) cres" where
  "AfterReadWriteSelect sk ae mem_ok V io sel f =
     ASSERT sk (EReadWrite = fsm_status f)
       (let timeout = v_ReadWriteTimeout V (io_t_timeout io) f
        in if Exception_FD_ISSET (fsm_sock f) sel \<noteq> 0 then Inr (goto EEnd (f\<lparr>fsm_error := socket_error io\<rparr>), [])
           else
             bindE (if Write_FD_ISSET (fsm_sock f) sel \<noteq> 0 then rw_send sk ae mem_ok V io f else Inr (f, [], False))
               (\<lambda>(f, evs1, ended).
             if ended then Inr (f, evs1)
             else
               bindE (if Read_FD_ISSET (fsm_sock f) sel \<noteq> 0 then rw_recv ae mem_ok V io f else Inr (f, [], False))
                 (\<lambda>(f, evs2, ended).
               if ended then Inr (f, evs1 @ evs2)
               else if Write_FD_ISSET (fsm_sock f) sel = 0 \<and> Read_FD_ISSET (fsm_sock f) sel = 0 \<and> 0 \<ge> timeout
               then Inr (goto EEnd (f\<lparr>fsm_error := ETIMEDOUT\<rparr>), evs1 @ evs2)
               else Inr (f, evs1 @ evs2))))"

definition fsm_PreSelect ::
  "bool \<Rightarrow> ('i fsm_io_scheme, 'a TcpClientFSM_scheme) fsm_virtuals \<Rightarrow> 'i fsm_io_scheme \<Rightarrow> SocketSelect
    \<Rightarrow> 'a TcpClientFSM_scheme \<Rightarrow> ('a TcpClientFSM_scheme \<times> SocketSelect \<times> sys_event list) cres" where
  "fsm_PreSelect sk V io sel f =
     (case fsm_status f of
        EStart \<Rightarrow> PreConnectSelect sk V io sel f
      | EConnecting \<Rightarrow> Inr (f, Exception_FD_SET (fsm_sock f) (Write_FD_SET (fsm_sock f) sel), [])
      | EReadWrite \<Rightarrow> bindE (PreReadWriteSelect sk sel f) (\<lambda>sel. Inr (f, sel, []))
      | EEnd \<Rightarrow> ASSERT sk False (Inr (f, sel, [])))"

definition fsm_AfterSelect ::
  "bool \<Rightarrow> bool \<Rightarrow> (nat \<Rightarrow> bool) \<Rightarrow> ('i fsm_io_scheme, 'a TcpClientFSM_scheme) fsm_virtuals \<Rightarrow> 'i fsm_io_scheme
    \<Rightarrow> SocketSelect \<Rightarrow> 'a TcpClientFSM_scheme \<Rightarrow> ('a TcpClientFSM_scheme \<times> sys_event list) cres" where
  "fsm_AfterSelect sk ae mem_ok V io sel f =
     bindE (case fsm_status f of
              EConnecting \<Rightarrow> bindE (AfterConnectSelect sk V io sel f) (\<lambda>f. Inr (f, []))
            | EReadWrite \<Rightarrow> AfterReadWriteSelect sk ae mem_ok V io sel f
            | _ \<Rightarrow> Inr (f, [])) (\<lambda>(f, evs).
       Inr (if EEnd = fsm_status f \<and> fsm_sock f \<noteq> INVALID_SOCKET
            then v_OnClose V io (fsm_last_status f) (fsm_error f) False f else f, evs))"

definition fsm_Timeout ::
  "('i, 'a TcpClientFSM_scheme) fsm_virtuals \<Rightarrow> u64 \<Rightarrow> 'a TcpClientFSM_scheme \<Rightarrow> int" where
  "fsm_Timeout V now f =
     (if EConnecting = fsm_status f then v_ConnectTimeout V now f
      else if EReadWrite = fsm_status f then v_ReadWriteTimeout V now f
      else if EEnd = fsm_status f then 0
      else INT_MAX)"

section \<open>Well-formed objects and the ledger of sockets\<close>

text \<open>
  A connection that has not started owns no socket, one that is connecting or connected owns
  one and has no error; the buffers keep their invariant.
\<close>

definition bufs_ok :: "'a TcpClientFSM_scheme \<Rightarrow> bool" where
  "bufs_ok f \<longleftrightarrow> ab_inv (fsm_send_buf f) \<and> ab_inv (fsm_recv_buf f)"

definition fsm_ok :: "'a TcpClientFSM_scheme \<Rightarrow> bool" where
  "fsm_ok f \<longleftrightarrow> bufs_ok f \<and>
     (case fsm_status f of
        EStart \<Rightarrow> fsm_sock f = INVALID_SOCKET \<and> fsm_error f = 0 \<and> \<not> fsm_remote_close f \<and> fsm_last_status f = EStart
      | EConnecting \<Rightarrow> fsm_sock f \<noteq> INVALID_SOCKET \<and> fsm_error f = 0 \<and> \<not> fsm_remote_close f \<and> fsm_last_status f = EStart
      | EReadWrite \<Rightarrow> fsm_sock f \<noteq> INVALID_SOCKET \<and> fsm_error f = 0 \<and> \<not> fsm_remote_close f \<and> fsm_last_status f = EConnecting
      | EEnd \<Rightarrow> True)"

definition fsm_core :: "'a TcpClientFSM_scheme \<Rightarrow> TSocketStatus \<times> TSocketStatus \<times> int \<times> bool \<times> int" where
  "fsm_core f = (fsm_status f, fsm_last_status f, fsm_error f, fsm_remote_close f, fsm_sock f)"

lemma fsm_ok_cases:
  "fsm_status f = EEnd \<Longrightarrow> fsm_ok f \<longleftrightarrow> bufs_ok f"
  "fsm_status f = EStart \<Longrightarrow> fsm_ok f \<longleftrightarrow> bufs_ok f \<and> fsm_sock f = INVALID_SOCKET \<and> fsm_error f = 0
     \<and> \<not> fsm_remote_close f \<and> fsm_last_status f = EStart"
  "fsm_status f = EConnecting \<Longrightarrow> fsm_ok f \<longleftrightarrow> bufs_ok f \<and> fsm_sock f \<noteq> INVALID_SOCKET \<and> fsm_error f = 0
     \<and> \<not> fsm_remote_close f \<and> fsm_last_status f = EStart"
  "fsm_status f = EReadWrite \<Longrightarrow> fsm_ok f \<longleftrightarrow> bufs_ok f \<and> fsm_sock f \<noteq> INVALID_SOCKET \<and> fsm_error f = 0
     \<and> \<not> fsm_remote_close f \<and> fsm_last_status f = EConnecting"
  by (simp_all add: fsm_ok_def)

lemma fsm_ok_bufs: "fsm_ok f \<Longrightarrow> bufs_ok f"
  by (simp add: fsm_ok_def)

lemma goto_simps [simp]:
  "fsm_status (goto s f) = s" "fsm_last_status (goto s f) = fsm_status f" "fsm_error (goto s f) = fsm_error f"
  "fsm_remote_close (goto s f) = fsm_remote_close f" "fsm_sock (goto s f) = fsm_sock f"
  "fsm_send_buf (goto s f) = fsm_send_buf f" "fsm_recv_buf (goto s f) = fsm_recv_buf f"
  "fsm_request_send (goto s f) = fsm_request_send f" "fsm_addr (goto s f) = fsm_addr f"
  by (simp_all add: goto_def)

lemma bufs_ok_frame [simp]:
  "bufs_ok (goto s f) = bufs_ok f" "bufs_ok (f\<lparr>fsm_error := e\<rparr>) = bufs_ok f"
  "bufs_ok (f\<lparr>fsm_sock := k\<rparr>) = bufs_ok f" "bufs_ok (f\<lparr>fsm_remote_close := r\<rparr>) = bufs_ok f"
  "bufs_ok (f\<lparr>fsm_end_connecttime := t\<rparr>) = bufs_ok f" "bufs_ok (f\<lparr>fsm_start_connecttime := t\<rparr>) = bufs_ok f"
  "bufs_ok (f\<lparr>fsm_request_send := q\<rparr>) = bufs_ok f"
  by (simp_all add: bufs_ok_def)

fun opened :: "sys_event list \<Rightarrow> int multiset" where
  "opened [] = {#}"
| "opened (EvSocket fd # evs) = add_mset fd (opened evs)"
| "opened (_ # evs) = opened evs"

fun closed :: "sys_event list \<Rightarrow> int multiset" where
  "closed [] = {#}"
| "closed (EvClose fd # evs) = add_mset fd (closed evs)"
| "closed (_ # evs) = closed evs"

fun sent_bytes :: "sys_event list \<Rightarrow> byte list" where
  "sent_bytes [] = []"
| "sent_bytes (EvSend fd bs # evs) = bs @ sent_bytes evs"
| "sent_bytes (_ # evs) = sent_bytes evs"

fun received_bytes :: "sys_event list \<Rightarrow> byte list" where
  "received_bytes [] = []"
| "received_bytes (EvRecv fd bs # evs) = bs @ received_bytes evs"
| "received_bytes (_ # evs) = received_bytes evs"

lemma opened_append [simp]: "opened (xs @ ys) = opened xs + opened ys"
  by (induction xs rule: opened.induct) simp_all

lemma closed_append [simp]: "closed (xs @ ys) = closed xs + closed ys"
  by (induction xs rule: closed.induct) simp_all

lemma sent_append [simp]: "sent_bytes (xs @ ys) = sent_bytes xs @ sent_bytes ys"
  by (induction xs rule: sent_bytes.induct) simp_all

lemma received_append [simp]: "received_bytes (xs @ ys) = received_bytes xs @ received_bytes ys"
  by (induction xs rule: received_bytes.induct) simp_all

text \<open>The sockets an object owns, and the balance of a handler: what it owned and opened is closed or still owned.\<close>

definition held :: "'a TcpClientFSM_scheme \<Rightarrow> int multiset" where
  "held f = (if fsm_sock f = INVALID_SOCKET then {#} else {#fsm_sock f#})"

definition balanced :: "'a TcpClientFSM_scheme \<Rightarrow> sys_event list \<Rightarrow> 'a TcpClientFSM_scheme \<Rightarrow> bool" where
  "balanced f evs f' \<longleftrightarrow> held f + opened evs = held f' + closed evs"

lemma held_frame [simp]: "held (goto s f) = held f" "held (f\<lparr>fsm_error := e\<rparr>) = held f"
  by (simp_all add: held_def)

lemma balanced_refl [simp]: "balanced f [] f"
  by (simp add: balanced_def)

lemma balanced_trans: "balanced f evs f' \<Longrightarrow> balanced f' evs' f'' \<Longrightarrow> balanced f (evs @ evs') f''"
  by (simp add: balanced_def) (metis union_assoc union_commute)

text \<open>
  The room \<open>recv\<close> is offered: the free space after the buffer has been grown; \<open>recv_fits\<close>
  is what the kernel guarantees of \<open>recv\<close>, and that the buffer may grow.
\<close>

definition recv_limit :: "AutoBuffer \<Rightarrow> nat" where
  "recv_limit b =
     (let room = ab_capacity b - ab_length b
      in if 8 * 1024 > room then round_up (ab_capacity b + (16 * 1024 - room)) (ab_unitsize b) - ab_length b
         else room)"

definition recv_fits :: "(nat \<Rightarrow> bool) \<Rightarrow> 'i fsm_io_scheme \<Rightarrow> AutoBuffer \<Rightarrow> bool" where
  "recv_fits mem_ok io b \<longleftrightarrow> fits mem_ok (ab_capacity b + 16 * 1024 - (ab_capacity b - ab_length b)) b
     \<and> (0 < io_recv io \<longrightarrow> io_recv io = int (length (io_recv_data io)) \<and> length (io_recv_data io) \<le> recv_limit b)"

definition recv_grown :: "AutoBuffer \<Rightarrow> AutoBuffer \<Rightarrow> bool" where
  "recv_grown b b' \<longleftrightarrow> ab_capacity b' = ab_capacity b \<or> ab_capacity b' = ab_length b + recv_limit b"

lemma recv_grown_refl [simp]: "recv_grown b b"
  by (simp add: recv_grown_def)

text \<open>Receiving appends to the buffer.\<close>

lemma SetLength_append:
  assumes "ab_inv b" and "length c + length bs \<le> ab_capacity b" and "c = ab_contents b" and "bs \<noteq> []"
  shows "\<exists>b'. bindE (block_write (ab_parray b) (int (ab_Length b)) bs) (\<lambda>arr.
      ab_SetLength ae (ab_Pos b) (size_add (ab_Length b) (to_size (int (length bs)))) (b\<lparr>ab_parray := arr\<rparr>)) = Inr b'
    \<and> ab_inv b' \<and> ab_contents b' = c @ bs \<and> ab_unitsize b' = ab_unitsize b \<and> ab_capacity b' = ab_capacity b"
proof -
  note sz = ab_inv_sizes[OF assms(1)]
  have l: "length c = ab_length b" using assms(3) sz(5) by simp
  obtain xs where xs: "ab_parray b = Some xs" "length xs = ab_capacity b"
    using assms(1,2,4) l by (cases "ab_parray b") (auto simp: ab_inv_def)
  have wr: "block_write (ab_parray b) (int (ab_Length b)) bs = Inr (Some (put_at xs (ab_length b) bs))"
    using assms(2,4) l xs by (simp add: block_write_def ab_Length_def)
  have cap: "ab_capacity b < 4611686018427387904" using assms(1) by (simp add: ab_inv_def)
  define n where "n = ab_length b + length bs"
  define b' where "b' = b\<lparr>ab_parray := Some (put_at xs (ab_length b) bs), ab_length := n\<rparr>"
  have n: "size_add (ab_Length b) (to_size (int (length bs))) = n" "n \<le> ab_capacity b"
    using assms(2) l cap by (simp_all add: ab_Length_def n_def)
  have inv: "ab_inv b'"
    using assms(1) n(2) xs l by (auto simp: ab_inv_def b'_def n_def)
  have "ab_SetLength ae (ab_Pos b) n (b\<lparr>ab_parray := Some (put_at xs (ab_length b) bs)\<rparr>) = Inr (ab_Seek (ab_pos b) SeekStart b')"
    using assms(1) n(2) sz by (simp add: ab_SetLength_def ab_Pos_def b'_def ab_inv_def n_def)
  moreover have "ab_Seek (ab_pos b) SeekStart b' = b'"
    using assms(1) sz by (simp add: ab_Seek_def b'_def ab_inv_def n_def Let_def)
  moreover have "ab_contents b' = c @ bs"
    using assms(2,3) l xs by (simp add: ab_contents_def b'_def n_def put_at_def)
  ultimately show ?thesis using wr n(1) inv by (simp add: b'_def)
qed

lemma AddCapacity_recv:
  assumes "ab_inv b" and "recv_fits mem_ok io b"
  defines "room \<equiv> size_sub (ab_Capacity b) (ab_Length b)"
  shows "\<exists>b'. (if 8 * 1024 > room then ab_AddCapacity ae mem_ok (size_sub (16 * 1024) room) b else Inr b) = Inr b'
    \<and> ab_inv b' \<and> ab_contents b' = ab_contents b \<and> ab_length b + recv_limit b = ab_capacity b'
    \<and> ab_unitsize b' = ab_unitsize b"
proof -
  have cap: "ab_capacity b < 4611686018427387904" "ab_length b \<le> ab_capacity b" using assms(1) by (simp_all add: ab_inv_def)
  then have room: "room = ab_capacity b - ab_length b" by (simp add: room_def ab_Capacity_def ab_Length_def)
  show ?thesis
  proof (cases "8 * 1024 > room")
    case True
    define n where "n = ab_capacity b + (16 * 1024 - room)"
    have "n = ab_capacity b + 16 * 1024 - (ab_capacity b - ab_length b)" using True cap by (simp add: n_def room)
    then have f: "fits mem_ok n b" using assms(2) by (simp add: recv_fits_def)
    have add: "ab_AddCapacity ae mem_ok (size_sub (16 * 1024) room) b = ab_FitSize ae mem_ok n b"
      using True cap by (simp add: ab_AddCapacity_def n_def)
    have grow: "ab_FitSize ae mem_ok n b = Inr (b\<lparr>ab_parray := Some (ab_block b @ replicate (round_up n (ab_unitsize b) - ab_capacity b) 0),
          ab_capacity := round_up n (ab_unitsize b)\<rparr>)"
      using FitSize_grow[OF assms(1) f] True by (simp add: n_def)
    obtain b' where b': "ab_FitSize ae mem_ok n b = Inr b'" "ab_inv b'" "ab_contents b' = ab_contents b"
      "ab_unitsize b' = ab_unitsize b"
      using FitSize_ok[OF assms(1) f] by metis
    have "ab_capacity b' = round_up n (ab_unitsize b)" using grow b'(1) by auto
    moreover have "n \<le> round_up n (ab_unitsize b)" using round_up_bounds(1) assms(1) by (simp add: ab_inv_def)
    moreover have "recv_limit b = round_up n (ab_unitsize b) - ab_length b"
      using True by (simp add: recv_limit_def n_def room Let_def)
    ultimately show ?thesis using b' add True cap by (auto simp: n_def)
  next
    case False
    then show ?thesis using assms(1) cap room by (simp add: recv_limit_def Let_def)
  qed
qed

text \<open>The ways through \<open>AfterReadWriteSelect\<close>.\<close>

lemma AfterReadWriteSelect_cases:
  assumes "AfterReadWriteSelect sk ae mem_ok V io sel f = Inr (f', evs)"
  obtains (exception) "f' = goto EEnd (f\<lparr>fsm_error := socket_error io\<rparr>)" "evs = []"
  | (parts) f1 evs1 f2 evs2 where
      "f1 = f \<and> evs1 = [] \<or> (\<exists>e. rw_send sk ae mem_ok V io f = Inr (f1, evs1, e))"
      "f2 = f1 \<and> evs2 = [] \<or> (\<exists>e. rw_recv ae mem_ok V io f1 = Inr (f2, evs2, e))"
      "f' = f2 \<or> f' = goto EEnd (f2\<lparr>fsm_error := ETIMEDOUT\<rparr>)" "evs = evs1 @ evs2"
proof (cases "Exception_FD_ISSET (fsm_sock f) sel \<noteq> 0")
  case True
  then show ?thesis using assms exception by (simp add: AfterReadWriteSelect_def Let_def ASSERT_eq_Inr)
next
  case False
  define t where "t = v_ReadWriteTimeout V (io_t_timeout io) f"
  from assms False obtain f1 evs1 e1 where
      s1: "(if Write_FD_ISSET (fsm_sock f) sel \<noteq> 0 then rw_send sk ae mem_ok V io f else Inr (f, [], False)) = Inr (f1, evs1, e1)"
    and k: "(if e1 then Inr (f1, evs1) else
       bindE (if Read_FD_ISSET (fsm_sock f1) sel \<noteq> 0 then rw_recv ae mem_ok V io f1 else Inr (f1, [], False))
         (\<lambda>(f, evs2, ended). if ended then Inr (f, evs1 @ evs2)
           else if Write_FD_ISSET (fsm_sock f) sel = 0 \<and> Read_FD_ISSET (fsm_sock f) sel = 0 \<and> 0 \<ge> t
           then Inr (goto EEnd (f\<lparr>fsm_error := ETIMEDOUT\<rparr>), evs1 @ evs2) else Inr (f, evs1 @ evs2))) = Inr (f', evs)"
    unfolding AfterReadWriteSelect_def Let_def ASSERT_eq_Inr t_def by (auto simp: bindE_eq_Inr)
  have p1: "f1 = f \<and> evs1 = [] \<or> (\<exists>e. rw_send sk ae mem_ok V io f = Inr (f1, evs1, e))"
    using s1 by (auto split: if_splits)
  show ?thesis
  proof (cases e1)
    case True
    then show ?thesis using parts[OF p1, of f1 "[]"] k by simp
  next
    case False
    with k obtain f2 evs2 e2 where
        s2: "(if Read_FD_ISSET (fsm_sock f1) sel \<noteq> 0 then rw_recv ae mem_ok V io f1 else Inr (f1, [], False)) = Inr (f2, evs2, e2)"
      and k2: "(if e2 then Inr (f2, evs1 @ evs2) :: _ cres
           else if Write_FD_ISSET (fsm_sock f2) sel = 0 \<and> Read_FD_ISSET (fsm_sock f2) sel = 0 \<and> 0 \<ge> t
           then Inr (goto EEnd (f2\<lparr>fsm_error := ETIMEDOUT\<rparr>), evs1 @ evs2) else Inr (f2, evs1 @ evs2)) = Inr (f', evs)"
      by (auto simp: bindE_eq_Inr)
    have p2: "f2 = f1 \<and> evs2 = [] \<or> (\<exists>e. rw_recv ae mem_ok V io f1 = Inr (f2, evs2, e))"
      using s2 by (auto split: if_splits)
    have p3: "f' = f2 \<or> f' = goto EEnd (f2\<lparr>fsm_error := ETIMEDOUT\<rparr>)" "evs = evs1 @ evs2"
      using k2 by (auto split: if_splits)
    show ?thesis by (rule parts[OF p1 p2 p3])
  qed
qed

section \<open>The contract of a derived class\<close>

text \<open>
  What the base class relies on: a virtual function leaves the state of the connection alone
  and keeps the buffers well formed; \<open>_OnRequestSend\<close> leaves the send buffer empty, as the
  assertion after it demands. \<open>ok_io\<close> states what is assumed of the environment of a call.
\<close>

definition keeps :: "('a TcpClientFSM_scheme \<Rightarrow> 'a TcpClientFSM_scheme) \<Rightarrow> bool" where
  "keeps g \<longleftrightarrow> (\<forall>f. fsm_core (g f) = fsm_core f \<and> (bufs_ok f \<longrightarrow> bufs_ok (g f)))"

lemma keepsD:
  assumes "keeps g"
  shows "fsm_status (g f) = fsm_status f" "fsm_last_status (g f) = fsm_last_status f"
    "fsm_error (g f) = fsm_error f" "fsm_remote_close (g f) = fsm_remote_close f"
    "fsm_sock (g f) = fsm_sock f" "held (g f) = held f" "bufs_ok f \<Longrightarrow> bufs_ok (g f)" "fsm_ok f \<Longrightarrow> fsm_ok (g f)"
  using assms by (auto simp: keeps_def fsm_core_def held_def fsm_ok_def split: TSocketStatus.splits)

locale fsm_client =
  fixes V :: "('i fsm_io_scheme, 'a TcpClientFSM_scheme) fsm_virtuals"
    and ok_io :: "'i fsm_io_scheme \<Rightarrow> bool"
  assumes OnCreate_keeps: "ok_io io \<Longrightarrow> keeps (v_OnCreate V io)"
    and OnConnect_keeps: "ok_io io \<Longrightarrow> keeps (v_OnConnect V io)"
    and OnConnected_keeps: "ok_io io \<Longrightarrow> keeps (v_OnConnected V io n)"
    and OnRecv_keeps: "ok_io io \<Longrightarrow> keeps (v_OnRecv V io n)"
    and OnRequestSend_keeps: "ok_io io \<Longrightarrow> keeps (v_OnRequestSend V io)"
    and OnRequestSend_empty: "ok_io io \<Longrightarrow> ab_length (fsm_send_buf f) = 0 \<Longrightarrow>
       ab_length (fsm_send_buf (v_OnRequestSend V io f)) = 0"
    and OnSend_keeps: "ok_io io \<Longrightarrow> keeps (v_OnSend V io n)"
    and OnClose_keeps: "ok_io io \<Longrightarrow> keeps (v_OnClose V io st err user)"
begin

lemmas cb = keepsD[OF OnCreate_keeps] keepsD[OF OnConnect_keeps] keepsD[OF OnConnected_keeps]
  keepsD[OF OnRecv_keeps] keepsD[OF OnRequestSend_keeps] keepsD[OF OnSend_keeps] keepsD[OF OnClose_keeps]

text \<open>\<open>PreSelect\<close> before the end: it succeeds and keeps the object well formed.\<close>

lemma start_connect_ok:
  assumes "ok_io io" and "bufs_ok f" and "fsm_status f = EStart" and "fsm_error f = 0" and "\<not> fsm_remote_close f"
    and "fsm_sock f \<noteq> -1"
  shows "\<exists>f' sel' evs. start_connect V io sel f = (f', sel', evs) \<and> fsm_ok f'
    \<and> fsm_status f' \<in> {EConnecting, EEnd} \<and> held f' = held f \<and> opened evs = {#} \<and> closed evs = {#}"
  using assms(2-) by (simp add: start_connect_def Let_def cb[OF assms(1)] fsm_ok_cases held_def)

lemma PreConnectSelect_ok:
  assumes "ok_io io" and "fsm_ok f" and "fsm_status f = EStart"
  shows "\<exists>f' sel' evs. PreConnectSelect sk V io sel f = Inr (f', sel', evs) \<and> fsm_ok f'
    \<and> fsm_status f' \<in> {EConnecting, EEnd} \<and> balanced f evs f' \<and> closed evs = {#}"
proof -
  define f1 where "f1 = v_OnCreate V io f"
  have f1: "fsm_status f1 = EStart" "fsm_error f1 = 0" "fsm_sock f = -1" "\<not> fsm_remote_close f1" "bufs_ok f1"
    using cb(1-8)[OF assms(1), of f] assms(2,3) by (auto simp: f1_def fsm_ok_cases)
  have h: "held f = {#}" using f1(3) by (simp add: held_def)
  define f2 where "f2 = f1\<lparr>fsm_sock := io_socket io\<rparr>"
  define f3 where "f3 = (if 0 \<noteq> io_nobio io then f2\<lparr>fsm_error := io_nobio_errno io\<rparr> else f2)"
  have f3: "fsm_status f3 = EStart" "fsm_sock f3 = io_socket io" "\<not> fsm_remote_close f3" "bufs_ok f3"
    using f1 by (simp_all add: f3_def f2_def)
  have run: "PreConnectSelect sk V io sel f =
     (if io_socket io = -1 then
        Inr (v_OnClose V io EStart (io_socket_errno io) False (goto EEnd (f2\<lparr>fsm_error := io_socket_errno io\<rparr>)), sel, [])
      else if 0 \<noteq> fsm_error f3 then
        Inr (v_OnClose V io EStart (fsm_error f3) False (goto EEnd f3), sel, [EvSocket (io_socket io)])
      else case start_connect V io sel f3 of (f, sel, evs2) \<Rightarrow> Inr (f, sel, EvSocket (io_socket io) # evs2))"
    using assms(3) f1(1) f3(1)
    unfolding PreConnectSelect_def Let_def f1_def[symmetric] f2_def[symmetric] f3_def[symmetric]
    by (simp add: f2_def)
  consider (nosock) "io_socket io = -1" | (nobio) "io_socket io \<noteq> -1" "fsm_error f3 \<noteq> 0"
    | (conn) "io_socket io \<noteq> -1" "fsm_error f3 = 0" by blast
  then show ?thesis
  proof cases
    case nosock
    then show ?thesis
      using h f1 by (simp add: run cb[OF assms(1)] balanced_def f2_def fsm_ok_cases held_def)
  next
    case nobio
    then show ?thesis
      using h f3 by (simp add: run cb[OF assms(1)] balanced_def fsm_ok_cases held_def)
  next
    case conn
    then obtain f' sel' evs where "start_connect V io sel f3 = (f', sel', evs)" "fsm_ok f'"
      "fsm_status f' \<in> {EConnecting, EEnd}" "held f' = held f3" "opened evs = {#}" "closed evs = {#}"
      using start_connect_ok[OF assms(1) f3(4,1) _ f3(3)] f3(2) by metis
    with conn h f3(2) show ?thesis by (simp add: run balanced_def held_def)
  qed
qed

lemma PreSelect_ok:
  assumes "ok_io io" and "fsm_ok f" and "fsm_status f \<noteq> EEnd"
  shows "\<exists>f' sel' evs. fsm_PreSelect sk V io sel f = Inr (f', sel', evs) \<and> fsm_ok f'
    \<and> fsm_status f \<le> fsm_status f' \<and> fsm_status f' \<noteq> EStart \<and> balanced f evs f' \<and> closed evs = {#}
    \<and> (fsm_status f \<noteq> EStart \<longrightarrow> f' = f \<and> evs = [])"
proof (cases "fsm_status f")
  case EStart
  then show ?thesis
    using PreConnectSelect_ok[OF assms(1,2) EStart, of sk sel]
    by (auto simp: fsm_PreSelect_def status_order)
qed (use assms in \<open>simp_all add: fsm_PreSelect_def PreReadWriteSelect_def Let_def\<close>)

text \<open>The send part, computed: \<open>f1\<close> is the object after \<open>_OnRequestSend\<close>.\<close>

definition after_request :: "'i fsm_io_scheme \<Rightarrow> 'a TcpClientFSM_scheme \<Rightarrow> 'a TcpClientFSM_scheme" where
  "after_request io f = (if fsm_request_send f \<and> ab_Length (fsm_send_buf f) = 0
     then v_OnRequestSend V io (f\<lparr>fsm_request_send := False\<rparr>) else f)"

lemma after_request_ok:
  assumes "ok_io io" and "fsm_ok f"
  shows "fsm_ok (after_request io f)" "fsm_core (after_request io f) = fsm_core f"
    "bufs_ok (after_request io f)"
proof -
  have "fsm_ok (f\<lparr>fsm_request_send := False\<rparr>)"
    using assms(2) by (auto simp: fsm_ok_def split: TSocketStatus.splits)
  then show ok: "fsm_ok (after_request io f)"
    using assms by (simp add: after_request_def cb)
  show "fsm_core (after_request io f) = fsm_core f"
    using assms by (simp add: after_request_def cb fsm_core_def)
  show "bufs_ok (after_request io f)" using ok by (rule fsm_ok_bufs)
qed

lemma rw_send_run:
  assumes "ok_io io" and "fsm_ok f" and "io_send io < 4611686018427387904"
  defines "f1 \<equiv> after_request io f"
  shows "\<exists>b. ab_inv b \<and> ab_contents b = drop (nat (io_send io)) (ab_contents (fsm_send_buf f1)) \<and>
    rw_send sk ae mem_ok V io f =
      (if 0 < io_send io then
         Inr (v_OnSend V io (io_send io) (f1\<lparr>fsm_send_buf := b\<rparr>),
              [EvSend (fsm_sock f) (take (nat (io_send io)) (ab_contents (fsm_send_buf f1)))], False)
       else if IS_NOBLOCK_WRITE_ERRNO (io_send_errno io) then Inr (f1, [], False)
       else Inr (goto EEnd (f1\<lparr>fsm_error := io_send_errno io\<rparr>), [], True))"
proof -
  have inv: "ab_inv (fsm_send_buf f1)" and core: "fsm_core f1 = fsm_core f"
    using after_request_ok[OF assms(1,2)] by (simp_all add: f1_def bufs_ok_def)
  have sock: "fsm_sock f1 = fsm_sock f" using core by (simp add: fsm_core_def)
  have rd: "block_read (ab_parray (fsm_send_buf f1)) 0 (ab_Length (fsm_send_buf f1)) = Inr (ab_contents (fsm_send_buf f1))"
    using block_read_contents[OF inv, of 0 "ab_length (fsm_send_buf f1)"] ab_inv_sizes(5)[OF inv]
    by (simp add: ab_Length_def get_at_def)
  have n: "nat (io_send io) < 4611686018427387904" using assms(3) by linarith
  obtain b where b: "ab_Move ae mem_ok (- int (nat (io_send io))) (fsm_send_buf f1) = Inr b" "ab_inv b"
    "ab_contents b = drop (nat (io_send io)) (ab_contents (fsm_send_buf f1))"
    using Move_backward_ok[OF inv n, of ae mem_ok] by blast
  have b1: "0 < io_send io \<Longrightarrow> ab_Move ae mem_ok (- io_send io) (fsm_send_buf f1) = Inr b" using b(1) by simp
  have "ab_length (fsm_send_buf f) = 0 \<Longrightarrow> ab_length (fsm_send_buf (v_OnRequestSend V io (f\<lparr>fsm_request_send := False\<rparr>))) = 0"
    by (rule OnRequestSend_empty[OF assms(1)]) simp
  then have "(if fsm_request_send f \<and> 0 = ab_Length (fsm_send_buf f) then
      let f = v_OnRequestSend V io (f\<lparr>fsm_request_send := False\<rparr>)
      in ASSERT sk (0 = ab_Length (fsm_send_buf f)) (Inr f) else Inr f) = Inr f1"
    by (simp add: f1_def after_request_def ab_Length_def)
  then have "rw_send sk ae mem_ok V io f =
      (if 0 < io_send io then
         Inr (v_OnSend V io (io_send io) (f1\<lparr>fsm_send_buf := b\<rparr>),
              [EvSend (fsm_sock f) (take (nat (io_send io)) (ab_contents (fsm_send_buf f1)))], False)
       else if IS_NOBLOCK_WRITE_ERRNO (io_send_errno io) then Inr (f1, [], False)
       else Inr (goto EEnd (f1\<lparr>fsm_error := io_send_errno io\<rparr>), [], True))"
    using b1 rd sock unfolding rw_send_def Let_def by simp
  with b show ?thesis by blast
qed

lemma rw_recv_run:
  assumes "ok_io io" and "bufs_ok f" and "recv_fits mem_ok io (fsm_recv_buf f)"
  shows "\<exists>b. ab_inv b \<and> ab_contents b = ab_contents (fsm_recv_buf f) @ (if 0 < io_recv io then io_recv_data io else [])
    \<and> ab_unitsize b = ab_unitsize (fsm_recv_buf f) \<and> recv_grown (fsm_recv_buf f) b \<and> rw_recv ae mem_ok V io f =
      (if 0 < io_recv io then
         Inr (v_OnRecv V io (io_recv io) (f\<lparr>fsm_recv_buf := b\<rparr>), [EvRecv (fsm_sock f) (io_recv_data io)], False)
       else if 0 = io_recv io then
         Inr ((goto EEnd (f\<lparr>fsm_recv_buf := b, fsm_error := 0\<rparr>))\<lparr>fsm_remote_close := True\<rparr>, [], True)
       else if IS_NOBLOCK_READ_ERRNO (io_recv_errno io) then Inr (f\<lparr>fsm_recv_buf := b\<rparr>, [], False)
       else Inr (goto EEnd (f\<lparr>fsm_recv_buf := b, fsm_error := io_recv_errno io\<rparr>), [], True))"
proof -
  define room where "room = size_sub (ab_Capacity (fsm_recv_buf f)) (ab_Length (fsm_recv_buf f))"
  have inv: "ab_inv (fsm_recv_buf f)" using assms(2) by (simp add: bufs_ok_def)
  obtain b' where b': "(if 8 * 1024 > room then ab_AddCapacity ae mem_ok (size_sub (16 * 1024) room) (fsm_recv_buf f)
      else Inr (fsm_recv_buf f)) = Inr b'" "ab_inv b'" "ab_contents b' = ab_contents (fsm_recv_buf f)"
      "ab_length (fsm_recv_buf f) + recv_limit (fsm_recv_buf f) = ab_capacity b'"
      "ab_unitsize b' = ab_unitsize (fsm_recv_buf f)"
    using AddCapacity_recv[OF inv assms(3), of ae] unfolding room_def by metis
  note run = b'(1) rw_recv_def[of ae mem_ok V io f, unfolded Let_def, folded room_def]
  show ?thesis
  proof (cases "0 < io_recv io")
    case True
    then have l: "io_recv io = int (length (io_recv_data io))" "length (io_recv_data io) \<le> recv_limit (fsm_recv_buf f)"
      "io_recv_data io \<noteq> []"
      using assms(3) by (auto simp: recv_fits_def)
    have "length (ab_contents (fsm_recv_buf f)) + length (io_recv_data io) \<le> ab_capacity b'"
      using b'(4) l(2) ab_inv_sizes(5)[OF inv] by simp
    from SetLength_append[OF b'(2) this b'(3)[symmetric] l(3), of ae]
    obtain b arr where "block_write (ab_parray b') (int (ab_Length b')) (io_recv_data io) = Inr arr"
        "ab_SetLength ae (ab_Pos b') (size_add (ab_Length b') (to_size (int (length (io_recv_data io))))) (b'\<lparr>ab_parray := arr\<rparr>) = Inr b"
        "ab_inv b" "ab_contents b = ab_contents (fsm_recv_buf f) @ io_recv_data io" "ab_unitsize b = ab_unitsize b'"
        "ab_capacity b = ab_capacity b'"
      by (auto simp: bindE_eq_Inr)
    with True run b'(4,5) show ?thesis by (intro exI[of _ b]) (simp add: l(1) recv_grown_def)
  next
    case False
    with run b'(2-5) show ?thesis by (intro exI[of _ b']) (simp add: recv_grown_def)
  qed
qed

text \<open>\<open>AfterSelect\<close>: success, preservation, progress of the status, and no socket is lost.\<close>

lemma AfterConnectSelect_ok:
  assumes "ok_io io" and "fsm_ok f" and "fsm_status f = EConnecting"
  shows "\<exists>f'. AfterConnectSelect sk V io sel f = Inr f' \<and> fsm_ok f' \<and> EConnecting \<le> fsm_status f' \<and> held f' = held f"
  using assms(2,3)
  by (simp add: AfterConnectSelect_def Let_def cb[OF assms(1)] fsm_ok_cases held_def status_order)

lemma rw_send_ok:
  assumes "ok_io io" and "fsm_ok f" and "fsm_status f = EReadWrite" and "io_send io < 4611686018427387904"
  shows "\<exists>f' evs ended. rw_send sk ae mem_ok V io f = Inr (f', evs, ended) \<and> fsm_ok f'
    \<and> fsm_status f' = (if ended then EEnd else EReadWrite) \<and> held f' = held f \<and> opened evs = {#} \<and> closed evs = {#}"
proof -
  define f1 where "f1 = after_request io f"
  have f1: "fsm_ok f1" "bufs_ok f1" "fsm_core f1 = fsm_core f"
    using after_request_ok[OF assms(1,2)] by (simp_all add: f1_def)
  then have st: "fsm_status f1 = EReadWrite" "held f1 = held f"
    using assms(3) by (simp_all add: fsm_core_def held_def)
  obtain b where b: "ab_inv b" "rw_send sk ae mem_ok V io f =
      (if 0 < io_send io then
         Inr (v_OnSend V io (io_send io) (f1\<lparr>fsm_send_buf := b\<rparr>),
              [EvSend (fsm_sock f) (take (nat (io_send io)) (ab_contents (fsm_send_buf f1)))], False)
       else if IS_NOBLOCK_WRITE_ERRNO (io_send_errno io) then Inr (f1, [], False)
       else Inr (goto EEnd (f1\<lparr>fsm_error := io_send_errno io\<rparr>), [], True))"
    using rw_send_run[OF assms(1,2,4)] unfolding f1_def by metis
  have "fsm_ok (f1\<lparr>fsm_send_buf := b\<rparr>)" using f1(1) b(1) st by (simp add: fsm_ok_cases bufs_ok_def)
  with f1 st show ?thesis
    by (simp add: b(2) cb[OF assms(1)] fsm_ok_cases) (auto simp: held_def)
qed

lemma rw_recv_ok:
  assumes "ok_io io" and "fsm_ok f" and "fsm_status f = EReadWrite" and "recv_fits mem_ok io (fsm_recv_buf f)"
  shows "\<exists>f' evs ended. rw_recv ae mem_ok V io f = Inr (f', evs, ended) \<and> fsm_ok f'
    \<and> fsm_status f' = (if ended then EEnd else EReadWrite) \<and> held f' = held f \<and> opened evs = {#} \<and> closed evs = {#}"
proof -
  obtain b where b: "ab_inv b" "rw_recv ae mem_ok V io f =
      (if 0 < io_recv io then
         Inr (v_OnRecv V io (io_recv io) (f\<lparr>fsm_recv_buf := b\<rparr>), [EvRecv (fsm_sock f) (io_recv_data io)], False)
       else if 0 = io_recv io then
         Inr ((goto EEnd (f\<lparr>fsm_recv_buf := b, fsm_error := 0\<rparr>))\<lparr>fsm_remote_close := True\<rparr>, [], True)
       else if IS_NOBLOCK_READ_ERRNO (io_recv_errno io) then Inr (f\<lparr>fsm_recv_buf := b\<rparr>, [], False)
       else Inr (goto EEnd (f\<lparr>fsm_recv_buf := b, fsm_error := io_recv_errno io\<rparr>), [], True))"
    using rw_recv_run[OF assms(1) fsm_ok_bufs[OF assms(2)] assms(4)] by metis
  have bo: "bufs_ok (f\<lparr>fsm_recv_buf := b\<rparr>)" using b(1) assms(2) by (simp add: fsm_ok_def bufs_ok_def)
  have "fsm_ok (f\<lparr>fsm_recv_buf := b\<rparr>)" using assms(2,3) bo by (simp add: fsm_ok_cases)
  with assms(3) bo show ?thesis
    by (simp add: b(2) cb[OF assms(1)] fsm_ok_cases) (auto simp: held_def)
qed

end

text \<open>
  A client whose callbacks leave the buffers to the base class once the connection is up:
  then the connection is a pair of byte streams.
\<close>

locale fsm_stream = fsm_client V ok_io
  for V :: "('i fsm_io_scheme, 'a TcpClientFSM_scheme) fsm_virtuals" and ok_io :: "'i fsm_io_scheme \<Rightarrow> bool" +
  assumes OnCreate_recv: "fsm_recv_buf (v_OnCreate V io f) = fsm_recv_buf f"
    and OnConnect_recv: "fsm_recv_buf (v_OnConnect V io f) = fsm_recv_buf f"
    and OnConnected_recv: "fsm_recv_buf (v_OnConnected V io n f) = fsm_recv_buf f"
    and OnSend_bufs: "fsm_send_buf (v_OnSend V io n f) = fsm_send_buf f" "fsm_recv_buf (v_OnSend V io n f) = fsm_recv_buf f"
    and OnRecv_bufs: "fsm_send_buf (v_OnRecv V io n f) = fsm_send_buf f" "fsm_recv_buf (v_OnRecv V io n f) = fsm_recv_buf f"
    and OnRequestSend_bufs: "fsm_send_buf (v_OnRequestSend V io f) = fsm_send_buf f"
      "fsm_recv_buf (v_OnRequestSend V io f) = fsm_recv_buf f"
    and OnClose_bufs: "fsm_send_buf (v_OnClose V io st err user f) = fsm_send_buf f"
      "fsm_recv_buf (v_OnClose V io st err user f) = fsm_recv_buf f"
begin

text \<open>
  What a step of an established connection does to the streams: the bytes sent are a prefix of the
  send buffer, which keeps the rest; the bytes received are appended to the receive buffer.
\<close>

definition streams :: "'a TcpClientFSM_scheme \<Rightarrow> sys_event list \<Rightarrow> 'a TcpClientFSM_scheme \<Rightarrow> bool" where
  "streams f evs f' \<longleftrightarrow> ab_contents (fsm_send_buf f) = sent_bytes evs @ ab_contents (fsm_send_buf f')
     \<and> ab_contents (fsm_recv_buf f') = ab_contents (fsm_recv_buf f) @ received_bytes evs
     \<and> ab_unitsize (fsm_recv_buf f') = ab_unitsize (fsm_recv_buf f)"

lemma streams_refl [simp]: "streams f [] f"
  by (simp add: streams_def)

lemma streams_trans: "streams f evs f' \<Longrightarrow> streams f' evs' f'' \<Longrightarrow> streams f (evs @ evs') f''"
  by (simp add: streams_def)

lemma after_request_bufs: "fsm_send_buf (after_request io f) = fsm_send_buf f" "fsm_recv_buf (after_request io f) = fsm_recv_buf f"
  by (simp_all add: after_request_def OnRequestSend_bufs)

lemma rw_send_streams:
  assumes "ok_io io" and "fsm_ok f" and "io_send io < 4611686018427387904"
    and "rw_send sk ae mem_ok V io f = Inr (f', evs, ended)"
  shows "streams f evs f'" "fsm_recv_buf f' = fsm_recv_buf f"
  using rw_send_run[OF assms(1-3), of sk ae mem_ok] assms(4)
  by (auto simp: streams_def OnSend_bufs after_request_bufs split: if_splits)

lemma rw_recv_streams:
  assumes "ok_io io" and "fsm_ok f" and "recv_fits mem_ok io (fsm_recv_buf f)"
    and "rw_recv ae mem_ok V io f = Inr (f', evs, ended)"
  shows "streams f evs f'" "recv_grown (fsm_recv_buf f) (fsm_recv_buf f')"
  using rw_recv_run[OF assms(1) fsm_ok_bufs[OF assms(2)] assms(3), of ae] assms(4)
  by (auto simp: streams_def OnRecv_bufs split: if_splits)

lemma send_part:
  assumes "ok_io io" and "fsm_ok f" and "fsm_status f = EReadWrite" and "io_send io < 4611686018427387904"
  shows "\<exists>f' evs ended. (if w \<noteq> (0 :: 16 word) then rw_send sk ae mem_ok V io f else Inr (f, [], False)) = Inr (f', evs, ended)
    \<and> fsm_ok f' \<and> fsm_status f' = (if ended then EEnd else EReadWrite) \<and> held f' = held f \<and> opened evs = {#}
    \<and> closed evs = {#} \<and> streams f evs f' \<and> fsm_recv_buf f' = fsm_recv_buf f"
proof (cases "w = 0")
  case True
  then show ?thesis using assms(2,3) by auto
next
  case False
  obtain f' evs ended where r: "rw_send sk ae mem_ok V io f = Inr (f', evs, ended)" and rest: "fsm_ok f'"
      "fsm_status f' = (if ended then EEnd else EReadWrite)" "held f' = held f" "opened evs = {#}" "closed evs = {#}"
    using rw_send_ok[OF assms, of sk ae mem_ok] by metis
  show ?thesis using rest rw_send_streams[OF assms(1,2,4) r] False unfolding r by simp
qed

lemma recv_part:
  assumes "ok_io io" and "fsm_ok f" and "fsm_status f = EReadWrite" and "recv_fits mem_ok io (fsm_recv_buf f)"
  shows "\<exists>f' evs ended. (if w \<noteq> (0 :: 16 word) then rw_recv ae mem_ok V io f else Inr (f, [], False)) = Inr (f', evs, ended)
    \<and> fsm_ok f' \<and> fsm_status f' = (if ended then EEnd else EReadWrite) \<and> held f' = held f \<and> opened evs = {#}
    \<and> closed evs = {#} \<and> streams f evs f' \<and> recv_grown (fsm_recv_buf f) (fsm_recv_buf f')"
proof (cases "w = 0")
  case True
  then show ?thesis using assms(2,3) by auto
next
  case False
  obtain f' evs ended where r: "rw_recv ae mem_ok V io f = Inr (f', evs, ended)" and rest: "fsm_ok f'"
      "fsm_status f' = (if ended then EEnd else EReadWrite)" "held f' = held f" "opened evs = {#}" "closed evs = {#}"
    using rw_recv_ok[OF assms, of ae] by metis
  show ?thesis using rest rw_recv_streams[OF assms(1,2,4) r] False unfolding r by simp
qed

lemma AfterReadWriteSelect_ok:
  assumes "ok_io io" and "fsm_ok f" and "fsm_status f = EReadWrite" and "io_send io < 4611686018427387904"
    and "recv_fits mem_ok io (fsm_recv_buf f)"
  shows "\<exists>f' evs. AfterReadWriteSelect sk ae mem_ok V io sel f = Inr (f', evs) \<and> fsm_ok f'
    \<and> EReadWrite \<le> fsm_status f' \<and> balanced f evs f' \<and> streams f evs f' \<and> recv_grown (fsm_recv_buf f) (fsm_recv_buf f')
    \<and> opened evs = {#} \<and> closed evs = {#}"
proof (cases "Exception_FD_ISSET (fsm_sock f) sel \<noteq> 0")
  case True
  then show ?thesis
    using assms(2,3) by (simp add: AfterReadWriteSelect_def Let_def fsm_ok_cases status_order balanced_def held_def streams_def)
next
  case False
  define s1 where "s1 = (if Write_FD_ISSET (fsm_sock f) sel \<noteq> 0 then rw_send sk ae mem_ok V io f else Inr (f, [], False))"
  obtain f1 evs1 e1 where s1: "s1 = Inr (f1, evs1, e1)" "fsm_ok f1" "fsm_status f1 = (if e1 then EEnd else EReadWrite)"
      "held f1 = held f" "opened evs1 = {#}" "closed evs1 = {#}" "streams f evs1 f1" "fsm_recv_buf f1 = fsm_recv_buf f"
    using send_part[OF assms(1-4)] unfolding s1_def by metis
  show ?thesis
  proof (cases e1)
    case True
    then show ?thesis
      using s1 False assms(3) unfolding AfterReadWriteSelect_def Let_def s1_def[symmetric]
      by (simp add: status_order balanced_def)
  next
    case e1: False
    define s2 where "s2 = (if Read_FD_ISSET (fsm_sock f1) sel \<noteq> 0 then rw_recv ae mem_ok V io f1 else Inr (f1, [], False))"
    have rf: "recv_fits mem_ok io (fsm_recv_buf f1)" "fsm_status f1 = EReadWrite" using assms(5) s1 e1 by simp_all
    obtain f2 evs2 e2 where s2: "s2 = Inr (f2, evs2, e2)" "fsm_ok f2" "fsm_status f2 = (if e2 then EEnd else EReadWrite)"
        "held f2 = held f1" "opened evs2 = {#}" "closed evs2 = {#}" "streams f1 evs2 f2"
        "recv_grown (fsm_recv_buf f1) (fsm_recv_buf f2)"
      using recv_part[OF assms(1) s1(2) rf(2,1)] unfolding s2_def by metis
    define f3 where "f3 = (if \<not> e2 \<and> Write_FD_ISSET (fsm_sock f2) sel = 0 \<and> Read_FD_ISSET (fsm_sock f2) sel = 0
        \<and> 0 \<ge> v_ReadWriteTimeout V (io_t_timeout io) f then goto EEnd (f2\<lparr>fsm_error := ETIMEDOUT\<rparr>) else f2)"
    have run: "AfterReadWriteSelect sk ae mem_ok V io sel f = Inr (f3, evs1 @ evs2)"
      using s1(1) s2(1) False assms(3) e1 unfolding AfterReadWriteSelect_def Let_def s1_def[symmetric]
      by (simp add: s2_def[symmetric] f3_def)
    have "fsm_ok f3" "EReadWrite \<le> fsm_status f3" "held f3 = held f2" "streams f1 evs2 f3"
      "recv_grown (fsm_recv_buf f1) (fsm_recv_buf f3)"
      using s2 fsm_ok_bufs[OF s2(2)] by (auto simp: f3_def fsm_ok_cases status_order streams_def)
    with run s1 s2 show ?thesis
      using streams_trans[OF s1(7), of evs2 f3] by (simp add: balanced_def)
  qed
qed

lemma PreSelect_recv:
  "fsm_PreSelect sk V io sel f = Inr (f', sel', evs) \<Longrightarrow> fsm_recv_buf f' = fsm_recv_buf f"
  by (auto simp: fsm_PreSelect_def PreConnectSelect_def start_connect_def Let_def bindE_eq_Inr ASSERT_eq_Inr
      OnCreate_recv OnConnect_recv OnClose_bufs split: TSocketStatus.splits if_splits)

lemma AfterConnectSelect_recv:
  "AfterConnectSelect sk V io sel f = Inr f' \<Longrightarrow> fsm_recv_buf f' = fsm_recv_buf f"
  by (auto simp: AfterConnectSelect_def Let_def ASSERT_eq_Inr OnConnected_recv split: if_splits)

lemma AfterSelect_ok:
  assumes "ok_io io" and "fsm_ok f" and "io_send io < 4611686018427387904"
    and "recv_fits mem_ok io (fsm_recv_buf f)"
  shows "\<exists>f' evs. fsm_AfterSelect sk ae mem_ok V io sel f = Inr (f', evs) \<and> fsm_ok f'
    \<and> fsm_status f \<le> fsm_status f' \<and> balanced f evs f' \<and> opened evs = {#} \<and> closed evs = {#}
    \<and> (if fsm_status f = EReadWrite then streams f evs f' \<and> recv_grown (fsm_recv_buf f) (fsm_recv_buf f') else evs = [] \<and> fsm_recv_buf f' = fsm_recv_buf f)"
proof -
  define r where "r = (case fsm_status f of
      EConnecting \<Rightarrow> bindE (AfterConnectSelect sk V io sel f) (\<lambda>f. Inr (f, []))
    | EReadWrite \<Rightarrow> AfterReadWriteSelect sk ae mem_ok V io sel f | _ \<Rightarrow> Inr (f, []))"
  have "\<exists>f' evs. r = Inr (f', evs) \<and> fsm_ok f' \<and> fsm_status f \<le> fsm_status f' \<and> balanced f evs f'
      \<and> opened evs = {#} \<and> closed evs = {#} \<and> (if fsm_status f = EReadWrite then streams f evs f' \<and> recv_grown (fsm_recv_buf f) (fsm_recv_buf f') else evs = [] \<and> fsm_recv_buf f' = fsm_recv_buf f)"
  proof (cases "fsm_status f")
    case EConnecting
    then show ?thesis
      using AfterConnectSelect_ok[OF assms(1,2) EConnecting, of sk sel] AfterConnectSelect_recv[of sk io sel f]
      by (auto simp: r_def balanced_def)
  next
    case EReadWrite
    then show ?thesis
      using AfterReadWriteSelect_ok[OF assms(1,2) EReadWrite assms(3,4), of sk ae sel] by (simp add: r_def) blast
  qed (use assms in \<open>simp_all add: r_def\<close>)
  then obtain f' evs where "r = Inr (f', evs)" "fsm_ok f'" "fsm_status f \<le> fsm_status f'" "balanced f evs f'"
      "opened evs = {#}" "closed evs = {#}" "if fsm_status f = EReadWrite then streams f evs f' \<and> recv_grown (fsm_recv_buf f) (fsm_recv_buf f') else evs = [] \<and> fsm_recv_buf f' = fsm_recv_buf f" by blast
  then show ?thesis
    unfolding fsm_AfterSelect_def r_def[symmetric]
    by (simp add: cb[OF assms(1)] balanced_def streams_def OnClose_bufs split: if_splits)
qed

lemma Close_ok:
  assumes "ok_io io" and "fsm_ok f"
  shows "\<exists>f' evs. fsm_Close V io notify f = (f', evs) \<and> fsm_ok f' \<and> fsm_status f \<le> fsm_status f'
    \<and> fsm_sock f' = INVALID_SOCKET \<and> balanced f evs f' \<and> streams f evs f'"
proof -
  consider (none) "fsm_sock f = -1" | (dead) "fsm_sock f \<noteq> -1" "fsm_remote_close f \<or> fsm_error f \<noteq> 0"
    | (live) "fsm_sock f \<noteq> -1" "\<not> fsm_remote_close f" "fsm_error f = 0" by blast
  then show ?thesis
  proof cases
    case none
    then show ?thesis using assms(2) by (simp add: fsm_Close_def)
  next
    case dead
    then have "fsm_ok (f\<lparr>fsm_sock := INVALID_SOCKET\<rparr>)"
      using assms(2) by (auto simp: fsm_ok_def split: TSocketStatus.splits)
    with dead show ?thesis by (simp add: fsm_Close_def balanced_def held_def streams_def)
  next
    case live
    define f1 where "f1 = (goto EEnd (f\<lparr>fsm_sock := INVALID_SOCKET\<rparr>))\<lparr>fsm_error := 0\<rparr>"
    have f1: "fsm_ok f1" "held f1 = {#}" "fsm_sock f1 = -1" "fsm_status f1 = EEnd" "fsm_send_buf f1 = fsm_send_buf f"
      "fsm_recv_buf f1 = fsm_recv_buf f"
      using fsm_ok_bufs[OF assms(2)] by (simp_all add: f1_def fsm_ok_cases held_def)
    have "fsm_Close V io notify f =
        (if notify then v_OnClose V io (fsm_last_status f1) (-1) (fsm_remote_close f1) f1 else f1, [EvClose (fsm_sock f)])"
      using live by (simp add: fsm_Close_def f1_def)
    with f1 live(1) show ?thesis
      by (simp add: cb[OF assms(1)] OnClose_bufs balanced_def streams_def) (simp add: held_def)
  qed
qed

end

end
