(* ===== verification/ComplexConnect.thy ===== *)
theory ComplexConnect
  imports TcpClientFsm
begin

text \<open>
  Model of \<open>network/complexconnect.h\<close> and \<open>network/complexconnect.cc\<close>: \<open>ConnectCheckFSM\<close>,
  a connection with an optional verification by an observer, and \<open>MultiConnect::TryConnect\<close>,
  which races connections to several addresses. What the observer answers and does to the
  send buffer is part of the environment of the call, so every observer, stateful or not,
  is covered; the calls it receives are recorded. A run of the \<open>do\<close> loop is driven by a list
  of round environments; \<open>None\<close> means that the loop has not been left yet.
\<close>

section \<open>ConnectCheckFSM\<close>

datatype TCheckStatus = ECheckInit | ECheckOK | ECheckFail

text \<open>Calls on the observer: index, socket, and the arguments that carry results.\<close>

datatype observer_call =
  OnCreated nat int
| OnConnect nat int
| OnConnected nat int int int
| OnVerifySend nat int
| OnVerifyRecv nat int
| OnVerifyTimeout int
| OnFinished nat int int int int int

record ConnectCheckFSM = TcpClientFSM +
  cc_connect_timeout :: u32
  cc_index :: nat
  cc_observer :: bool
  cc_check_status :: TCheckStatus
  cc_checkfintime :: u64
  cc_calls :: "observer_call list"

record check_io = fsm_io +
  io_t_connected :: u64
  io_t_recv :: u64
  io_t_close :: u64
  io_t_close2 :: u64
  io_verify_send :: "AutoBuffer \<Rightarrow> bool \<times> AutoBuffer"
  io_verify_recv :: "AutoBuffer \<Rightarrow> bool"

text \<open>\<open>verify\<close>: what \<open>ShouldVerify\<close> answers.\<close>

definition ConnectCheckFSM_new :: "byte list \<Rightarrow> u32 \<Rightarrow> nat \<Rightarrow> bool \<Rightarrow> bool \<Rightarrow> ConnectCheckFSM" where
  "ConnectCheckFSM_new addr connect_timeout index observer verify =
     TcpClientFSM.extend (TcpClientFSM_new addr)
       (ConnectCheckFSM.fields connect_timeout index observer
          (if observer \<and> verify then ECheckInit else ECheckOK) 0 [])"

definition TotalRtt :: "ConnectCheckFSM \<Rightarrow> int" where
  "TotalRtt f = sint (ucast (cc_checkfintime f - fsm_start_connecttime f) :: u32)"

definition observe :: "observer_call \<Rightarrow> ConnectCheckFSM \<Rightarrow> ConnectCheckFSM" where
  "observe c f = f\<lparr>cc_calls := cc_calls f @ [c]\<rparr>"

definition check_OnCreate :: "check_io \<Rightarrow> ConnectCheckFSM \<Rightarrow> ConnectCheckFSM" where
  "check_OnCreate io f = (if cc_observer f then observe (OnCreated (cc_index f) (fsm_sock f)) f else f)"

definition check_OnConnect :: "check_io \<Rightarrow> ConnectCheckFSM \<Rightarrow> ConnectCheckFSM" where
  "check_OnConnect io f = (if cc_observer f then observe (OnConnect (cc_index f) (fsm_sock f)) f else f)"

definition check_OnConnected :: "check_io \<Rightarrow> int \<Rightarrow> ConnectCheckFSM \<Rightarrow> ConnectCheckFSM" where
  "check_OnConnected io rtt f =
     (let f = f\<lparr>cc_checkfintime := io_t_connected io\<rparr>
      in if \<not> cc_observer f then f
         else
           let f = observe (OnConnected (cc_index f) (fsm_sock f) 0 rtt) f
           in if ECheckOK = cc_check_status f then f
              else
                let (r, b) = io_verify_send io (fsm_send_buf f);
                    f = observe (OnVerifySend (cc_index f) (fsm_sock f)) (f\<lparr>fsm_send_buf := b\<rparr>)
                in if \<not> r then f\<lparr>cc_check_status := ECheckFail\<rparr> else f)"

definition check_OnRecv :: "check_io \<Rightarrow> int \<Rightarrow> ConnectCheckFSM \<Rightarrow> ConnectCheckFSM" where
  "check_OnRecv io recv_len f =
     (if \<not> cc_observer f then f
      else if ECheckOK = cc_check_status f then f
      else
        let f = observe (OnVerifyRecv (cc_index f) (fsm_sock f)) f
        in f\<lparr>cc_check_status := (if io_verify_recv io (fsm_recv_buf f) then ECheckOK else ECheckFail),
             cc_checkfintime := io_t_recv io\<rparr>)"

definition check_OnSend :: "check_io \<Rightarrow> int \<Rightarrow> ConnectCheckFSM \<Rightarrow> ConnectCheckFSM" where
  "check_OnSend io send_len f = f"

definition check_OnClose :: "check_io \<Rightarrow> TSocketStatus \<Rightarrow> int \<Rightarrow> bool \<Rightarrow> ConnectCheckFSM \<Rightarrow> ConnectCheckFSM" where
  "check_OnClose io st err userclose f =
     (let f = f\<lparr>cc_checkfintime := io_t_close io\<rparr>
      in if cc_observer f \<and> \<not> userclose then
           (if EConnecting = st then observe (OnConnected (cc_index f) (fsm_sock f) err (TotalRtt f)) f
            else if EReadWrite = st \<and> ETIMEDOUT = err then
              let f = f\<lparr>cc_checkfintime := io_t_close2 io\<rparr>
              in observe (OnVerifyTimeout (sint (ucast (cc_checkfintime f - fsm_end_connecttime f) :: u32))) f
            else f)
         else f)"

definition check_ConnectAbsTimeout :: "ConnectCheckFSM \<Rightarrow> int" where
  "check_ConnectAbsTimeout f = sint (cc_connect_timeout f)"

definition check_ConnectTimeout :: "u64 \<Rightarrow> ConnectCheckFSM \<Rightarrow> int" where
  "check_ConnectTimeout now f =
     sint (ucast (fsm_start_connecttime f + word_of_int (check_ConnectAbsTimeout f) - now) :: u32)"

definition check_ReadWriteAbsTimeout :: "ConnectCheckFSM \<Rightarrow> int" where
  "check_ReadWriteAbsTimeout f = max 1000 (min (6 * Rtt f) (check_ConnectAbsTimeout f - Rtt f))"

definition check_ReadWriteTimeout :: "u64 \<Rightarrow> ConnectCheckFSM \<Rightarrow> int" where
  "check_ReadWriteTimeout now f =
     sint (ucast (fsm_end_connecttime f + word_of_int (check_ReadWriteAbsTimeout f) - now) :: u32)"

definition check_virtuals :: "(check_io, ConnectCheckFSM) fsm_virtuals" where
  "check_virtuals =
     \<lparr>v_OnCreate = check_OnCreate, v_OnConnect = check_OnConnect, v_OnConnected = check_OnConnected,
      v_OnRecv = check_OnRecv, v_OnRequestSend = (\<lambda>io. base_OnRequestSend), v_OnSend = check_OnSend,
      v_OnClose = check_OnClose, v_ConnectTimeout = check_ConnectTimeout,
      v_ReadWriteTimeout = check_ReadWriteTimeout\<rparr>"

text \<open>The observer may write to the send buffer through the buffer's own operations only.\<close>

definition verify_send_ok :: "check_io \<Rightarrow> bool" where
  "verify_send_ok io \<longleftrightarrow> (\<forall>b. ab_inv b \<longrightarrow> ab_inv (snd (io_verify_send io b)))"

lemmas check_defs = check_OnCreate_def check_OnConnect_def check_OnConnected_def check_OnRecv_def
  check_OnSend_def check_OnClose_def observe_def base_OnRequestSend_def Let_def

interpretation chk: fsm_stream check_virtuals verify_send_ok
  by unfold_locales
    (auto simp: check_virtuals_def check_defs keeps_def fsm_core_def bufs_ok_def verify_send_ok_def
      case_prod_beta)

section \<open>MultiConnect\<close>

record MultiConnect =
  mc_timeout :: u32
  mc_interval :: u32
  mc_error_interval :: u32
  mc_max_connect :: u32
  mc_trycount :: nat
  mc_index :: int
  mc_errcode :: int
  mc_index_conn_rtt :: int
  mc_index_conn_totalcost :: int
  mc_totalcost :: int

definition MultiConnect_new :: "u32 \<Rightarrow> u32 \<Rightarrow> u32 \<Rightarrow> u32 \<Rightarrow> MultiConnect" where
  "MultiConnect_new timeout interval error_interval max_connect =
     \<lparr>mc_timeout = timeout, mc_interval = interval, mc_error_interval = error_interval,
      mc_max_connect = max_connect, mc_trycount = 0, mc_index = -1, mc_errcode = 0,
      mc_index_conn_rtt = 0, mc_index_conn_totalcost = 0, mc_totalcost = 0\<rparr>"

definition MultiConnect_new2 :: "u32 \<Rightarrow> u32 \<Rightarrow> MultiConnect" where
  "MultiConnect_new2 timeout interval = MultiConnect_new timeout interval interval 3"

text \<open>\<open>_index * interval_\<close> in \<open>unsigned int\<close>, then converted to \<open>int\<close>.\<close>

definition ConnectTime :: "u32 \<Rightarrow> MultiConnect \<Rightarrow> int" where
  "ConnectTime index m = sint (index * mc_interval m)"

definition ConnectTimeout :: "u32 \<Rightarrow> MultiConnect \<Rightarrow> int" where
  "ConnectTimeout index m = sint (word_of_int (ConnectTime index m) + mc_timeout m)"

definition isconnecting :: "ConnectCheckFSM option \<Rightarrow> bool" where
  "isconnecting ref = (case ref of None \<Rightarrow> False | Some f \<Rightarrow> fsm_sock f \<noteq> INVALID_SOCKET)"

text \<open>
  The environment of one round: clock readings, what the handlers of connection \<open>i\<close> find, and
  \<open>poll\<close>. \<open>r_close\<close> is the environment of \<open>Close()\<close> and \<open>delete\<close>.
\<close>

record round_io =
  r_curtime :: u64
  r_start :: u64
  r_pre :: "nat \<Rightarrow> check_io"
  r_timeout :: "nat \<Rightarrow> u64"
  r_poll :: "pollfd list \<Rightarrow> int \<Rightarrow> int \<times> pollfd list \<times> int"
  r_after :: "nat \<Rightarrow> check_io"
  r_close :: "nat \<Rightarrow> check_io"
  r_finish :: "nat \<Rightarrow> u64"

text \<open>The local variables of \<open>TryConnect\<close>, the effects so far and the final calls on the observer.\<close>

record tc_state =
  tc_mc :: MultiConnect
  tc_vec :: "ConnectCheckFSM option list"
  tc_index :: nat
  tc_lasterror :: int
  tc_laststart :: u64
  tc_retsocket :: int
  tc_evs :: "sys_event list"
  tc_calls :: "observer_call list"

text \<open>\<open>p->Close(); delete p;\<close>\<close>

definition dispose :: "bool \<Rightarrow> check_io \<Rightarrow> ConnectCheckFSM \<Rightarrow> sys_event list cres" where
  "dispose sk io f =
     (case fsm_Close check_virtuals io True f of (f, evs) \<Rightarrow>
        bindE (TcpClientFSM_delete sk check_virtuals io f) (\<lambda>evs2. Inr (evs @ evs2)))"

text \<open>The head of a round: the time limit, and whether the next connection is started.\<close>

definition tc_start :: "round_io \<Rightarrow> tc_state \<Rightarrow> int \<times> tc_state" where
  "tc_start r s =
     (let m = tc_mc s;
          next_connect_timeout = sint (ucast (ucast (if tc_lasterror s = 0 then mc_interval m else mc_error_interval m)
                                  - (r_curtime r - tc_laststart s) :: u64) :: u32);
          timeout = sint (mc_timeout m);
          runing_count = length (filter isconnecting (tc_vec s));
          timeout = (if tc_index s < length (tc_vec s) \<and> 0 < next_connect_timeout \<and> runing_count < unat (mc_max_connect m)
                     then min timeout next_connect_timeout else timeout)
      in if tc_index s < length (tc_vec s) \<and> 0 \<ge> next_connect_timeout \<and> runing_count < unat (mc_max_connect m)
         then (if runing_count + 1 < unat (mc_max_connect m) then min timeout (sint (mc_interval m)) else timeout,
               s\<lparr>tc_laststart := r_start r, tc_lasterror := 0,
                 tc_mc := m\<lparr>mc_trycount := tc_index s + 1\<rparr>, tc_index := tc_index s + 1\<rparr>)
         else (timeout, s))"

text \<open>The loop over \<open>PreSelect\<close>; the list is the part of the vector below \<open>index\<close>, from position \<open>i\<close>.\<close>

fun pre_all ::
  "bool \<Rightarrow> round_io \<Rightarrow> nat \<Rightarrow> ConnectCheckFSM option list \<Rightarrow> SocketSelect \<Rightarrow> int
    \<Rightarrow> (ConnectCheckFSM option list \<times> SocketSelect \<times> int \<times> sys_event list) cres" where
  "pre_all sk r i [] sel timeout = Inr ([], sel, timeout, [])"
| "pre_all sk r i (None # fs) sel timeout =
     bindE (pre_all sk r (Suc i) fs sel timeout) (\<lambda>(fs, sel, timeout, evs). Inr (None # fs, sel, timeout, evs))"
| "pre_all sk r i (Some f # fs) sel timeout =
     bindE (fsm_PreSelect sk check_virtuals (r_pre r i) sel f) (\<lambda>(f, sel, evs1).
     bindE (pre_all sk r (Suc i) fs sel (min timeout (fsm_Timeout check_virtuals (r_timeout r i) f)))
       (\<lambda>(fs, sel, timeout, evs2). Inr (Some f # fs, sel, timeout, evs1 @ evs2)))"

text \<open>
  One connection after \<open>Select\<close>: \<open>Dropped\<close> (closed and deleted), \<open>Won\<close> (the socket is handed
  out, with \<open>Rtt\<close> and \<open>TotalRtt\<close>), or \<open>Kept\<close>.
\<close>

datatype verdict = Dropped | Won int int int | Kept ConnectCheckFSM

definition finished :: "u64 \<Rightarrow> u64 \<Rightarrow> nat \<Rightarrow> int \<Rightarrow> ConnectCheckFSM \<Rightarrow> observer_call list" where
  "finished starttime now i err f =
     (if cc_observer f
      then [OnFinished i (fsm_sock f) err (Rtt f) (TotalRtt f) (sint (ucast (now - starttime) :: u32))] else [])"

definition after_one ::
  "bool \<Rightarrow> bool \<Rightarrow> (nat \<Rightarrow> bool) \<Rightarrow> u64 \<Rightarrow> round_io \<Rightarrow> nat \<Rightarrow> SocketSelect \<Rightarrow> ConnectCheckFSM
    \<Rightarrow> (verdict \<times> sys_event list \<times> observer_call list) cres" where
  "after_one sk ae mem_ok starttime r i sel f =
     bindE (fsm_AfterSelect sk ae mem_ok check_virtuals (r_after r i) sel f) (\<lambda>(f, evs).
     if EEnd = fsm_status f then
       bindE (dispose sk (r_close r i) f) (\<lambda>evs2. Inr (Dropped, evs @ evs2, finished starttime (r_finish r i) i (-1) f))
     else if EReadWrite = fsm_status f \<and> ECheckFail = cc_check_status f then
       bindE (dispose sk (r_close r i) f) (\<lambda>evs2. Inr (Dropped, evs @ evs2, finished starttime (r_finish r i) i (-1) f))
     else if EReadWrite = fsm_status f \<and> ECheckOK = cc_check_status f then
       bindE (TcpClientFSM_delete sk check_virtuals (r_close r i) (Socket_set INVALID_SOCKET f))
         (\<lambda>evs2. Inr (Won (fsm_sock f) (Rtt f) (TotalRtt f), evs @ evs2,
                        finished starttime (r_finish r i) i (fsm_error f) f))
     else Inr (Kept f, evs, []))"

text \<open>The loop over \<open>AfterSelect\<close>, left at the first connection that wins.\<close>

fun after_all ::
  "bool \<Rightarrow> bool \<Rightarrow> (nat \<Rightarrow> bool) \<Rightarrow> u64 \<Rightarrow> round_io \<Rightarrow> nat \<Rightarrow> nat \<Rightarrow> SocketSelect \<Rightarrow> ConnectCheckFSM option list \<Rightarrow> int
    \<Rightarrow> (ConnectCheckFSM option list \<times> int \<times> (nat \<times> int \<times> int \<times> int) option \<times> sys_event list \<times> observer_call list) cres" where
  "after_all sk ae mem_ok starttime r i 0 sel fs lasterror = Inr (fs, lasterror, None, [], [])"
| "after_all sk ae mem_ok starttime r i (Suc n) sel [] lasterror = Inr ([], lasterror, None, [], [])"
| "after_all sk ae mem_ok starttime r i (Suc n) sel (None # fs) lasterror =
     bindE (after_all sk ae mem_ok starttime r (Suc i) n sel fs lasterror)
       (\<lambda>(fs, lasterror, won, evs, calls). Inr (None # fs, lasterror, won, evs, calls))"
| "after_all sk ae mem_ok starttime r i (Suc n) sel (Some f # fs) lasterror =
     bindE (after_one sk ae mem_ok starttime r i sel f) (\<lambda>(v, evs1, calls1).
     case v of
       Won sock rtt cost \<Rightarrow> Inr (None # fs, lasterror, Some (i, sock, rtt, cost), evs1, calls1)
     | Dropped \<Rightarrow>
         bindE (after_all sk ae mem_ok starttime r (Suc i) n sel fs (-1))
           (\<lambda>(fs, lasterror, won, evs2, calls2). Inr (None # fs, lasterror, won, evs1 @ evs2, calls1 @ calls2))
     | Kept f \<Rightarrow>
         bindE (after_all sk ae mem_ok starttime r (Suc i) n sel fs lasterror)
           (\<lambda>(fs, lasterror, won, evs2, calls2). Inr (Some f # fs, lasterror, won, evs1 @ evs2, calls1 @ calls2)))"

text \<open>One round of the \<open>do\<close> loop; the flag tells that the loop is left.\<close>

definition tc_prepare ::
  "bool \<Rightarrow> SocketSelectBreaker \<Rightarrow> round_io \<Rightarrow> tc_state \<Rightarrow> (tc_state \<times> SocketSelect \<times> int) cres" where
  "tc_prepare sk b r s =
     (let sel = PreSelect b (SocketSelect_new False);
          (timeout, s) = tc_start r s
      in bindE (pre_all sk r 0 (take (tc_index s) (tc_vec s)) sel timeout) (\<lambda>(fs, sel, timeout, evs).
           Inr (s\<lparr>tc_vec := fs @ drop (tc_index s) (tc_vec s), tc_evs := tc_evs s @ evs\<rparr>, sel, timeout)))"

definition tc_won :: "(nat \<times> int \<times> int \<times> int) option \<Rightarrow> tc_state \<Rightarrow> tc_state" where
  "tc_won won s =
     (case won of None \<Rightarrow> s
      | Some (i, sock, rtt, cost) \<Rightarrow>
          s\<lparr>tc_retsocket := sock, tc_mc := (tc_mc s)\<lparr>mc_index := int i, mc_index_conn_rtt := rtt,
            mc_index_conn_totalcost := cost\<rparr>\<rparr>)"

definition tc_round ::
  "bool \<Rightarrow> bool \<Rightarrow> (nat \<Rightarrow> bool) \<Rightarrow> SocketSelectBreaker \<Rightarrow> u64 \<Rightarrow> round_io \<Rightarrow> tc_state \<Rightarrow> (bool \<times> tc_state) cres" where
  "tc_round sk ae mem_ok b starttime r s =
     bindE (tc_prepare sk b r s) (\<lambda>(s, sel, timeout).
     bindE (if INT_MAX = timeout then Select_forever (r_poll r) 0 b sel
            else Select (r_poll r) 0 (max 0 timeout) b sel) (\<lambda>(ret, b, sel).
     if ret < 0 then Inr (True, s)
     else if IsException b sel then Inr (True, s)
     else if IsBreak b sel then Inr (True, s)
     else
       bindE (after_all sk ae mem_ok starttime r 0 (tc_index s) sel (tc_vec s) (tc_lasterror s))
         (\<lambda>(vec, lasterror, won, evs, calls).
           let s = tc_won won (s\<lparr>tc_vec := vec, tc_lasterror := lasterror, tc_evs := tc_evs s @ evs,
                                 tc_calls := tc_calls s @ calls\<rparr>)
           in Inr ((\<forall>f\<in>set vec. f = None) \<or> tc_retsocket s \<noteq> INVALID_SOCKET, s))))"

fun tc_loop ::
  "bool \<Rightarrow> bool \<Rightarrow> (nat \<Rightarrow> bool) \<Rightarrow> SocketSelectBreaker \<Rightarrow> u64 \<Rightarrow> round_io list \<Rightarrow> tc_state \<Rightarrow> tc_state option cres" where
  "tc_loop sk ae mem_ok b starttime [] s = Inr None"
| "tc_loop sk ae mem_ok b starttime (r # rs) s =
     bindE (tc_round sk ae mem_ok b starttime r s) (\<lambda>(left, s).
       if left then Inr (Some s) else tc_loop sk ae mem_ok b starttime rs s)"

text \<open>The loop that closes what is left, then \<open>TryConnect\<close>.\<close>

fun close_all :: "bool \<Rightarrow> (nat \<Rightarrow> check_io) \<Rightarrow> nat \<Rightarrow> ConnectCheckFSM option list \<Rightarrow> sys_event list cres" where
  "close_all sk io i [] = Inr []"
| "close_all sk io i (None # fs) = close_all sk io (Suc i) fs"
| "close_all sk io i (Some f # fs) =
     bindE (dispose sk (io i) f) (\<lambda>evs1. bindE (close_all sk io (Suc i) fs) (\<lambda>evs2. Inr (evs1 @ evs2)))"

definition tc_reset :: "MultiConnect \<Rightarrow> MultiConnect" where
  "tc_reset m = m\<lparr>mc_trycount := 0, mc_index := -1, mc_errcode := 0, mc_index_conn_rtt := 0,
     mc_index_conn_totalcost := 0, mc_totalcost := 0\<rparr>"

definition tc_init :: "byte list list \<Rightarrow> bool \<Rightarrow> (nat \<Rightarrow> bool) \<Rightarrow> u64 \<Rightarrow> MultiConnect \<Rightarrow> tc_state" where
  "tc_init vecaddr observer verify curtime m =
     \<lparr>tc_mc = tc_reset m,
      tc_vec = map (\<lambda>i. Some (ConnectCheckFSM_new (vecaddr ! i) (mc_timeout m) i observer (verify i))) [0..<length vecaddr],
      tc_index = 0, tc_lasterror = 0,
      tc_laststart = curtime - ucast (max (mc_interval m) (mc_error_interval m)),
      tc_retsocket = INVALID_SOCKET, tc_evs = [], tc_calls = []\<rparr>"

definition TryConnect ::
  "bool \<Rightarrow> bool \<Rightarrow> (nat \<Rightarrow> bool) \<Rightarrow> SocketSelectBreaker \<Rightarrow> byte list list \<Rightarrow> bool \<Rightarrow> (nat \<Rightarrow> bool) \<Rightarrow> u64 \<Rightarrow> u64
    \<Rightarrow> round_io list \<Rightarrow> (nat \<Rightarrow> check_io) \<Rightarrow> u64 \<Rightarrow> MultiConnect \<Rightarrow> (int \<times> MultiConnect \<times> sys_event list) option cres" where
  "TryConnect sk ae mem_ok b vecaddr observer verify starttime curtime rounds close_io endtime m =
     (if vecaddr = [] then Inr (Some (INVALID_SOCKET, tc_reset m, []))
      else
        bindE (tc_loop sk ae mem_ok b starttime rounds (tc_init vecaddr observer verify curtime m)) (\<lambda>res.
        case res of
          None \<Rightarrow> Inr None
        | Some s \<Rightarrow>
            bindE (close_all sk close_io 0 (tc_vec s)) (\<lambda>evs.
              Inr (Some (tc_retsocket s,
                (tc_mc s)\<lparr>mc_totalcost := sint (ucast (endtime - starttime) :: u32)\<rparr>, tc_evs s @ evs)))))"

section \<open>A connection in the race\<close>

text \<open>
  What the kernel guarantees of the calls of a handler: \<open>recv\<close> delivers at most the 16 KB it
  is offered; and the observer keeps the send buffer well formed.
\<close>

definition io_fine :: "check_io \<Rightarrow> bool" where
  "io_fine io \<longleftrightarrow> verify_send_ok io \<and> io_send io < 4611686018427387904
     \<and> (0 < io_recv io \<longrightarrow> io_recv io = int (length (io_recv_data io)) \<and> length (io_recv_data io) \<le> 16 * 1024)"

text \<open>
  The connections that stay in the race: nothing has been received, since the first bytes
  settle the verification, and a connection that is up is waiting to be verified.
\<close>

definition conn_ok :: "ConnectCheckFSM \<Rightarrow> bool" where
  "conn_ok f \<longleftrightarrow> fsm_ok f \<and> ab_length (fsm_recv_buf f) = 0 \<and> ab_unitsize (fsm_recv_buf f) = 128
     \<and> ab_capacity (fsm_recv_buf f) \<in> {0, 16 * 1024} \<and> (cc_check_status f = ECheckInit \<longrightarrow> cc_observer f)
     \<and> (fsm_status f = EReadWrite \<longrightarrow> cc_check_status f = ECheckInit)"

lemma round_up_16K: "round_up (16 * 1024) 128 = 16 * 1024"
  by (simp add: round_up_def)

lemma conn_recv_limit: "conn_ok f \<Longrightarrow> recv_limit (fsm_recv_buf f) = 16 * 1024"
  using round_up_16K by (auto simp: conn_ok_def recv_limit_def Let_def)

lemma conn_recv_fits:
  assumes "conn_ok f" and "io_fine io" and "\<forall>n. mem_ok n"
  shows "recv_fits mem_ok io (fsm_recv_buf f)"
proof -
  have "round_up (16 * 1024) 128 < 4611686018427387904" using round_up_16K by simp
  then have "fits mem_ok (16 * 1024) (fsm_recv_buf f)" using assms(1,3) by (simp add: fits_def conn_ok_def)
  then show ?thesis using assms(1,2) conn_recv_limit[OF assms(1)] by (auto simp: recv_fits_def io_fine_def conn_ok_def)
qed

lemma goto_check [simp]: "cc_check_status (goto st f) = cc_check_status f" "cc_observer (goto st f) = cc_observer f"
  "cc_index (goto st f) = cc_index f"
  by (simp_all add: goto_def)

lemma check_virtuals_simps [simp]:
  "v_OnCreate check_virtuals = check_OnCreate" "v_OnConnect check_virtuals = check_OnConnect"
  "v_OnConnected check_virtuals = check_OnConnected" "v_OnRecv check_virtuals = check_OnRecv"
  "v_OnRequestSend check_virtuals = (\<lambda>io f. f)" "v_OnSend check_virtuals = (\<lambda>io n f. f)"
  "v_OnClose check_virtuals = check_OnClose" "v_ConnectTimeout check_virtuals = check_ConnectTimeout"
  "v_ReadWriteTimeout check_virtuals = check_ReadWriteTimeout"
  by (simp_all add: check_virtuals_def base_OnRequestSend_def check_OnSend_def fun_eq_iff)

lemma check_cb_status:
  "cc_check_status (check_OnCreate io f) = cc_check_status f" "cc_check_status (check_OnConnect io f) = cc_check_status f"
  "cc_check_status (check_OnClose io st err u f) = cc_check_status f"
  "cc_observer (check_OnCreate io f) = cc_observer f" "cc_observer (check_OnConnect io f) = cc_observer f"
  "cc_observer (check_OnConnected io n f) = cc_observer f" "cc_observer (check_OnRecv io n f) = cc_observer f"
  "cc_observer (check_OnClose io st err u f) = cc_observer f"
  by (simp_all add: check_defs case_prod_beta)

lemma OnConnected_status:
  "cc_check_status (check_OnConnected io n f) \<in> {cc_check_status f, ECheckFail}"
  by (simp add: check_defs case_prod_beta)

lemma PreSelect_check:
  "fsm_PreSelect sk check_virtuals io sel f = Inr (f', sel', evs) \<Longrightarrow>
     cc_check_status f' = cc_check_status f \<and> cc_observer f' = cc_observer f"
  by (auto simp: fsm_PreSelect_def PreConnectSelect_def start_connect_def Let_def bindE_eq_Inr ASSERT_eq_Inr
      check_cb_status split: TSocketStatus.splits if_splits)

lemma rw_send_check:
  "rw_send sk ae mem_ok check_virtuals io f = Inr (f', evs, e) \<Longrightarrow>
     cc_check_status f' = cc_check_status f \<and> cc_observer f' = cc_observer f \<and> received_bytes evs = []"
  by (auto simp: rw_send_def Let_def bindE_eq_Inr ASSERT_eq_Inr split: if_splits)

text \<open>The first bytes settle the verification: with an observer, the status is no longer open.\<close>

lemma rw_recv_check:
  assumes "rw_recv ae mem_ok check_virtuals io f = Inr (f', evs, e)"
  shows "cc_observer f' = cc_observer f"
    "received_bytes evs \<noteq> [] \<Longrightarrow> cc_observer f \<Longrightarrow> cc_check_status f' \<noteq> ECheckInit"
    "cc_check_status f' = ECheckOK \<Longrightarrow> cc_check_status f = ECheckOK \<or> (\<exists>b. io_verify_recv io b)"
proof -
  have r: "cc_observer (check_OnRecv io n f) \<Longrightarrow> cc_check_status (check_OnRecv io n f) \<noteq> ECheckInit"
    "cc_check_status (check_OnRecv io n f) = ECheckOK \<Longrightarrow> cc_check_status f = ECheckOK \<or> (\<exists>b. io_verify_recv io b)" for n f
    by (auto simp: check_OnRecv_def observe_def Let_def split: if_splits)
  show "cc_observer f' = cc_observer f"
    using assms by (auto simp: rw_recv_def Let_def bindE_eq_Inr check_cb_status split: if_splits)
  show "received_bytes evs \<noteq> [] \<Longrightarrow> cc_observer f \<Longrightarrow> cc_check_status f' \<noteq> ECheckInit"
    using assms r(1) by (auto simp: rw_recv_def Let_def bindE_eq_Inr check_cb_status split: if_splits)
  show "cc_check_status f' = ECheckOK \<Longrightarrow> cc_check_status f = ECheckOK \<or> (\<exists>b. io_verify_recv io b)"
    using assms by (auto simp: rw_recv_def Let_def bindE_eq_Inr dest!: r(2) split: if_splits)
qed

lemma AfterReadWriteSelect_check:
  assumes "AfterReadWriteSelect sk ae mem_ok check_virtuals io sel f = Inr (f', evs)"
  shows "cc_observer f' = cc_observer f"
    "received_bytes evs \<noteq> [] \<Longrightarrow> cc_observer f \<Longrightarrow> cc_check_status f' \<noteq> ECheckInit"
    "cc_check_status f' = ECheckOK \<Longrightarrow> cc_check_status f = ECheckOK \<or> (\<exists>b. io_verify_recv io b)"
proof -
  have "cc_observer f' = cc_observer f \<and> (received_bytes evs \<noteq> [] \<longrightarrow> cc_observer f \<longrightarrow> cc_check_status f' \<noteq> ECheckInit)
     \<and> (cc_check_status f' = ECheckOK \<longrightarrow> cc_check_status f = ECheckOK \<or> (\<exists>b. io_verify_recv io b))"
    using assms
  proof (cases rule: AfterReadWriteSelect_cases)
    case exception
    then show ?thesis by simp
  next
    case (parts f1 evs1 f2 evs2)
    have 1: "cc_observer f1 = cc_observer f" "cc_check_status f1 = cc_check_status f" "received_bytes evs1 = []"
      using parts(1) rw_send_check by fastforce+
    have 2: "cc_observer f2 = cc_observer f1" "received_bytes evs2 \<noteq> [] \<Longrightarrow> cc_observer f1 \<Longrightarrow> cc_check_status f2 \<noteq> ECheckInit"
      "cc_check_status f2 = ECheckOK \<Longrightarrow> cc_check_status f1 = ECheckOK \<or> (\<exists>b. io_verify_recv io b)"
      using parts(2) rw_recv_check[of ae mem_ok io f1 f2 evs2] by auto
    have 3: "cc_observer f' = cc_observer f2" "cc_check_status f' = cc_check_status f2" using parts(3) by auto
    show ?thesis using 1 2 3 parts(4) by auto
  qed
  then show "cc_observer f' = cc_observer f"
    "received_bytes evs \<noteq> [] \<Longrightarrow> cc_observer f \<Longrightarrow> cc_check_status f' \<noteq> ECheckInit"
    "cc_check_status f' = ECheckOK \<Longrightarrow> cc_check_status f = ECheckOK \<or> (\<exists>b. io_verify_recv io b)" by blast+
qed

lemma AfterSelect_check:
  assumes "fsm_AfterSelect sk ae mem_ok check_virtuals io sel f = Inr (f', evs)"
  shows "cc_observer f' = cc_observer f"
    "received_bytes evs \<noteq> [] \<Longrightarrow> cc_observer f \<Longrightarrow> cc_check_status f' \<noteq> ECheckInit"
    "cc_check_status f' = ECheckOK \<Longrightarrow> cc_check_status f = ECheckOK \<or> (\<exists>b. io_verify_recv io b)"
  using assms AfterReadWriteSelect_check[of sk ae mem_ok io sel f]
  by (auto simp: fsm_AfterSelect_def AfterConnectSelect_def Let_def bindE_eq_Inr ASSERT_eq_Inr check_cb_status
      check_OnConnected_def observe_def case_prod_beta split: if_splits TSocketStatus.splits)

lemma conn_PreSelect:
  assumes "conn_ok f" and "fsm_status f \<noteq> EEnd" and "verify_send_ok io"
  shows "\<exists>f' sel' evs. fsm_PreSelect sk check_virtuals io sel f = Inr (f', sel', evs) \<and> conn_ok f'
    \<and> fsm_status f' \<noteq> EStart \<and> balanced f evs f' \<and> cc_check_status f' = cc_check_status f
    \<and> (fsm_status f \<noteq> EStart \<longrightarrow> f' = f \<and> evs = [])"
proof -
  obtain f' sel' evs where r: "fsm_PreSelect sk check_virtuals io sel f = Inr (f', sel', evs)" "fsm_ok f'"
      "fsm_status f \<le> fsm_status f'" "fsm_status f' \<noteq> EStart" "balanced f evs f'"
    using chk.PreSelect_ok[OF assms(3) _ assms(2)] assms(1) unfolding conn_ok_def by metis
  have c: "cc_check_status f' = cc_check_status f" "cc_observer f' = cc_observer f" "fsm_recv_buf f' = fsm_recv_buf f"
    using PreSelect_check[OF r(1)] chk.PreSelect_recv[OF r(1)] by simp_all
  have same: "fsm_status f \<noteq> EStart \<Longrightarrow> f' = f \<and> evs = []"
    using r(1) assms(2) by (cases "fsm_status f") (auto simp: fsm_PreSelect_def bindE_eq_Inr)
  have rw: "fsm_status f' = EReadWrite \<Longrightarrow> fsm_status f = EReadWrite"
  proof (cases "fsm_status f = EStart")
    case True
    then have "fsm_status f' \<in> {EConnecting, EEnd}"
      using chk.PreConnectSelect_ok[OF assms(3) _ True, of sk sel] assms(1) r(1)
      by (auto simp: fsm_PreSelect_def conn_ok_def)
    then show "fsm_status f' = EReadWrite \<Longrightarrow> fsm_status f = EReadWrite" by auto
  qed (use same in simp)
  have "conn_ok f'" using assms(1) r(2) c rw by (simp add: conn_ok_def)
  with r c same show ?thesis by blast
qed

lemma conn_AfterSelect:
  assumes "conn_ok f" and "io_fine io" and "\<forall>n. mem_ok n"
  shows "\<exists>f' evs. fsm_AfterSelect sk ae mem_ok check_virtuals io sel f = Inr (f', evs) \<and> fsm_ok f'
    \<and> fsm_status f \<le> fsm_status f' \<and> balanced f evs f'
    \<and> (fsm_status f' \<noteq> EEnd \<longrightarrow> cc_check_status f' = ECheckInit \<or> fsm_status f' \<noteq> EReadWrite \<longrightarrow> conn_ok f')
    \<and> (cc_check_status f' = ECheckOK \<longrightarrow> cc_check_status f = ECheckOK \<or> (\<exists>b. io_verify_recv io b))"
proof -
  have ok: "fsm_ok f" "verify_send_ok io" "io_send io < 4611686018427387904"
    using assms(1,2) by (simp_all add: conn_ok_def io_fine_def)
  obtain f' evs where r: "fsm_AfterSelect sk ae mem_ok check_virtuals io sel f = Inr (f', evs)" "fsm_ok f'"
      "fsm_status f \<le> fsm_status f'" "balanced f evs f'"
      "if fsm_status f = EReadWrite then chk.streams f evs f' \<and> recv_grown (fsm_recv_buf f) (fsm_recv_buf f')
       else evs = [] \<and> fsm_recv_buf f' = fsm_recv_buf f"
    using chk.AfterSelect_ok[OF ok(2,1,3) conn_recv_fits[OF assms], of sk ae sel] by metis
  note c = AfterSelect_check[OF r(1)]
  have cap: "ab_unitsize (fsm_recv_buf f') = 128 \<and> ab_capacity (fsm_recv_buf f') \<in> {0, 16 * 1024}"
    using r(5) assms(1) conn_recv_limit[OF assms(1)]
    by (auto simp: conn_ok_def chk.streams_def recv_grown_def split: if_splits)
  have "conn_ok f'" if "fsm_status f' \<noteq> EEnd" and pend: "cc_check_status f' = ECheckInit \<or> fsm_status f' \<noteq> EReadWrite"
  proof (cases "fsm_status f = EReadWrite")
    case True
    then have st: "fsm_status f' = EReadWrite" "cc_observer f"
      using r(3) that(1) assms(1) by (cases "fsm_status f'"; simp add: status_order conn_ok_def)+
    then have init: "cc_check_status f' = ECheckInit" using pend by simp
    then have "received_bytes evs = []" using c(2) st(2) by blast
    then have "ab_contents (fsm_recv_buf f') = ab_contents (fsm_recv_buf f)" using r(5) True by (simp add: chk.streams_def)
    then have "ab_length (fsm_recv_buf f') = 0"
      using ab_inv_sizes(5)[of "fsm_recv_buf f"] ab_inv_sizes(5)[of "fsm_recv_buf f'"] ok(1) r(2) assms(1)
      by (simp add: fsm_ok_def bufs_ok_def conn_ok_def)
    then show ?thesis using r(2) cap init c(1) st by (simp add: conn_ok_def)
  next
    case False
    then have b: "fsm_recv_buf f' = fsm_recv_buf f" using r(5) by simp
    have "cc_check_status f' = ECheckInit \<Longrightarrow> cc_check_status f = ECheckInit"
      using r(1) False OnConnected_status[of io]
      by (auto simp: fsm_AfterSelect_def AfterConnectSelect_def Let_def bindE_eq_Inr ASSERT_eq_Inr check_cb_status
          check_OnConnected_def observe_def case_prod_beta split: if_splits TSocketStatus.splits)
    then show ?thesis using r(2) cap b c(1) pend assms(1) by (auto simp: conn_ok_def)
  qed
  with r c(3) show ?thesis by blast
qed

lemma dispose_ok:
  assumes "fsm_ok f" and "verify_send_ok io"
  shows "\<exists>evs. dispose sk io f = Inr evs \<and> held f + opened evs = closed evs \<and> opened evs = {#}"
proof -
  obtain f' evs where r: "fsm_Close check_virtuals io True f = (f', evs)" "fsm_sock f' = -1" "balanced f evs f'"
    using chk.Close_ok[OF assms(2,1), of True] by blast
  have "opened evs = {#}" using r(1) by (auto simp: fsm_Close_def Let_def split: if_splits)
  with r show ?thesis by (simp add: dispose_def TcpClientFSM_delete_def fsm_Close_def balanced_def held_def)
qed

lemma delete_plain: "TcpClientFSM_delete sk check_virtuals io (Socket_set (-1) f) = Inr []"
  by (simp add: TcpClientFSM_delete_def fsm_Close_def Socket_set_def)

text \<open>Environment of a round.\<close>

definition round_fine :: "round_io \<Rightarrow> bool" where
  "round_fine r \<longleftrightarrow> (\<forall>i. verify_send_ok (r_pre r i) \<and> io_fine (r_after r i) \<and> verify_send_ok (r_close r i))"

definition verdict_ok :: "ConnectCheckFSM \<Rightarrow> check_io \<Rightarrow> verdict \<Rightarrow> sys_event list \<Rightarrow> bool" where
  "verdict_ok f io v evs \<longleftrightarrow>
     (case v of
        Dropped \<Rightarrow> held f + opened evs = closed evs
      | Won sock rtt cost \<Rightarrow> sock \<noteq> -1 \<and> held f + opened evs = {#sock#} + closed evs
          \<and> (cc_check_status f = ECheckOK \<or> (\<exists>b. io_verify_recv io b))
      | Kept f' \<Rightarrow> conn_ok f' \<and> fsm_status f' \<in> {EConnecting, EReadWrite} \<and> held f + opened evs = held f' + closed evs
          \<and> fsm_sock f \<noteq> -1
          \<and> (cc_check_status f' = ECheckOK \<longrightarrow> cc_check_status f = ECheckOK \<or> (\<exists>b. io_verify_recv io b)))"

lemma after_one_ok:
  assumes "conn_ok f" and "fsm_status f \<noteq> EStart" and "round_fine r" and "\<forall>n. mem_ok n"
  shows "\<exists>v evs calls. after_one sk ae mem_ok starttime r i sel f = Inr (v, evs, calls) \<and> verdict_ok f (r_after r i) v evs"
proof -
  have io: "io_fine (r_after r i)" "verify_send_ok (r_close r i)" using assms(3) by (simp_all add: round_fine_def)
  obtain f' evs where r: "fsm_AfterSelect sk ae mem_ok check_virtuals (r_after r i) sel f = Inr (f', evs)" "fsm_ok f'"
      "fsm_status f \<le> fsm_status f'" "balanced f evs f'"
      "fsm_status f' \<noteq> EEnd \<longrightarrow> cc_check_status f' = ECheckInit \<or> fsm_status f' \<noteq> EReadWrite \<longrightarrow> conn_ok f'"
      "cc_check_status f' = ECheckOK \<longrightarrow> cc_check_status f = ECheckOK \<or> (\<exists>b. io_verify_recv (r_after r i) b)"
    using conn_AfterSelect[OF assms(1) io(1) assms(4), of sk ae sel] by blast
  obtain evs2 where d: "dispose sk (r_close r i) f' = Inr evs2" "held f' + opened evs2 = closed evs2" "opened evs2 = {#}"
    using dispose_ok[OF r(2) io(2), of sk] by blast
  have start: "fsm_status f' \<noteq> EStart" using r(3) assms(2) by (cases "fsm_status f") (auto simp: status_order)
  have drop: "held f + opened (evs @ evs2) = closed (evs @ evs2)"
    using r(4) d(2,3) by (simp add: balanced_def add.commute)
  have sock: "fsm_status f' \<noteq> EEnd \<Longrightarrow> fsm_sock f \<noteq> -1 \<and> fsm_sock f' \<noteq> -1"
    using r(2,3) assms(1,2) start
    by (cases "fsm_status f"; cases "fsm_status f'") (auto simp: conn_ok_def fsm_ok_cases status_order)
  consider (drop) "EEnd = fsm_status f' \<or> EReadWrite = fsm_status f' \<and> ECheckFail = cc_check_status f'"
    | (won) "EReadWrite = fsm_status f'" "ECheckOK = cc_check_status f'"
    | (kept) "fsm_status f' \<noteq> EEnd" "fsm_status f' = EReadWrite \<Longrightarrow> cc_check_status f' = ECheckInit"
    by (metis TCheckStatus.exhaust)
  then show ?thesis
  proof cases
    case drop
    then have "\<exists>calls. after_one sk ae mem_ok starttime r i sel f = Inr (Dropped, evs @ evs2, calls)"
      using r(1) d(1) by (auto simp: after_one_def)
    with \<open>held f + _ = _\<close> show ?thesis by (auto simp: verdict_ok_def)
  next
    case won
    then have "\<exists>rtt cost calls. after_one sk ae mem_ok starttime r i sel f = Inr (Won (fsm_sock f') rtt cost, evs @ [], calls)"
      using r(1) delete_plain by (simp add: after_one_def)
    moreover have "held f' = {#fsm_sock f'#}" "fsm_sock f' \<noteq> -1" using sock won(1) by (auto simp: held_def)
    ultimately show ?thesis using r(4,6) won(2) by (auto simp: verdict_ok_def balanced_def)
  next
    case kept
    have st: "fsm_status f' \<in> {EConnecting, EReadWrite}" using start kept(1) by (cases "fsm_status f'") auto
    have "after_one sk ae mem_ok starttime r i sel f = Inr (Kept f', evs, [])"
      using r(1) kept by (auto simp: after_one_def)
    moreover have "conn_ok f'" using r(5) kept by blast
    ultimately show ?thesis using r(4,6) st sock[OF kept(1)] by (auto simp: verdict_ok_def balanced_def)
  qed
qed

section \<open>The race\<close>

definition held_all :: "ConnectCheckFSM option list \<Rightarrow> int multiset" where
  "held_all fs = sum_list (map (\<lambda>x. case x of None \<Rightarrow> {#} | Some f \<Rightarrow> held f) fs)"

lemma held_all_simps [simp]:
  "held_all [] = {#}" "held_all (None # fs) = held_all fs" "held_all (Some f # fs) = held f + held_all fs"
  "held_all (xs @ ys) = held_all xs + held_all ys"
  by (simp_all add: held_all_def)

lemma running_count: "length (filter isconnecting fs) = size (held_all fs)"
  by (induction fs) (auto simp: held_all_def held_def isconnecting_def split: option.splits)

definition runners :: "ConnectCheckFSM option list \<Rightarrow> bool" where
  "runners fs \<longleftrightarrow> (\<forall>f. Some f \<in> set fs \<longrightarrow> conn_ok f \<and> fsm_status f \<in> {EConnecting, EReadWrite})"

definition fresh :: "ConnectCheckFSM option list \<Rightarrow> bool" where
  "fresh fs \<longleftrightarrow> (\<forall>x\<in>set fs. \<exists>f. x = Some f \<and> conn_ok f \<and> fsm_status f = EStart)"

lemma fresh_held: "fresh fs \<Longrightarrow> held_all fs = {#}"
  by (induction fs) (auto simp: fresh_def held_def conn_ok_def fsm_ok_cases)

text \<open>\<open>P i\<close>: connection \<open>i\<close> needs no verification or has passed it.\<close>

definition vouched :: "(nat \<Rightarrow> bool) \<Rightarrow> nat \<Rightarrow> ConnectCheckFSM option list \<Rightarrow> bool" where
  "vouched P i fs \<longleftrightarrow> (\<forall>k<length fs. \<forall>f. fs ! k = Some f \<longrightarrow> cc_check_status f = ECheckOK \<longrightarrow> P (i + k))"

lemma vouched_Nil [simp]: "vouched P i []"
  by (simp add: vouched_def)

lemma vouched_Cons [simp]:
  "vouched P i (x # fs) \<longleftrightarrow> (\<forall>f. x = Some f \<longrightarrow> cc_check_status f = ECheckOK \<longrightarrow> P i) \<and> vouched P (Suc i) fs"
  by (auto simp: vouched_def nth_Cons less_Suc_eq_0_disj split: nat.splits)

text \<open>\<open>PreSelect\<close> of all connections.\<close>

definition pre_rel :: "ConnectCheckFSM option \<Rightarrow> ConnectCheckFSM option \<Rightarrow> bool" where
  "pre_rel x x' \<longleftrightarrow> (case x of None \<Rightarrow> x' = None
     | Some f \<Rightarrow> \<exists>f'. x' = Some f' \<and> conn_ok f' \<and> fsm_status f' \<noteq> EStart \<and> cc_check_status f' = cc_check_status f
         \<and> (fsm_status f \<noteq> EStart \<longrightarrow> f' = f))"

lemma PreSelect_sel:
  "fsm_PreSelect sk V io sel f = Inr (f', sel', evs) \<Longrightarrow> ss_vfds sel \<noteq> [] \<Longrightarrow> ss_vfds sel' \<noteq> []"
  by (auto simp: fsm_PreSelect_def PreConnectSelect_def start_connect_def PreReadWriteSelect_def Let_def bindE_eq_Inr
      ASSERT_eq_Inr Read_FD_SET_def Write_FD_SET_def Exception_FD_SET_def split: TSocketStatus.splits if_splits)

lemma pre_all_ok:
  assumes "\<forall>f. Some f \<in> set fs \<longrightarrow> conn_ok f \<and> fsm_status f \<noteq> EEnd" and "round_fine r" and "ss_vfds sel \<noteq> []"
  shows "\<exists>fs' sel' t' evs. pre_all sk r i fs sel t = Inr (fs', sel', t', evs) \<and> list_all2 pre_rel fs fs'
    \<and> held_all fs + opened evs = held_all fs' + closed evs \<and> ss_vfds sel' \<noteq> []"
  using assms(1,3)
proof (induction fs arbitrary: i sel t)
  case Nil
  then show ?case by simp
next
  case (Cons x fs)
  show ?case
  proof (cases x)
    case None
    have "\<forall>f. Some f \<in> set fs \<longrightarrow> conn_ok f \<and> fsm_status f \<noteq> EEnd" using Cons.prems by simp
    from Cons.IH[OF this Cons.prems(2), of "Suc i" t] obtain fs' sel' t' evs where
      "pre_all sk r (Suc i) fs sel t = Inr (fs', sel', t', evs)" "list_all2 pre_rel fs fs'"
      "held_all fs + opened evs = held_all fs' + closed evs" "ss_vfds sel' \<noteq> []" by blast
    moreover have "pre_rel None None" by (simp add: pre_rel_def)
    ultimately show ?thesis by (simp add: None)
  next
    case (Some f)
    have v: "verify_send_ok (r_pre r i)" using assms(2) by (simp add: round_fine_def)
    have f: "conn_ok f" "fsm_status f \<noteq> EEnd" using Cons.prems(1) Some by auto
    from conn_PreSelect[OF f v, of sk sel] obtain f' sel1 evs1 where
      r: "fsm_PreSelect sk check_virtuals (r_pre r i) sel f = Inr (f', sel1, evs1)" "conn_ok f'" "fsm_status f' \<noteq> EStart"
        "balanced f evs1 f'" "cc_check_status f' = cc_check_status f" "fsm_status f \<noteq> EStart \<longrightarrow> f' = f" by blast
    have "\<forall>f. Some f \<in> set fs \<longrightarrow> conn_ok f \<and> fsm_status f \<noteq> EEnd" using Cons.prems by simp
    from Cons.IH[OF this PreSelect_sel[OF r(1) Cons.prems(2)], of "Suc i"]
    obtain fs' sel' t' evs2 where
      "pre_all sk r (Suc i) fs sel1 (min t (fsm_Timeout check_virtuals (r_timeout r i) f')) = Inr (fs', sel', t', evs2)"
      "list_all2 pre_rel fs fs'" "held_all fs + opened evs2 = held_all fs' + closed evs2" "ss_vfds sel' \<noteq> []" by blast
    moreover from this(3) r(4) have "held_all (Some f # fs) + opened (evs1 @ evs2) = held_all (Some f' # fs') + closed (evs1 @ evs2)"
      by (simp add: balanced_def) (metis union_assoc union_commute)
    moreover have "pre_rel (Some f) (Some f')" using r by (simp add: pre_rel_def)
    ultimately show ?thesis using r(1) by (simp add: Some)
  qed
qed

text \<open>\<open>AfterSelect\<close> of all connections, up to the first that wins.\<close>

definition won_held :: "(nat \<times> int \<times> int \<times> int) option \<Rightarrow> int multiset" where
  "won_held won = (case won of None \<Rightarrow> {#} | Some (j, sock, rtt, cost) \<Rightarrow> {#sock#})"

definition after_ok ::
  "(nat \<Rightarrow> bool) \<Rightarrow> nat \<Rightarrow> nat \<Rightarrow> ConnectCheckFSM option list \<Rightarrow> ConnectCheckFSM option list
    \<Rightarrow> (nat \<times> int \<times> int \<times> int) option \<Rightarrow> sys_event list \<Rightarrow> bool" where
  "after_ok P i n fs fs' won evs \<longleftrightarrow>
     length fs' = length fs \<and> drop n fs' = drop n fs
     \<and> held_all fs + opened evs = won_held won + held_all fs' + closed evs
     \<and> size (held_all fs') \<le> size (held_all fs) \<and> (\<forall>f. Some f \<in> set (take n fs') \<longrightarrow> conn_ok f)
     \<and> (won = None \<longrightarrow> runners (take n fs') \<and> vouched P i fs')
     \<and> (\<forall>j sock rtt cost. won = Some (j, sock, rtt, cost) \<longrightarrow> sock \<noteq> -1 \<and> i \<le> j \<and> j < i + length fs \<and> P j)"

lemma ledger_add:
  "a + o1 = w1 + c1 \<Longrightarrow> b + o2 = w2 + c2 \<Longrightarrow> (a + b) + (o1 + o2) = (w1 + w2) + (c1 + c2)"
  for a b :: "'x multiset"
  by (metis (no_types, lifting) union_assoc union_commute)

lemma after_ok_Cons:
  assumes "after_ok P (Suc i) n gs gs' won evs"
    and "held_all [x] + opened evs1 = held_all [x'] + closed evs1" and "size (held_all [x']) \<le> size (held_all [x])"
    and "\<forall>f. x' = Some f \<longrightarrow> conn_ok f \<and> fsm_status f \<in> {EConnecting, EReadWrite} \<and> (cc_check_status f = ECheckOK \<longrightarrow> P i)"
  shows "after_ok P i (Suc n) (x # gs) (x' # gs') won (evs1 @ evs)"
proof -
  have c: "held_all (y # ys) = held_all [y] + held_all ys" for y ys by (cases y) simp_all
  have "held_all (x # gs) + opened (evs1 @ evs) = won_held won + held_all (x' # gs') + closed (evs1 @ evs)"
    using ledger_add[OF assms(2), of "held_all gs" "opened evs" "won_held won + held_all gs'" "closed evs"] assms(1)
    unfolding c[of x gs] c[of x' gs'] by (simp add: after_ok_def ac_simps)
  moreover have "size (held_all (x' # gs')) \<le> size (held_all (x # gs))"
    using assms(1,3) unfolding c[of x gs] c[of x' gs'] by (simp add: after_ok_def)
  ultimately show ?thesis using assms(1,4) by (auto simp: after_ok_def runners_def)
qed

lemma after_ok_Won:
  assumes "held f + opened evs1 = {#sock#} + closed evs1" and "sock \<noteq> -1" and "P i"
    and "\<forall>f. Some f \<in> set (take n gs) \<longrightarrow> conn_ok f"
  shows "after_ok P i (Suc n) (Some f # gs) (None # gs) (Some (i, sock, rtt, cost)) evs1"
  using assms by (auto simp: after_ok_def won_held_def)

lemma after_all_ok:
  assumes "\<forall>f. Some f \<in> set (take n fs) \<longrightarrow> conn_ok f \<and> fsm_status f \<noteq> EStart" and "round_fine r" and "\<forall>n. mem_ok n"
    and "vouched P i fs" and "\<forall>j b. io_verify_recv (r_after r j) b \<longrightarrow> P j"
  shows "\<exists>fs' le' won evs calls. after_all sk ae mem_ok st r i n sel fs le = Inr (fs', le', won, evs, calls)
    \<and> after_ok P i n fs fs' won evs"
  using assms(1,4)
proof (induction n arbitrary: i fs le)
  case 0
  then show ?case by (simp add: after_ok_def won_held_def runners_def)
next
  case (Suc n)
  show ?case
  proof (cases fs)
    case Nil
    then show ?thesis by (simp add: after_ok_def won_held_def runners_def)
  next
    case (Cons x gs)
    have IH: "\<exists>gs' le' won evs calls. after_all sk ae mem_ok st r (Suc i) n sel gs le = Inr (gs', le', won, evs, calls)
        \<and> after_ok P (Suc i) n gs gs' won evs" for le
      by (rule Suc.IH) (use Suc.prems Cons in auto)
    show ?thesis
    proof (cases x)
      case None
      from IH[of le] obtain gs' le' won evs calls where
        a: "after_all sk ae mem_ok st r (Suc i) n sel gs le = Inr (gs', le', won, evs, calls)"
        "after_ok P (Suc i) n gs gs' won evs" by blast
      with after_ok_Cons[OF a(2), of None "[]" None] show ?thesis by (simp add: Cons None)
    next
      case (Some f)
      have f: "conn_ok f" "fsm_status f \<noteq> EStart" using Suc.prems(1) Cons Some by auto
      obtain v evs1 calls1 where v: "after_one sk ae mem_ok st r i sel f = Inr (v, evs1, calls1)"
          "verdict_ok f (r_after r i) v evs1"
        using after_one_ok[OF f assms(2,3)] by blast
      have P: "cc_check_status f = ECheckOK \<or> (\<exists>b. io_verify_recv (r_after r i) b) \<Longrightarrow> P i"
        using Suc.prems(2) assms(5) Cons Some by auto
      show ?thesis
      proof (cases v)
        case Dropped
        from IH[of "-1"] obtain gs' le' won evs calls where
          a: "after_all sk ae mem_ok st r (Suc i) n sel gs (-1) = Inr (gs', le', won, evs, calls)"
          "after_ok P (Suc i) n gs gs' won evs" by blast
        with v after_ok_Cons[OF a(2), of "Some f" evs1 None] show ?thesis
          by (simp add: Cons Some Dropped verdict_ok_def)
      next
        case (Won sock rtt cost)
        with v(2) P have w: "held f + opened evs1 = {#sock#} + closed evs1" "sock \<noteq> -1" "P i"
          by (auto simp: verdict_ok_def)
        have "\<forall>f. Some f \<in> set (take n gs) \<longrightarrow> conn_ok f" using Suc.prems(1) Cons by auto
        with w v(1) after_ok_Won[where P = P and i = i and gs = gs and n = n, of f evs1 sock rtt cost]
        show ?thesis by (simp add: Cons Some Won)
      next
        case (Kept f')
        from IH[of le] obtain gs' le' won evs calls where
          a: "after_all sk ae mem_ok st r (Suc i) n sel gs le = Inr (gs', le', won, evs, calls)"
          "after_ok P (Suc i) n gs gs' won evs" by blast
        have k: "conn_ok f'" "fsm_status f' \<in> {EConnecting, EReadWrite}" "held f + opened evs1 = held f' + closed evs1"
          "fsm_sock f \<noteq> -1" "cc_check_status f' = ECheckOK \<Longrightarrow> P i"
          using v(2) P unfolding verdict_ok_def Kept by auto
        have "size (held f') \<le> size (held f)" using k(4) by (simp add: held_def)
        with v(1) a(1) k after_ok_Cons[OF a(2), of "Some f" evs1 "Some f'"] show ?thesis
          by (simp add: Cons Some Kept)
      qed
    qed
  qed
qed

text \<open>The loop invariant, and what holds when the loop is left.\<close>

definition tc_inv :: "(nat \<Rightarrow> bool) \<Rightarrow> tc_state \<Rightarrow> bool" where
  "tc_inv P s \<longleftrightarrow> tc_index s \<le> length (tc_vec s) \<and> runners (take (tc_index s) (tc_vec s)) \<and> fresh (drop (tc_index s) (tc_vec s))
     \<and> tc_retsocket s = -1 \<and> opened (tc_evs s) = held_all (tc_vec s) + closed (tc_evs s) \<and> vouched P 0 (tc_vec s)
     \<and> size (held_all (tc_vec s)) \<le> unat (mc_max_connect (tc_mc s)) \<and> mc_trycount (tc_mc s) = tc_index s"

definition tc_left :: "(nat \<Rightarrow> bool) \<Rightarrow> tc_state \<Rightarrow> bool" where
  "tc_left P s \<longleftrightarrow> (\<forall>f. Some f \<in> set (tc_vec s) \<longrightarrow> fsm_ok f)
     \<and> opened (tc_evs s) = (if tc_retsocket s = -1 then {#} else {#tc_retsocket s#}) + held_all (tc_vec s) + closed (tc_evs s)
     \<and> (tc_retsocket s \<noteq> -1 \<longrightarrow> (\<exists>j < length (tc_vec s). mc_index (tc_mc s) = int j \<and> P j))"

text \<open>Starting at most one connection keeps the count within \<open>max_connect_\<close>.\<close>

lemma tc_start_ok:
  assumes "tc_inv P s" and "tc_start r s = (timeout, s')"
  shows "tc_vec s' = tc_vec s \<and> tc_index s' \<le> length (tc_vec s) \<and> tc_evs s' = tc_evs s \<and> tc_retsocket s' = -1
    \<and> mc_max_connect (tc_mc s') = mc_max_connect (tc_mc s) \<and> mc_trycount (tc_mc s') = tc_index s'
    \<and> (tc_index s' = tc_index s \<or> tc_index s' = Suc (tc_index s) \<and> size (held_all (tc_vec s)) < unat (mc_max_connect (tc_mc s)))"
  using assms by (auto simp: tc_start_def Let_def tc_inv_def running_count split: if_splits)

lemma list_all2_pre_rel:
  assumes "list_all2 pre_rel fs fs'"
  shows "length fs' = length fs" "\<forall>f. Some f \<in> set fs' \<longrightarrow> conn_ok f \<and> fsm_status f \<noteq> EStart"
    "vouched P i fs \<Longrightarrow> vouched P i fs'" "runners fs \<Longrightarrow> fs' = fs"
  using assms
  by (induction fs fs' arbitrary: i rule: list_all2_induct)
    (auto simp: pre_rel_def runners_def split: option.splits)

lemma vouched_append: "vouched P i (xs @ ys) \<longleftrightarrow> vouched P i xs \<and> vouched P (i + length xs) ys"
  by (induction xs arbitrary: i) simp_all

lemma held_size_le: "list_all2 pre_rel fs fs' \<Longrightarrow> size (held_all fs') \<le> length fs'"
  by (induction fs fs' rule: list_all2_induct) (auto simp: pre_rel_def held_def split: option.splits)

lemma tc_prepare_ok:
  assumes "tc_inv P s" and "round_fine r"
  shows "\<exists>s' sel t. tc_prepare sk b r s = Inr (s', sel, t) \<and> ss_vfds sel \<noteq> [] \<and> tc_retsocket s' = -1
    \<and> length (tc_vec s') = length (tc_vec s) \<and> tc_index s' \<le> length (tc_vec s')
    \<and> (\<forall>f. Some f \<in> set (take (tc_index s') (tc_vec s')) \<longrightarrow> conn_ok f \<and> fsm_status f \<noteq> EStart)
    \<and> fresh (drop (tc_index s') (tc_vec s')) \<and> opened (tc_evs s') = held_all (tc_vec s') + closed (tc_evs s')
    \<and> vouched P 0 (tc_vec s') \<and> size (held_all (tc_vec s')) \<le> unat (mc_max_connect (tc_mc s'))
    \<and> mc_max_connect (tc_mc s') = mc_max_connect (tc_mc s) \<and> mc_trycount (tc_mc s') = tc_index s'"
proof -
  obtain timeout s1 where st: "tc_start r s = (timeout, s1)" by (cases "tc_start r s")
  note s1 = tc_start_ok[OF assms(1) st]
  let ?v = "tc_vec s"
  have inv: "runners (take (tc_index s) ?v)" "fresh (drop (tc_index s) ?v)" "opened (tc_evs s) = held_all ?v + closed (tc_evs s)"
    "vouched P 0 ?v" "size (held_all ?v) \<le> unat (mc_max_connect (tc_mc s))"
    using assms(1) by (simp_all add: tc_inv_def)
  define xs where "xs = take (tc_index s1) ?v"
  define ys where "ys = drop (tc_index s1) ?v"
  have split: "?v = xs @ ys" by (simp add: xs_def ys_def)
  have len: "length xs = tc_index s1" using s1 by (simp add: xs_def)
  have pre: "xs = take (tc_index s) ?v \<or> (\<exists>x. xs = take (tc_index s) ?v @ [x] \<and> fresh [x])
      \<and> size (held_all ?v) < unat (mc_max_connect (tc_mc s))"
  proof (cases "tc_index s1 = tc_index s")
    case False
    then have i: "tc_index s1 = Suc (tc_index s)" "tc_index s < length ?v" "size (held_all ?v) < unat (mc_max_connect (tc_mc s))"
      using s1 by auto
    then have "?v ! tc_index s \<in> set (drop (tc_index s) ?v)" by (metis Cons_nth_drop_Suc list.set_intros(1))
    then have "fresh [?v ! tc_index s]" using inv(2) by (simp add: fresh_def)
    then show ?thesis using i by (auto simp: xs_def take_Suc_conv_app_nth)
  qed (simp add: xs_def)
  have "set ys \<subseteq> set (drop (tc_index s) ?v)"
    using s1 set_drop_subset_set_drop[of "tc_index s" "tc_index s1" ?v] by (auto simp: ys_def)
  then have fresh: "fresh ys" using inv(2) by (auto simp: fresh_def)
  have xs: "\<forall>f. Some f \<in> set xs \<longrightarrow> conn_ok f \<and> fsm_status f \<noteq> EEnd"
    using pre inv(1) by (fastforce simp: runners_def fresh_def)
  define sel0 where "sel0 = PreSelect b (SocketSelect_new False)"
  have "ss_vfds sel0 \<noteq> []" by (simp add: sel0_def PreSelect_def)
  from pre_all_ok[OF xs assms(2) this, of sk 0 timeout] obtain fs' sel' t' evs where
    p: "pre_all sk r 0 xs sel0 timeout = Inr (fs', sel', t', evs)" "list_all2 pre_rel xs fs'"
      "held_all xs + opened evs = held_all fs' + closed evs" "ss_vfds sel' \<noteq> []" by blast
  define s' where "s' = s1\<lparr>tc_vec := fs' @ ys, tc_evs := tc_evs s1 @ evs\<rparr>"
  have run: "tc_prepare sk b r s = Inr (s', sel', t')"
    using p(1) s1 by (simp add: tc_prepare_def st s'_def xs_def ys_def sel0_def)
  note l = list_all2_pre_rel[OF p(2)]
  have hv: "held_all ?v = held_all xs + held_all ys" unfolding split by simp
  have bound: "size (held_all (fs' @ ys)) \<le> unat (mc_max_connect (tc_mc s))"
  proof (cases "xs = take (tc_index s) ?v")
    case True
    then have "fs' = xs" using l(4) inv(1) by simp
    then show ?thesis using inv(5) hv by simp
  next
    case False
    then obtain x where x: "xs = take (tc_index s) ?v @ [x]" "size (held_all ?v) < unat (mc_max_connect (tc_mc s))"
      using pre by blast
    then obtain as z where fs': "fs' = as @ z" "list_all2 pre_rel (take (tc_index s) ?v) as" "list_all2 pre_rel [x] z"
      using p(2) by (auto simp: list_all2_append1)
    have "as = take (tc_index s) ?v" using list_all2_pre_rel(4)[OF fs'(2)] inv(1) by simp
    moreover have "size (held_all z) \<le> 1" using held_size_le[OF fs'(3)] fs'(3) by (auto simp: list_all2_Cons1)
    ultimately show ?thesis using x hv fs'(1) fresh_held[OF fresh] by simp
  qed
  have "opened (tc_evs s') = held_all (tc_vec s') + closed (tc_evs s')"
    using inv(3) p(3) s1 unfolding split s'_def by simp
  then show ?thesis
    using run p(4) s1 l bound fresh inv(4) len
    unfolding split by (simp add: s'_def vouched_append)
qed

lemma Select_round:
  assumes "ss_vfds sel \<noteq> []"
  shows "\<exists>ret sel'. (if INT_MAX = t then Select_forever poll rd b sel else Select poll rd (max 0 t) b sel)
    = Inr (ret, if ss_autoclear sel then snd (Clear rd b) else b, sel')"
  using assms by (simp add: Select_def Select_forever_def Let_def case_prod_beta)

lemma conn_fsm_ok: "conn_ok f \<Longrightarrow> fsm_ok f"
  by (simp add: conn_ok_def)

lemma fresh_fsm_ok: "fresh fs \<Longrightarrow> Some f \<in> set fs \<Longrightarrow> fsm_ok f"
  by (auto simp: fresh_def conn_ok_def)

lemma tc_round_ok:
  assumes "tc_inv P s" and "round_fine r" and "\<forall>n. mem_ok n" and "\<forall>j b. io_verify_recv (r_after r j) b \<longrightarrow> P j"
  shows "\<exists>left s'. tc_round sk ae mem_ok b st r s = Inr (left, s')
    \<and> (if left then tc_left P s' else tc_inv P s') \<and> length (tc_vec s') = length (tc_vec s)"
proof -
  obtain s1 sel t where p: "tc_prepare sk b r s = Inr (s1, sel, t)" "ss_vfds sel \<noteq> []" "tc_retsocket s1 = -1"
      "length (tc_vec s1) = length (tc_vec s)" "tc_index s1 \<le> length (tc_vec s1)"
      "\<forall>f. Some f \<in> set (take (tc_index s1) (tc_vec s1)) \<longrightarrow> conn_ok f \<and> fsm_status f \<noteq> EStart"
      "fresh (drop (tc_index s1) (tc_vec s1))" "opened (tc_evs s1) = held_all (tc_vec s1) + closed (tc_evs s1)"
      "vouched P 0 (tc_vec s1)" "size (held_all (tc_vec s1)) \<le> unat (mc_max_connect (tc_mc s1))"
      "mc_trycount (tc_mc s1) = tc_index s1"
    using tc_prepare_ok[OF assms(1,2), of sk b] by blast
  obtain ret b' sel' where sel: "(if INT_MAX = t then Select_forever (r_poll r) 0 b sel else Select (r_poll r) 0 (max 0 t) b sel)
      = Inr (ret, b', sel')"
    using Select_round[OF p(2)] by metis
  have "Some f \<in> set (tc_vec s1) \<Longrightarrow> fsm_ok f" for f
    using p(6) fresh_fsm_ok[OF p(7)] conn_fsm_ok by (metis Un_iff append_take_drop_id set_append)
  then have out: "tc_left P s1" using p(3,8) by (simp add: tc_left_def)
  show ?thesis
  proof (cases "ret < 0 \<or> IsException b' sel' \<or> IsBreak b' sel'")
    case True
    then have "tc_round sk ae mem_ok b st r s = Inr (True, s1)" using p(1) sel by (auto simp: tc_round_def)
    then show ?thesis using out p(4) by auto
  next
    case False
    obtain vec le won evs calls where a: "after_all sk ae mem_ok st r 0 (tc_index s1) sel' (tc_vec s1) (tc_lasterror s1)
        = Inr (vec, le, won, evs, calls)" "after_ok P 0 (tc_index s1) (tc_vec s1) vec won evs"
      using after_all_ok[OF p(6) assms(2,3) p(9) assms(4)] by metis
    define s2 where "s2 = s1\<lparr>tc_vec := vec, tc_lasterror := le, tc_evs := tc_evs s1 @ evs, tc_calls := tc_calls s1 @ calls\<rparr>"
    define left where "left = ((\<forall>f\<in>set vec. f = None) \<or> tc_retsocket (tc_won won s2) \<noteq> -1)"
    have run: "tc_round sk ae mem_ok b st r s = Inr (left, tc_won won s2)"
      using p(1) sel a(1) False by (simp add: tc_round_def s2_def left_def Let_def)
    have ok: "Some f \<in> set vec \<Longrightarrow> fsm_ok f" for f
    proof -
      have "drop (tc_index s1) vec = drop (tc_index s1) (tc_vec s1)" "\<forall>f. Some f \<in> set (take (tc_index s1) vec) \<longrightarrow> conn_ok f"
        using a(2) by (auto simp: after_ok_def)
      then show "Some f \<in> set vec \<Longrightarrow> fsm_ok f"
        using fresh_fsm_ok[OF p(7)] conn_fsm_ok by (metis Un_iff append_take_drop_id set_append)
    qed
    have len: "length vec = length (tc_vec s1)" using a(2) by (simp add: after_ok_def)
    have led: "opened (tc_evs s1 @ evs) = won_held won + held_all vec + closed (tc_evs s1 @ evs)"
      using a(2) p(8) unfolding after_ok_def by simp
    show ?thesis
    proof (cases won)
      case None
      then have w: "tc_won won s2 = s2" by (simp add: tc_won_def)
      have "tc_left P s2" using ok led p(3) None by (simp add: tc_left_def s2_def won_held_def)
      moreover have "tc_inv P s2"
        using a(2) p led None by (simp add: tc_inv_def s2_def after_ok_def won_held_def)
      ultimately show ?thesis using run w len p(4) by (simp add: s2_def)
    next
      case (Some x)
      obtain j sock rtt cost where x: "x = (j, sock, rtt, cost)" by (metis prod_cases4)
      have j: "sock \<noteq> -1" "j < length (tc_vec s1)" "P j" using a(2) Some x by (auto simp: after_ok_def)
      have "tc_left P (tc_won won s2)"
        using ok led j len Some x by (auto simp: tc_left_def tc_won_def s2_def won_held_def)
      moreover have "left" using j(1) by (simp add: left_def Some x tc_won_def)
      ultimately show ?thesis using run len p(4) by (auto simp: s2_def tc_won_def Some x)
    qed
  qed
qed

lemma tc_loop_ok:
  assumes "tc_inv P s" and "\<forall>r\<in>set rs. round_fine r \<and> (\<forall>j b. io_verify_recv (r_after r j) b \<longrightarrow> P j)" and "\<forall>n. mem_ok n"
  shows "\<exists>res. tc_loop sk ae mem_ok b st rs s = Inr res
    \<and> (\<forall>s'. res = Some s' \<longrightarrow> tc_left P s' \<and> length (tc_vec s') = length (tc_vec s))"
  using assms(1,2)
proof (induction rs arbitrary: s)
  case (Cons r rs)
  obtain left s' where r: "tc_round sk ae mem_ok b st r s = Inr (left, s')" "if left then tc_left P s' else tc_inv P s'"
      "length (tc_vec s') = length (tc_vec s)"
    using tc_round_ok[OF Cons.prems(1) _ assms(3)] Cons.prems(2) by (metis list.set_intros(1))
  show ?case
  proof (cases left)
    case False
    then show ?thesis using r Cons.IH[of s'] Cons.prems(2) by auto
  qed (use r in simp)
qed simp

lemma close_all_ok:
  assumes "\<forall>f. Some f \<in> set fs \<longrightarrow> fsm_ok f" and "\<forall>i. verify_send_ok (io i)"
  shows "\<exists>evs. close_all sk io i fs = Inr evs \<and> held_all fs + opened evs = closed evs \<and> opened evs = {#}"
  using assms(1)
proof (induction fs arbitrary: i)
  case (Cons x fs)
  have "\<forall>f. Some f \<in> set fs \<longrightarrow> fsm_ok f" using Cons.prems by simp
  from Cons.IH[OF this, of "Suc i"] obtain evs2 where
    e: "close_all sk io (Suc i) fs = Inr evs2" "held_all fs + opened evs2 = closed evs2" "opened evs2 = {#}" by blast
  show ?case
  proof (cases x)
    case (Some f)
    obtain evs1 where "dispose sk (io i) f = Inr evs1" "held f + opened evs1 = closed evs1" "opened evs1 = {#}"
      using dispose_ok[of f "io i" sk] Cons.prems assms(2) Some by auto
    with e show ?thesis by (simp add: Some)
  qed (use e in simp)
qed simp

lemma ConnectCheckFSM_new_ok:
  "conn_ok (ConnectCheckFSM_new a t i ob v)" "fsm_status (ConnectCheckFSM_new a t i ob v) = EStart"
  "cc_check_status (ConnectCheckFSM_new a t i ob v) = ECheckOK \<longleftrightarrow> \<not> (ob \<and> v)"
proof -
  have "ab_inv (AutoBuffer_new 128)" by (simp add: AutoBuffer_new_ok)
  then show "conn_ok (ConnectCheckFSM_new a t i ob v)"
    by (simp add: conn_ok_def fsm_ok_def bufs_ok_def ConnectCheckFSM_new_def TcpClientFSM_new_def TcpClientFSM.defs
        ConnectCheckFSM.defs)
qed (simp_all add: ConnectCheckFSM_new_def TcpClientFSM_new_def TcpClientFSM.defs ConnectCheckFSM.defs)

lemma tc_init_inv:
  assumes "\<forall>j. \<not> (ob \<and> verify j) \<longrightarrow> P j"
  shows "tc_inv P (tc_init addrs ob verify t m)"
proof -
  let ?v = "map (\<lambda>i. Some (ConnectCheckFSM_new (addrs ! i) (mc_timeout m) i ob (verify i))) [0..<length addrs]"
  have f: "fresh ?v" by (auto simp: fresh_def ConnectCheckFSM_new_ok)
  moreover have "vouched P 0 ?v" using assms by (auto simp: vouched_def ConnectCheckFSM_new_ok)
  ultimately show ?thesis
    by (simp add: tc_inv_def tc_init_def tc_reset_def runners_def fresh_held)
qed

text \<open>States between rounds.\<close>

inductive tc_reach ::
  "bool \<Rightarrow> bool \<Rightarrow> (nat \<Rightarrow> bool) \<Rightarrow> SocketSelectBreaker \<Rightarrow> u64 \<Rightarrow> tc_state \<Rightarrow> tc_state \<Rightarrow> bool"
  for sk ae mem_ok b st s0 where
  start: "tc_reach sk ae mem_ok b st s0 s0"
| round: "tc_reach sk ae mem_ok b st s0 s \<Longrightarrow> round_fine r \<Longrightarrow> tc_round sk ae mem_ok b st r s = Inr (False, s')
    \<Longrightarrow> tc_reach sk ae mem_ok b st s0 s'"

lemma tc_won_max: "mc_max_connect (tc_mc (tc_won won s)) = mc_max_connect (tc_mc s)"
  by (simp add: tc_won_def split: option.splits)

lemma tc_start_max: "mc_max_connect (tc_mc (snd (tc_start r s))) = mc_max_connect (tc_mc s)"
  by (simp add: tc_start_def Let_def)

lemma tc_prepare_max:
  "tc_prepare sk b r s = Inr (s', sel, t) \<Longrightarrow> mc_max_connect (tc_mc s') = mc_max_connect (tc_mc s)"
  using tc_start_max[of r s] by (auto simp: tc_prepare_def Let_def bindE_eq_Inr case_prod_beta)

lemma tc_round_max:
  assumes "tc_round sk ae mem_ok b st r s = Inr (x, s')"
  shows "mc_max_connect (tc_mc s') = mc_max_connect (tc_mc s)"
proof -
  obtain s1 sel t where p: "tc_prepare sk b r s = Inr (s1, sel, t)"
    using assms by (auto simp: tc_round_def bindE_eq_Inr)
  have "mc_max_connect (tc_mc s') = mc_max_connect (tc_mc s1)"
    using assms p by (auto simp: tc_round_def bindE_eq_Inr Let_def tc_won_max split: if_splits)
  then show ?thesis using tc_prepare_max[OF p] by simp
qed

lemma tc_reach_inv:
  assumes "tc_reach sk ae mem_ok b st s0 s" and "\<forall>n. mem_ok n" and "tc_inv (\<lambda>_. True) s0"
  shows "tc_inv (\<lambda>_. True) s \<and> mc_max_connect (tc_mc s) = mc_max_connect (tc_mc s0) \<and> length (tc_vec s) = length (tc_vec s0)"
  using assms(1)
proof induction
  case start
  then show ?case using assms(3) by simp
next
  case (round s r s')
  from tc_round_ok[OF _ round.hyps(2) assms(2), of "\<lambda>_. True" s sk ae b st] round.IH round.hyps(3) tc_round_max[OF round.hyps(3)]
  show ?case by auto
qed

section \<open>Runs of one connection\<close>

text \<open>
  A connection driven in any order of calls by its owner; \<open>PreSelect\<close> is not called on an
  ended connection, as its assertion demands. The trace holds the effects on the system.
\<close>

inductive fsm_run ::
  "bool \<Rightarrow> bool \<Rightarrow> (nat \<Rightarrow> bool) \<Rightarrow> ConnectCheckFSM \<Rightarrow> sys_event list \<Rightarrow> ConnectCheckFSM \<Rightarrow> bool"
  for sk ae mem_ok f0 where
  init: "fsm_run sk ae mem_ok f0 [] f0"
| pre: "fsm_run sk ae mem_ok f0 evs f \<Longrightarrow> fsm_status f \<noteq> EEnd \<Longrightarrow> verify_send_ok io \<Longrightarrow>
    fsm_PreSelect sk check_virtuals io sel f = Inr (f', sel', evs') \<Longrightarrow> fsm_run sk ae mem_ok f0 (evs @ evs') f'"
| after: "fsm_run sk ae mem_ok f0 evs f \<Longrightarrow> verify_send_ok io \<Longrightarrow> io_send io < 4611686018427387904 \<Longrightarrow>
    recv_fits mem_ok io (fsm_recv_buf f) \<Longrightarrow>
    fsm_AfterSelect sk ae mem_ok check_virtuals io sel f = Inr (f', evs') \<Longrightarrow> fsm_run sk ae mem_ok f0 (evs @ evs') f'"
| request: "fsm_run sk ae mem_ok f0 evs f \<Longrightarrow> fsm_run sk ae mem_ok f0 evs (RequestSend f)"
| close: "fsm_run sk ae mem_ok f0 evs f \<Longrightarrow> verify_send_ok io \<Longrightarrow>
    fsm_Close check_virtuals io notify f = (f', evs') \<Longrightarrow> fsm_run sk ae mem_ok f0 (evs @ evs') f'"

lemma RequestSend_frame:
  "fsm_ok f \<Longrightarrow> fsm_ok (RequestSend f)" "held (RequestSend f) = held f" "fsm_status (RequestSend f) = fsm_status f"
  "fsm_send_buf (RequestSend f) = fsm_send_buf f" "fsm_recv_buf (RequestSend f) = fsm_recv_buf f"
  by (auto simp: RequestSend_def fsm_ok_def held_def split: TSocketStatus.splits)

lemma Close_opened: "fsm_Close V io notify f = (f', evs) \<Longrightarrow> opened evs = {#}"
  by (auto simp: fsm_Close_def Let_def split: if_splits)

lemma fsm_run_inv:
  assumes "fsm_run sk ae mem_ok f0 evs f" and "fsm_ok f0"
  shows "fsm_ok f \<and> fsm_status f0 \<le> fsm_status f \<and> balanced f0 evs f
    \<and> (fsm_status f = EStart \<longrightarrow> opened evs = {#}) \<and> size (opened evs) \<le> 1
    \<and> (EReadWrite \<le> fsm_status f0 \<longrightarrow> chk.streams f0 evs f)"
  using assms(1)
proof induction
  case init
  then show ?case using assms(2) by simp
next
  case (pre evs f io sel f' sel' evs')
  have r: "fsm_ok f'" "fsm_status f \<le> fsm_status f'" "fsm_status f' \<noteq> EStart" "balanced f evs' f'" "closed evs' = {#}"
      "fsm_status f \<noteq> EStart \<longrightarrow> f' = f \<and> evs' = []"
    using chk.PreSelect_ok[OF pre.hyps(3) _ pre.hyps(2), of sk sel] pre.IH pre.hyps(4) by auto
  have st: "EReadWrite \<le> fsm_status f0 \<Longrightarrow> fsm_status f \<noteq> EStart" using pre.IH by (auto simp: status_order)
  have "size (opened (evs @ evs')) \<le> 1"
  proof (cases "fsm_status f = EStart")
    case True
    then have "opened evs' = held f'" using r(4,5) pre.IH by (auto simp: balanced_def held_def fsm_ok_cases)
    then show ?thesis using True pre.IH by (simp add: held_def)
  qed (use pre.IH r(6) in simp)
  then show ?case
    using r pre.IH st balanced_trans[OF _ r(4)] by (auto intro: order_trans)
next
  case (after evs f io sel f' evs')
  have r: "fsm_ok f'" "fsm_status f \<le> fsm_status f'" "balanced f evs' f'" "opened evs' = {#}"
      "if fsm_status f = EReadWrite then chk.streams f evs' f' else evs' = [] \<and> fsm_recv_buf f' = fsm_recv_buf f"
    using chk.AfterSelect_ok[OF after.hyps(2) _ after.hyps(3,4), of sk ae sel] after.IH after.hyps(5)
    by (auto split: if_splits)
  have ended: "fsm_status f = EEnd \<Longrightarrow> chk.streams f evs' f'"
    using after.hyps(5) by (auto simp: fsm_AfterSelect_def chk.streams_def chk.OnClose_bufs[simplified] split: if_splits)
  have "EReadWrite \<le> fsm_status f0 \<Longrightarrow> chk.streams f evs' f'"
    using after.IH r(5) ended by (cases "fsm_status f") (auto simp: status_order)
  moreover have "fsm_status f' = EStart \<Longrightarrow> fsm_status f = EStart" using r(2) by simp
  ultimately show ?case
    using r after.IH balanced_trans[OF _ r(3)] chk.streams_trans by (auto intro: order_trans)
next
  case (request evs f)
  then show ?case by (simp add: RequestSend_frame balanced_def chk.streams_def)
next
  case (close evs f io notify f' evs')
  have r: "fsm_ok f'" "fsm_status f \<le> fsm_status f'" "balanced f evs' f'" "chk.streams f evs' f'"
    using chk.Close_ok[OF close.hyps(2), of f notify] close.IH close.hyps(3) by auto
  moreover have "fsm_status f' = EStart \<Longrightarrow> fsm_status f = EStart" using r(2) by simp
  ultimately show ?case
    using Close_opened[OF close.hyps(3)] close.IH balanced_trans[OF _ r(3)] chk.streams_trans[OF _ r(4)]
    by (auto intro: order_trans)
qed

section \<open>Properties\<close>

text \<open>An environment for examples: the socket \<open>fd\<close>, connecting asynchronously.\<close>

definition demo_io :: "int \<Rightarrow> check_io" where
  "demo_io fd = \<lparr>io_socket = fd, io_socket_errno = 0, io_nobio = 0, io_nobio_errno = 0, io_connect = -1,
     io_connect_errno = EINPROGRESS, io_getsockopt = 0, io_so_error = 0, io_getsockopt_errno = 0, io_send = 2,
     io_send_errno = 0, io_recv = 1, io_recv_data = [7], io_recv_errno = 0, io_t_start = 1000, io_t_end = 1010,
     io_t_timeout = 1010, io_t_connected = 1010, io_t_recv = 1010, io_t_close = 1010, io_t_close2 = 1010,
     io_verify_send = (\<lambda>b. (True, b)), io_verify_recv = (\<lambda>b. True)\<rparr>"

lemma demo_io_fine: "io_fine (demo_io fd)" "verify_send_ok (demo_io fd)"
  by (simp_all add: io_fine_def verify_send_ok_def demo_io_def)

definition demo_round :: "u64 \<Rightarrow> int \<Rightarrow> round_io" where
  "demo_round now ready = \<lparr>r_curtime = now, r_start = now, r_pre = (\<lambda>i. demo_io (5 + int i)), r_timeout = (\<lambda>i. now),
     r_poll = poll_ready (\<lambda>fd. if fd = ready then POLLOUT else 0), r_after = (\<lambda>i. demo_io 0), r_close = (\<lambda>i. demo_io 0),
     r_finish = (\<lambda>i. now)\<rparr>"

lemma demo_round_fine: "round_fine (demo_round now ready)"
  by (simp add: round_fine_def demo_round_def demo_io_fine)



text \<open>
  C6: A connection that is up is a pair of byte streams. Over any sequence of calls, with partial
  sends, full buffers, receive errors and an early close, the bytes handed to \<open>send\<close> followed by what
  is still in the send buffer are what the buffer held, and the receive buffer is what it held
  followed by the bytes \<open>recv\<close> delivered: nothing is lost, duplicated or reordered.
\<close>

theorem ConnectCheckFSM_streams:
  assumes "fsm_run sk ae mem_ok f0 evs f" and "fsm_ok f0" and "fsm_status f0 = EReadWrite"
  shows "ab_contents (fsm_send_buf f0) = sent_bytes evs @ ab_contents (fsm_send_buf f)
    \<and> ab_contents (fsm_recv_buf f) = ab_contents (fsm_recv_buf f0) @ received_bytes evs"
  using fsm_run_inv[OF assms(1,2)] assms(3) by (simp add: chk.streams_def)


definition demo_connected :: ConnectCheckFSM where
  "demo_connected = (ConnectCheckFSM_new [2, 0] 10000 0 True True)\<lparr>fsm_status := EReadWrite, fsm_last_status := EConnecting,
     fsm_sock := 5, fsm_send_buf := \<lparr>ab_parray = Some [1, 2, 3], ab_pos = 3, ab_length = 3, ab_capacity = 3, ab_unitsize = 128\<rparr>\<rparr>"

definition demo_ready :: SocketSelect where
  "demo_ready = \<lparr>ss_vfds = [\<lparr>pfd = 5, pevents = 5, prevents = 4\<rparr>], ss_ret = 1, ss_errno = 0, ss_autoclear = False\<rparr>"

lemma demo_connected_ok: "conn_ok demo_connected"
  by (simp add: demo_connected_def ConnectCheckFSM_new_def TcpClientFSM_new_def TcpClientFSM.defs ConnectCheckFSM.defs
      conn_ok_def fsm_ok_def bufs_ok_def ab_inv_def AutoBuffer_new_def)

theorem ConnectCheckFSM_streams_witness:
  "\<exists>f. fsm_AfterSelect True True (\<lambda>_. True) check_virtuals (demo_io 5) demo_ready demo_connected
       = Inr (f, [EvSend 5 [1, 2]])
     \<and> [1, 2, 3] = sent_bytes [EvSend 5 [1, 2]] @ ab_contents (fsm_send_buf f)
     \<and> ab_contents (fsm_recv_buf f) = []"
proof -
  obtain f where r: "fsm_AfterSelect True True (\<lambda>_. True) check_virtuals (demo_io 5) demo_ready demo_connected
      = Inr (f, [EvSend 5 [1, 2]])"
    by (simp add: fsm_AfterSelect_def AfterReadWriteSelect_def rw_send_def demo_connected_def ConnectCheckFSM_new_def
        TcpClientFSM_new_def TcpClientFSM.defs ConnectCheckFSM.defs demo_ready_def demo_io_def Let_def
        Exception_FD_ISSET_def Write_FD_ISSET_def Read_FD_ISSET_def isset_def poll_consts block_read_def block_write_def
        ab_Move_def ab_SetLength_def ab_Length_def get_at_def check_ReadWriteTimeout_def)
  have "recv_fits (\<lambda>_. True) (demo_io 5) (fsm_recv_buf demo_connected)"
    by (rule conn_recv_fits[OF demo_connected_ok demo_io_fine(1)]) simp
  then have "fsm_run True True (\<lambda>_. True) demo_connected ([] @ [EvSend 5 [1, 2]]) f"
    by (intro fsm_run.after[OF fsm_run.init demo_io_fine(2) _ _ r]) (simp_all add: demo_io_def)
  from ConnectCheckFSM_streams[OF this conn_fsm_ok[OF demo_connected_ok]] r show ?thesis
    by (simp add: demo_connected_def ConnectCheckFSM_new_def TcpClientFSM_new_def TcpClientFSM.defs ConnectCheckFSM.defs
        ab_contents_def AutoBuffer_new_def)
qed



text \<open>
  C31: \<open>TryConnect\<close> starts the addresses in order and never has more than \<open>max_connect_\<close> sockets
  open: in every round, after the new connection has been started, the open sockets number at most
  \<open>max_connect_\<close>, \<open>TryCount()\<close> is the number of addresses started, those before it have left
  \<open>EStart\<close> and those after it have not been touched.
\<close>

theorem TryConnect_max_connect:
  assumes "tc_reach sk ae mem_ok b st (tc_init vecaddr observer verify curtime m) s" and "\<forall>n. mem_ok n" and "round_fine r"
  shows "\<exists>s' sel timeout. tc_prepare sk b r s = Inr (s', sel, timeout)
    \<and> length (filter isconnecting (tc_vec s')) \<le> unat (mc_max_connect m)
    \<and> mc_trycount (tc_mc s') = tc_index s' \<and> tc_index s' \<le> length vecaddr
    \<and> (\<forall>f. Some f \<in> set (take (tc_index s') (tc_vec s')) \<longrightarrow> fsm_status f \<noteq> EStart)
    \<and> (\<forall>x \<in> set (drop (tc_index s') (tc_vec s')). \<exists>f. x = Some f \<and> fsm_status f = EStart)"
proof -
  have i: "tc_inv (\<lambda>_. True) (tc_init vecaddr observer verify curtime m)" by (rule tc_init_inv) simp
  have "mc_max_connect (tc_mc (tc_init vecaddr observer verify curtime m)) = mc_max_connect m"
    "length (tc_vec (tc_init vecaddr observer verify curtime m)) = length vecaddr"
    by (simp_all add: tc_init_def tc_reset_def)
  then have s: "tc_inv (\<lambda>_. True) s" "mc_max_connect (tc_mc s) = mc_max_connect m" "length (tc_vec s) = length vecaddr"
    using tc_reach_inv[OF assms(1,2) i] by simp_all
  from tc_prepare_ok[OF s(1) assms(3), of sk b] s(2,3) show ?thesis
    unfolding running_count by (fastforce simp: fresh_def)
qed

theorem TryConnect_max_connect_witness:
  "\<exists>s' sel timeout. tc_prepare True demo_breaker (demo_round 1000 0)
       (tc_init [[2, 0], [2, 1]] False (\<lambda>_. False) 1000 (MultiConnect_new 10000 100 100 1)) = Inr (s', sel, timeout)
     \<and> length (filter isconnecting (tc_vec s')) \<le> 1 \<and> mc_trycount (tc_mc s') = tc_index s'"
  using TryConnect_max_connect[OF tc_reach.start _ demo_round_fine[of 1000 0], where mem_ok = "\<lambda>_. True" and sk = True
      and b = demo_breaker and vecaddr = "[[2, 0], [2, 1]]" and observer = False and verify = "\<lambda>_. False" and curtime = 1000
      and m = "MultiConnect_new 10000 100 100 1"]
  by (auto simp: MultiConnect_new_def)

end
