(* ===== verification/BlockSocket.thy ===== *)
theory BlockSocket
  imports TcpClientFsm
begin

text \<open>
  Model of \<open>network/block_socket.cc\<close>: connecting, sending and receiving with a time limit, on a
  non-blocking socket and a breaker. Each round of a loop has a record with what the system answers in
  it; \<open>send\<close> and \<open>recv\<close> answer the size they are asked for. The loops take the list of rounds; running
  out of it is the result \<open>None\<close> (the call has not returned yet). The effects on the system are listed
  as in \<open>TcpClientFsm\<close>; calls whose result is only logged are left out.
\<close>

section \<open>Environment\<close>

record block_io = fsm_io +
  bk_poll :: "pollfd list \<Rightarrow> int \<Rightarrow> int \<times> pollfd list \<times> int"
  bk_rd :: int
  bk_tick :: u64
  bk_send :: "nat \<Rightarrow> int"
  bk_recv :: "nat \<Rightarrow> int \<times> byte list"

text \<open>The result of a call, \<open>_errcode\<close>, the breaker and the effects.\<close>

type_synonym block_result = "int \<times> int \<times> SocketSelectBreaker \<times> sys_event list"

definition to_int :: "nat \<Rightarrow> int" where
  "to_int n = sint (of_nat n :: u32)"

section \<open>Connecting\<close>

definition connected_result :: "block_io \<Rightarrow> int \<Rightarrow> int \<Rightarrow> SocketSelectBreaker \<Rightarrow> SocketSelect \<Rightarrow> int \<times> int" where
  "connected_result io sock ret b sel =
     (if ret = 0 then (INVALID_SOCKET, ETIMEDOUT)
      else if ret < 0 then (INVALID_SOCKET, Errno sel)
      else if IsException b sel then (INVALID_SOCKET, 0)
      else if IsBreak b sel then (INVALID_SOCKET, 0)
      else if Exception_FD_ISSET sock sel \<noteq> 0 then (INVALID_SOCKET, socket_error io)
      else if Write_FD_ISSET sock sel = 0 then (INVALID_SOCKET, socket_error io)
      else if 0 \<noteq> socket_error io then (INVALID_SOCKET, socket_error io)
      else (sock, socket_error io))"

definition block_socket_connect :: "block_io \<Rightarrow> byte list \<Rightarrow> int \<Rightarrow> SocketSelectBreaker \<Rightarrow> block_result cres" where
  "block_socket_connect io address timeout b =
     (let sock = io_socket io
      in if sock = INVALID_SOCKET then Inr (INVALID_SOCKET, io_socket_errno io, b, [])
         else if io_nobio io \<noteq> 0 then Inr (INVALID_SOCKET, io_nobio_errno io, b, [EvSocket sock, EvClose sock])
         else
           let evs = [EvSocket sock, EvConnect sock address]
           in if io_connect io \<noteq> 0 \<and> \<not> IS_NOBLOCK_CONNECT_ERRNO (io_connect_errno io)
              then Inr (INVALID_SOCKET, io_connect_errno io, b, evs @ [EvClose sock])
              else
                let sel = Exception_FD_SET sock (Write_FD_SET sock (PreSelect b (SocketSelect_new False)))
                in bindE (if timeout \<ge> 0 then Select (bk_poll io) (bk_rd io) timeout b sel
                          else Select_forever (bk_poll io) (bk_rd io) b sel) (\<lambda>(ret, b, sel).
                   case connected_result io sock ret b sel of (r, errcode) \<Rightarrow>
                     Inr (r, errcode, b, if r = INVALID_SOCKET then evs @ [EvClose sock] else evs)))"

section \<open>Sending\<close>

definition wait_time :: "int \<Rightarrow> int \<Rightarrow> int" where
  "wait_time timeout cost_time = (if timeout > cost_time then timeout - cost_time else 0)"

definition block_select ::
  "block_io \<Rightarrow> int \<Rightarrow> int \<Rightarrow> SocketSelectBreaker \<Rightarrow> SocketSelect \<Rightarrow> (int \<times> SocketSelectBreaker \<times> SocketSelect) cres" where
  "block_select io timeout cost_time b sel =
     (if 0 \<le> timeout then Select (bk_poll io) (bk_rd io) (wait_time timeout cost_time) b sel
      else Select_forever (bk_poll io) (bk_rd io) b sel)"

fun block_send_loop ::
  "block_io list \<Rightarrow> int \<Rightarrow> byte list \<Rightarrow> nat \<Rightarrow> int \<Rightarrow> u64 \<Rightarrow> int \<Rightarrow> nat \<Rightarrow> SocketSelectBreaker \<Rightarrow> SocketSelect
    \<Rightarrow> block_result option cres" where
  "block_send_loop ios sock buffer len timeout start cost_time sent_len b sel =
     (if sent_len \<ge> len then Inr (Some (to_int sent_len, 0, b, []))
      else
        case ios of
          [] \<Rightarrow> Inr None
        | io # ios \<Rightarrow>
            bindE (block_select io timeout cost_time b (Exception_FD_SET sock (Write_FD_SET sock (PreSelect b sel)))) (\<lambda>(ret, b, sel).
            let cost_time = sint (ucast (bk_tick io - start) :: u32)
            in if ret < 0 then Inr (Some (-1, Errno sel, b, []))
               else if ret = 0 then Inr (Some (to_int sent_len, ETIMEDOUT, b, []))
               else if IsException b sel \<or> IsBreak b sel then Inr (Some (to_int sent_len, 0, b, []))
               else if Exception_FD_ISSET sock sel \<noteq> 0 then Inr (Some (-1, socket_error io, b, []))
               else if Write_FD_ISSET sock sel \<noteq> 0 then
                 bindE (block_read (Some buffer) (int sent_len) (len - sent_len)) (\<lambda>bytes.
                 let nwrite = bk_send io (len - sent_len)
                 in if nwrite = 0 \<or> 0 > nwrite \<and> \<not> IS_NOBLOCK_WRITE_ERRNO (io_send_errno io)
                    then Inr (Some (-1, io_send_errno io, b, []))
                    else if 0 < nwrite then
                      bindE (block_send_loop ios sock buffer len timeout start cost_time (sent_len + nat nwrite) b sel) (\<lambda>r.
                        Inr (map_option (\<lambda>(ret, err, b, evs). (ret, err, b, EvSend sock (take (nat nwrite) bytes) # evs)) r))
                    else block_send_loop ios sock buffer len timeout start cost_time sent_len b sel)
               else block_send_loop ios sock buffer len timeout start cost_time sent_len b sel))"

declare block_send_loop.simps [simp del]

definition block_socket_send ::
  "block_io list \<Rightarrow> u64 \<Rightarrow> int \<Rightarrow> byte list \<Rightarrow> nat \<Rightarrow> int \<Rightarrow> SocketSelectBreaker \<Rightarrow> block_result option cres" where
  "block_socket_send ios start sock buffer len timeout b =
     block_send_loop ios sock buffer len timeout start 0 0 b (SocketSelect_new False)"

section \<open>Receiving\<close>

type_synonym block_recv_result = "int \<times> int \<times> AutoBuffer \<times> SocketSelectBreaker \<times> sys_event list"

text \<open>\<open>_buffer.Length(_buffer.Pos(), _buffer.Length() + recv_len)\<close> before a return.\<close>

definition finish_recv ::
  "bool \<Rightarrow> nat \<Rightarrow> int \<Rightarrow> AutoBuffer \<Rightarrow> SocketSelectBreaker \<Rightarrow> block_recv_result option cres" where
  "finish_recv ae recv_len errcode buf b =
     bindE (ab_SetLength ae (ab_Pos buf) (size_add (ab_Length buf) recv_len) buf) (\<lambda>buf.
       Inr (Some (to_int recv_len, errcode, buf, b, [])))"

fun block_recv_loop ::
  "bool \<Rightarrow> block_io list \<Rightarrow> int \<Rightarrow> nat \<Rightarrow> int \<Rightarrow> bool \<Rightarrow> u64 \<Rightarrow> int \<Rightarrow> nat \<Rightarrow> AutoBuffer \<Rightarrow> SocketSelectBreaker \<Rightarrow> SocketSelect
    \<Rightarrow> block_recv_result option cres" where
  "block_recv_loop ae ios sock max_size timeout wait_full start cost_time recv_len buf b sel =
     (if recv_len \<ge> max_size then finish_recv ae recv_len 0 buf b
      else if recv_len > 0 \<and> \<not> wait_full then finish_recv ae recv_len 0 buf b
      else
        case ios of
          [] \<Rightarrow> Inr None
        | io # ios \<Rightarrow>
            bindE (block_select io timeout cost_time b (Exception_FD_SET sock (Read_FD_SET sock (PreSelect b sel)))) (\<lambda>(ret, b, sel).
            let cost_time = sint (ucast (bk_tick io - start) :: u32)
            in if ret < 0 then Inr (Some (-1, Errno sel, buf, b, []))
               else if ret = 0 then finish_recv ae recv_len ETIMEDOUT buf b
               else if IsException b sel \<or> IsBreak b sel then finish_recv ae recv_len (Errno sel) buf b
               else if Exception_FD_ISSET sock sel \<noteq> 0 then Inr (Some (-1, socket_error io, buf, b, []))
               else if Read_FD_ISSET sock sel \<noteq> 0 then
                 (case bk_recv io (max_size - recv_len) of (nrecv, data) \<Rightarrow>
                    if 0 = nrecv then finish_recv ae recv_len 0 buf b
                    else if 0 > nrecv \<and> \<not> IS_NOBLOCK_READ_ERRNO (io_recv_errno io) then Inr (Some (-1, io_recv_errno io, buf, b, []))
                    else if 0 < nrecv then
                      bindE (block_write (ab_parray buf) (int (ab_Length buf) + int recv_len) data) (\<lambda>arr.
                      bindE (block_recv_loop ae ios sock max_size timeout wait_full start cost_time (recv_len + nat nrecv)
                               (buf\<lparr>ab_parray := arr\<rparr>) b sel) (\<lambda>r.
                        Inr (map_option (\<lambda>(ret, err, buf, b, evs). (ret, err, buf, b, EvRecv sock data # evs)) r)))
                    else block_recv_loop ae ios sock max_size timeout wait_full start cost_time recv_len buf b sel)
               else block_recv_loop ae ios sock max_size timeout wait_full start cost_time recv_len buf b sel))"

declare block_recv_loop.simps [simp del]

definition block_socket_recv ::
  "bool \<Rightarrow> (nat \<Rightarrow> bool) \<Rightarrow> block_io list \<Rightarrow> u64 \<Rightarrow> int \<Rightarrow> AutoBuffer \<Rightarrow> nat \<Rightarrow> int \<Rightarrow> bool \<Rightarrow> SocketSelectBreaker
    \<Rightarrow> block_recv_result option cres" where
  "block_socket_recv ae mem_ok ios start sock buf max_size timeout wait_full b =
     (let room = size_sub (ab_Capacity buf) (ab_Length buf)
      in bindE (if room < max_size then ab_AddCapacity ae mem_ok (size_sub max_size room) buf else Inr buf) (\<lambda>buf.
           block_recv_loop ae ios sock max_size timeout wait_full start 0 0 buf b (SocketSelect_new False)))"

section \<open>Lemmas\<close>

lemma Select_sets [simp]: "ss_vfds (Exception_FD_SET k s) \<noteq> []" "ss_vfds (Write_FD_SET k s) \<noteq> []" "ss_vfds (Read_FD_SET k s) \<noteq> []"
proof -
  have "add_events ev k xs \<noteq> []" for ev xs by (induction xs) auto
  then show "ss_vfds (Exception_FD_SET k s) \<noteq> []" "ss_vfds (Write_FD_SET k s) \<noteq> []" "ss_vfds (Read_FD_SET k s) \<noteq> []"
    by (simp_all add: Exception_FD_SET_def Write_FD_SET_def Read_FD_SET_def)
qed

lemma Select_runs:
  assumes "ss_vfds s \<noteq> []" and "\<not> ss_autoclear s"
  shows "\<exists>ret s'. Select poll rd ms b s = Inr (ret, b, s') \<and> ret = fst (poll (ss_vfds s) ms) \<and> \<not> ss_autoclear s'"
  using assms by (simp add: Select_def Let_def split: prod.splits)

lemma autoclear_frame [simp]:
  "ss_autoclear (Exception_FD_SET k s) = ss_autoclear s" "ss_autoclear (Write_FD_SET k s) = ss_autoclear s"
  "ss_autoclear (Read_FD_SET k s) = ss_autoclear s" "ss_autoclear (PreSelect b s) = ss_autoclear s"
  "ss_autoclear (SocketSelect_new a) = a"
  by (simp_all add: Exception_FD_SET_def Write_FD_SET_def Read_FD_SET_def PreSelect_def SocketSelect_new_def)

lemma block_select_runs:
  assumes "ss_vfds s \<noteq> []" and "\<not> ss_autoclear s"
  shows "\<exists>ret s'. block_select io timeout cost b s = Inr (ret, b, s') \<and> \<not> ss_autoclear s'"
  using Select_runs[OF assms] unfolding block_select_def Select_forever_def by (cases "0 \<le> timeout") fastforce+

lemma to_int_small:
  assumes "n < 2 ^ 31"
  shows "to_int n = int n"
proof -
  have "sint (word_of_int (int n) :: u32) = signed_take_bit 31 (int n)" by (subst sint_sbintrunc') simp
  also have "\<dots> = int n" using assms by (intro signed_take_bit_int_eq_self) auto
  finally show ?thesis by (simp add: to_int_def)
qed

lemma connect_runs:
  "\<exists>r err evs. block_socket_connect io address timeout b = Inr (r, err, b, evs)
    \<and> opened evs = closed evs + (if r = INVALID_SOCKET then {#} else {#r#})
    \<and> (r = INVALID_SOCKET \<or> r = io_socket io \<and> err = 0 \<and> socket_error io = 0 \<and> evs = [EvSocket r, EvConnect r address])"
proof -
  define sel where "sel = Exception_FD_SET (io_socket io) (Write_FD_SET (io_socket io) (PreSelect b (SocketSelect_new False)))"
  have "\<exists>ret s'. (if timeout \<ge> 0 then Select (bk_poll io) (bk_rd io) timeout b sel
                          else Select_forever (bk_poll io) (bk_rd io) b sel) = Inr (ret, b, s')"
    using Select_runs[of sel] unfolding sel_def Select_forever_def by (cases "0 \<le> timeout") fastforce+
  then obtain ret s' where s: "(if timeout \<ge> 0 then Select (bk_poll io) (bk_rd io) timeout b sel
                          else Select_forever (bk_poll io) (bk_rd io) b sel) = Inr (ret, b, s')" by blast
  show ?thesis
    unfolding block_socket_connect_def Let_def sel_def[symmetric] s
    by (auto simp: connected_result_def)
qed

text \<open>The kernel never takes or delivers more than it is asked for.\<close>

definition send_ok :: "block_io \<Rightarrow> bool" where
  "send_ok io \<longleftrightarrow> (\<forall>n. bk_send io n \<le> int n)"

definition recv_ok :: "block_io \<Rightarrow> bool" where
  "recv_ok io \<longleftrightarrow> (\<forall>n. case bk_recv io n of (r, data) \<Rightarrow> 0 < r \<longrightarrow> r = int (length data) \<and> length data \<le> n)"

definition send_result :: "byte list \<Rightarrow> nat \<Rightarrow> nat \<Rightarrow> SocketSelectBreaker \<Rightarrow> block_result \<Rightarrow> bool" where
  "send_result buffer len sent b r = (case r of (ret, err, b', evs) \<Rightarrow>
     b' = b \<and> opened evs = {#} \<and> closed evs = {#} \<and>
     (\<exists>n. sent \<le> n \<and> n \<le> len \<and> sent_bytes evs = take (n - sent) (drop sent buffer)
        \<and> (ret = -1 \<and> n < len \<or> ret = int n \<and> (n = len \<longrightarrow> err = 0))))"

lemma send_result_more:
  assumes "send_result buffer len (sent + k) b (ret, err, b', evs)" and "bs = take k (drop sent buffer)" and "k \<le> length (drop sent buffer)"
  shows "send_result buffer len sent b (ret, err, b', EvSend sock bs # evs)"
proof -
  from assms(1) obtain n where n: "sent + k \<le> n" "n \<le> len" "sent_bytes evs = take (n - (sent + k)) (drop (sent + k) buffer)"
    "ret = -1 \<and> n < len \<or> ret = int n \<and> (n = len \<longrightarrow> err = 0)" and r: "b' = b" "opened evs = {#}" "closed evs = {#}"
    by (auto simp: send_result_def)
  have "take (n - sent) (drop sent buffer) = take k (drop sent buffer) @ take (n - sent - k) (drop k (drop sent buffer))"
    using n(1) by (metis add.commute add_le_imp_le_diff diff_diff_left le_add_diff_inverse2 take_add)
  then have "sent_bytes (EvSend sock bs # evs) = take (n - sent) (drop sent buffer)"
    using n(3) assms(2) by (simp add: add.commute)
  then show ?thesis using n r by (auto simp: send_result_def intro!: exI[of _ n])
qed

lemma send_loop_result:
  assumes "list_all send_ok ios" and "sent \<le> len" and "len \<le> length buffer" and "len < 2 ^ 31" and "\<not> ss_autoclear sel"
  shows "\<exists>x. block_send_loop ios sock buffer len timeout start cost sent b sel = Inr x
    \<and> (\<forall>r. x = Some r \<longrightarrow> send_result buffer len sent b r)"
  using assms
proof (induction ios arbitrary: cost sent sel)
  case Nil
  then show ?case by (auto simp: block_send_loop.simps to_int_small send_result_def)
next
  case (Cons io ios)
  show ?case
  proof (cases "len \<le> sent")
    case True
    then show ?thesis using Cons.prems by (auto simp: block_send_loop.simps to_int_small send_result_def)
  next
    case False
    obtain ret s' where sel: "block_select io timeout cost b (Exception_FD_SET sock (Write_FD_SET sock (PreSelect b sel))) = Inr (ret, b, s')"
      "\<not> ss_autoclear s'" using block_select_runs[of "Exception_FD_SET sock (Write_FD_SET sock (PreSelect b sel))"] Cons.prems by fastforce
    define cost' where "cost' = sint (ucast (bk_tick io - start) :: u32)"
    define k where "k = nat (bk_send io (len - sent))"
    have k: "k \<le> len - sent" using Cons.prems(1) by (auto simp: send_ok_def k_def nat_le_iff)
    have rd: "block_read (Some buffer) (int sent) (len - sent) = Inr (take (len - sent) (drop sent buffer))"
      using False Cons.prems by (simp add: block_read_def get_at_def)
    have stay: "\<exists>x. block_send_loop ios sock buffer len timeout start cost' sent b s' = Inr x \<and> (\<forall>r. x = Some r \<longrightarrow> send_result buffer len sent b r)"
      using Cons.IH[of sent s' cost'] Cons.prems sel(2) by simp
    have more: "\<exists>x. block_send_loop ios sock buffer len timeout start cost' (sent + k) b s' = Inr x
        \<and> (\<forall>r. x = Some r \<longrightarrow> send_result buffer len (sent + k) b r)"
      using Cons.IH[of "sent + k" s' cost'] Cons.prems sel(2) k False by simp
    have stop: "send_result buffer len sent b (-1, e, b, [])" "send_result buffer len sent b (to_int sent, e, b, [])" for e
      using False Cons.prems by (auto simp: send_result_def to_int_small intro!: exI[of _ sent])
    have go: "\<exists>x. bindE (block_send_loop ios sock buffer len timeout start cost' (sent + k) b s') (\<lambda>r.
        Inr (map_option (\<lambda>(ret, err, b, evs). (ret, err, b, EvSend sock (take k (take (len - sent) (drop sent buffer))) # evs)) r)) = Inr x
        \<and> (\<forall>r. x = Some r \<longrightarrow> send_result buffer len sent b r)"
    proof -
      obtain x where x: "block_send_loop ios sock buffer len timeout start cost' (sent + k) b s' = Inr x"
        "\<forall>r. x = Some r \<longrightarrow> send_result buffer len (sent + k) b r" using more by blast
      show ?thesis using x k Cons.prems(3) send_result_more[of buffer len sent k b] by (auto simp: min_def)
    qed
    show ?thesis
      using False stop stay go
      by (subst block_send_loop.simps) (simp add: sel(1) rd Let_def cost'_def[symmetric] k_def[symmetric])
  qed
qed

text \<open>The bytes behind the contents that a receive in progress has stored.\<close>

definition pending :: "nat \<Rightarrow> AutoBuffer \<Rightarrow> byte list" where
  "pending n buf = take n (drop (ab_length buf) (ab_block buf))"

definition recv_result ::
  "AutoBuffer \<Rightarrow> byte list \<Rightarrow> nat \<Rightarrow> SocketSelectBreaker \<Rightarrow> block_recv_result \<Rightarrow> bool" where
  "recv_result buf0 got max_size b r = (case r of (ret, err, buf, b', evs) \<Rightarrow>
     b' = b \<and> opened evs = {#} \<and> closed evs = {#} \<and> ab_inv buf \<and> length (got @ received_bytes evs) \<le> max_size
     \<and> (ret = -1 \<and> ab_contents buf = ab_contents buf0
        \<or> ret = int (length (got @ received_bytes evs)) \<and> ab_contents buf = ab_contents buf0 @ got @ received_bytes evs))"

lemma length_pending: "ab_inv buf \<Longrightarrow> ab_length buf + n \<le> ab_capacity buf \<Longrightarrow> length (pending n buf) = n"
  by (simp add: pending_def ab_inv_def)

lemma finish_recv_run:
  assumes "ab_inv buf" and "ab_length buf + n \<le> ab_capacity buf" and "n < 2 ^ 31" and "n \<le> max_size"
  shows "\<exists>r. finish_recv ae n e buf b = Inr (Some r) \<and> recv_result buf (pending n buf) max_size b r"
proof -
  note sz = ab_inv_sizes[OF assms(1)]
  have cap: "ab_capacity buf < 4611686018427387904" using assms(1) by (simp add: ab_inv_def)
  define buf' where "buf' = buf\<lparr>ab_length := ab_length buf + n\<rparr>"
  have "ab_SetLength ae (ab_Pos buf) (size_add (ab_Length buf) n) buf = Inr (ab_Seek (ab_pos buf) SeekStart buf')"
    using assms sz cap by (simp add: ab_SetLength_def ab_Pos_def ab_Length_def buf'_def ab_inv_def)
  moreover have "ab_Seek (ab_pos buf) SeekStart buf' = buf'"
    using assms(1) sz by (simp add: ab_Seek_def buf'_def ab_inv_def Let_def)
  moreover have "ab_inv buf'" using assms by (auto simp: ab_inv_def buf'_def)
  moreover have "ab_contents buf' = ab_contents buf @ pending n buf"
    by (simp add: ab_contents_def pending_def buf'_def take_add)
  ultimately show ?thesis
    using assms length_pending[OF assms(1,2)] by (simp add: finish_recv_def recv_result_def to_int_small)
qed

lemma store_pending:
  assumes "ab_inv buf" and "ab_length buf + n + length data \<le> ab_capacity buf" and "data \<noteq> []"
  shows "\<exists>arr. block_write (ab_parray buf) (int (ab_Length buf) + int n) data = Inr arr
    \<and> ab_inv (buf\<lparr>ab_parray := arr\<rparr>) \<and> ab_contents (buf\<lparr>ab_parray := arr\<rparr>) = ab_contents buf
    \<and> pending (n + length data) (buf\<lparr>ab_parray := arr\<rparr>) = pending n buf @ data"
proof -
  obtain xs where xs: "ab_parray buf = Some xs" "length xs = ab_capacity buf"
    using assms by (cases "ab_parray buf") (auto simp: ab_inv_def)
  have "nat (int (ab_length buf) + int n) = ab_length buf + n" by simp
  then have wr: "block_write (ab_parray buf) (int (ab_Length buf) + int n) data = Inr (Some (put_at xs (ab_length buf + n) data))"
    using assms(2,3) xs by (simp add: block_write_def ab_Length_def)
  show ?thesis
    using assms xs unfolding wr
    by (auto simp: ab_inv_def ab_contents_def pending_def put_at_def min_def drop_take)
qed

lemma recv_result_more:
  assumes "recv_result buf1 (got @ data) max_size b (ret, err, buf, b', evs)" and "ab_contents buf1 = ab_contents buf0"
  shows "recv_result buf0 got max_size b (ret, err, buf, b', EvRecv sock data # evs)"
  using assms by (simp add: recv_result_def)

definition recv_state :: "nat \<Rightarrow> nat \<Rightarrow> AutoBuffer \<Rightarrow> bool" where
  "recv_state n max_size buf \<longleftrightarrow> ab_inv buf \<and> n \<le> max_size \<and> ab_length buf + max_size \<le> ab_capacity buf \<and> max_size < 2 ^ 31"

lemma finish_state:
  assumes "recv_state n max_size buf"
  shows "\<exists>x. finish_recv ae n e buf b = Inr x \<and> (\<forall>r. x = Some r \<longrightarrow> recv_result buf (pending n buf) max_size b r)"
  using finish_recv_run[of buf n max_size ae e b] assms by (fastforce simp: recv_state_def)

lemma recv_loop_result:
  assumes "list_all recv_ok ios" and "recv_state n max_size buf" and "\<not> ss_autoclear sel"
  shows "\<exists>x. block_recv_loop ae ios sock max_size timeout full start cost n buf b sel = Inr x
    \<and> (\<forall>r. x = Some r \<longrightarrow> recv_result buf (pending n buf) max_size b r)"
  using assms
proof (induction ios arbitrary: cost n buf sel)
  case Nil
  then show ?case using finish_state[of n max_size buf ae 0 b] by (simp add: block_recv_loop.simps)
next
  case (Cons io ios)
  note fin = finish_state[OF Cons.prems(2)]
  show ?case
  proof (cases "max_size \<le> n \<or> 0 < n \<and> \<not> full")
    case True
    then show ?thesis using fin[of ae 0 b] by (auto simp: block_recv_loop.simps[of _ "io # ios"])
  next
    case False
    obtain ret s' where sel: "block_select io timeout cost b (Exception_FD_SET sock (Read_FD_SET sock (PreSelect b sel))) = Inr (ret, b, s')"
      "\<not> ss_autoclear s'" using block_select_runs[of "Exception_FD_SET sock (Read_FD_SET sock (PreSelect b sel))"] Cons.prems by fastforce
    define cost' where "cost' = sint (ucast (bk_tick io - start) :: u32)"
    obtain nrecv data where d: "bk_recv io (max_size - n) = (nrecv, data)" by (cases "bk_recv io (max_size - n)")
    have stop: "recv_result buf (pending n buf) max_size b (-1, e, buf, b, [])" for e
      using Cons.prems(2) length_pending[of buf n] by (simp add: recv_result_def recv_state_def)
    have stay: "\<exists>x. block_recv_loop ae ios sock max_size timeout full start cost' n buf b s' = Inr x
        \<and> (\<forall>r. x = Some r \<longrightarrow> recv_result buf (pending n buf) max_size b r)"
      using Cons.IH[of n buf s' cost'] Cons.prems sel(2) by simp
    have more: "\<exists>x. bindE (block_write (ab_parray buf) (int (ab_Length buf) + int n) data) (\<lambda>arr.
        bindE (block_recv_loop ae ios sock max_size timeout full start cost' (n + nat nrecv) (buf\<lparr>ab_parray := arr\<rparr>) b s') (\<lambda>r.
          Inr (map_option (\<lambda>(ret, err, buf, b, evs). (ret, err, buf, b, EvRecv sock data # evs)) r))) = Inr x
        \<and> (\<forall>r. x = Some r \<longrightarrow> recv_result buf (pending n buf) max_size b r)" if "0 < nrecv"
    proof -
      have k: "nat nrecv = length data" "length data \<le> max_size - n" "data \<noteq> []"
        using Cons.prems(1) d that by (auto simp: recv_ok_def dest!: spec[of _ "max_size - n"])
      have room: "ab_length buf + n + length data \<le> ab_capacity buf" "ab_inv buf" "n + length data \<le> max_size"
        using k Cons.prems(2) by (auto simp: recv_state_def)
      obtain arr where arr: "block_write (ab_parray buf) (int (ab_Length buf) + int n) data = Inr arr"
        "ab_inv (buf\<lparr>ab_parray := arr\<rparr>)" "ab_contents (buf\<lparr>ab_parray := arr\<rparr>) = ab_contents buf"
        "pending (n + length data) (buf\<lparr>ab_parray := arr\<rparr>) = pending n buf @ data"
        using store_pending[OF room(2,1) k(3)] by blast
      have "recv_state (n + length data) max_size (buf\<lparr>ab_parray := arr\<rparr>)"
        using arr(2) room Cons.prems(2) by (simp add: recv_state_def)
      then obtain x where x: "block_recv_loop ae ios sock max_size timeout full start cost' (n + length data) (buf\<lparr>ab_parray := arr\<rparr>) b s' = Inr x"
        "\<forall>r. x = Some r \<longrightarrow> recv_result (buf\<lparr>ab_parray := arr\<rparr>) (pending n buf @ data) max_size b r"
        using Cons.IH[of "n + length data" "buf\<lparr>ab_parray := arr\<rparr>" s' cost'] Cons.prems(1) sel(2) arr(4) by auto
      show ?thesis using x arr(1,3) k(1) recv_result_more[OF _ arr(3)] by (cases x) auto
    qed
    show ?thesis
      using False stop stay more fin[of ae _ b]
      by (subst block_recv_loop.simps) (simp add: sel(1) d Let_def cost'_def[symmetric])
  qed
qed

text \<open>The room \<open>block_socket_recv\<close> makes before its loop.\<close>

lemma recv_room:
  assumes "ab_inv buf" and "max_size < 2 ^ 31"
    and "ab_capacity buf - ab_length buf < max_size \<longrightarrow> fits mem_ok (ab_length buf + max_size) buf"
  defines "room \<equiv> size_sub (ab_Capacity buf) (ab_Length buf)"
  shows "\<exists>buf'. (if room < max_size then ab_AddCapacity ae mem_ok (size_sub max_size room) buf else Inr buf) = Inr buf'
    \<and> recv_state 0 max_size buf' \<and> ab_contents buf' = ab_contents buf"
proof -
  have cap: "ab_capacity buf < 4611686018427387904" "ab_length buf \<le> ab_capacity buf" using assms(1) by (simp_all add: ab_inv_def)
  then have room: "room = ab_capacity buf - ab_length buf" by (simp add: room_def ab_Capacity_def ab_Length_def)
  show ?thesis
  proof (cases "room < max_size")
    case True
    then have fit: "fits mem_ok (ab_length buf + max_size) buf" using assms(3) room by simp
    have "size_add (ab_capacity buf) (size_sub max_size room) = ab_length buf + max_size"
      using cap True room fit by (simp add: fits_def)
    then have add: "ab_AddCapacity ae mem_ok (size_sub max_size room) buf = ab_FitSize ae mem_ok (ab_length buf + max_size) buf"
      by (simp add: ab_AddCapacity_def)
    obtain b' where b': "ab_FitSize ae mem_ok (ab_length buf + max_size) buf = Inr b'" "ab_inv b'" "ab_contents b' = ab_contents buf"
      "ab_length buf + max_size \<le> ab_capacity b'"
      using FitSize_ok[OF assms(1) fit] by metis
    have "ab_length b' = ab_length buf" using b'(2,3) assms(1) by (metis ab_inv_sizes(5))
    then show ?thesis using b' True assms(2) add by (simp add: recv_state_def)
  next
    case False
    then show ?thesis using room assms(1,2) cap by (simp add: recv_state_def)
  qed
qed

text \<open>A round in which the socket accepts data and nobody breaks.\<close>

definition can_send :: "SocketSelectBreaker \<Rightarrow> int \<Rightarrow> block_io \<Rightarrow> bool" where
  "can_send b sock io \<longleftrightarrow> (\<exists>rdy. bk_poll io = poll_ready rdy \<and> rdy (BreakerFD b) = 0 \<and> rdy sock = POLLOUT)
     \<and> send_ok io \<and> (\<forall>n>0. 0 < bk_send io n)"

lemma writable_select:
  assumes "bk_poll io = poll_ready rdy" and "rdy (BreakerFD b) = 0" and "rdy sock = POLLOUT" and "0 \<le> sock"
    and "0 \<le> BreakerFD b" and "sock \<noteq> BreakerFD b" and "\<not> ss_autoclear sel"
  shows "\<exists>ret s'. block_select io timeout cost b (Exception_FD_SET sock (Write_FD_SET sock (PreSelect b sel))) = Inr (ret, b, s')
    \<and> 0 < ret \<and> \<not> IsException b s' \<and> \<not> IsBreak b s' \<and> Exception_FD_ISSET sock s' = 0 \<and> Write_FD_ISSET sock s' \<noteq> 0
    \<and> \<not> ss_autoclear s'"
proof -
  let ?s = "Exception_FD_SET sock (Write_FD_SET sock (PreSelect b sel))"
  let ?s' = "?s\<lparr>ss_vfds := poll_fds rdy (ss_vfds ?s), ss_ret := fst (poll_ready rdy (ss_vfds ?s) 0), ss_errno := 0\<rparr>"
  have run: "block_select io timeout cost b ?s = Inr (fst (poll_ready rdy (ss_vfds ?s) 0), b, ?s')"
    using assms(1,7) by (simp add: block_select_def Select_forever_def Select_def poll_ready_def Exception_FD_SET_def
        Write_FD_SET_def PreSelect_def)
  have ev: "events_of sock (ss_vfds ?s) = Some ((POLLOUT OR POLLERR) OR POLLERR)"
    using assms(6) by (simp add: Exception_FD_SET_def Write_FD_SET_def PreSelect_def events_of_def breaker_item_def)
  have v: "ss_vfds ?s' = poll_fds rdy (ss_vfds ?s)" by simp
  have quiet: "isset bits (BreakerFD b) ?s' = 0" for bits
    using isset_poll[OF v assms(5), of bits] assms(2) by (simp split: option.splits)
  have exc: "Exception_FD_ISSET sock ?s' = 0"
    unfolding Exception_FD_ISSET_def isset_poll[OF v assms(4)] ev using assms(3)
    by (intro ccontr[of "_ = 0"]) (auto simp: and_nonzero_iff bit_and_iff bit_or_iff)
  have wr: "Write_FD_ISSET sock ?s' \<noteq> 0"
    unfolding Write_FD_ISSET_def isset_poll[OF v assms(4)] ev using assms(3)
    by (auto simp: and_nonzero_iff bit_and_iff bit_or_iff)
  then obtain x where "x \<in> set (poll_fds rdy (ss_vfds ?s))" "prevents x \<noteq> 0"
    using isset_quiet[of ?s'] unfolding Write_FD_ISSET_def v by blast
  then have "filter (\<lambda>x. prevents x \<noteq> 0) (poll_fds rdy (ss_vfds ?s)) \<noteq> []" by (auto simp: filter_empty_conv)
  then have "0 < fst (poll_ready rdy (ss_vfds ?s) 0)" by (simp add: poll_ready_def)
  then show ?thesis
    using run exc wr quiet assms(7)
    by (intro exI[of _ "fst (poll_ready rdy (ss_vfds ?s) 0)"] exI[of _ ?s']) (simp add: IsException_def IsBreak_def Exception_FD_ISSET_def)
qed

lemma send_loop_completes:
  assumes "list_all (can_send b sock) ios" and "len - sent \<le> length ios" and "sent \<le> len" and "len \<le> length buffer" and "len < 2 ^ 31"
    and "0 \<le> sock" and "0 \<le> BreakerFD b" and "sock \<noteq> BreakerFD b" and "\<not> ss_autoclear sel"
  shows "\<exists>evs. block_send_loop ios sock buffer len timeout start cost sent b sel = Inr (Some (int len, 0, b, evs))"
  using assms
proof (induction ios arbitrary: cost sent sel)
  case Nil
  then show ?case by (auto simp: block_send_loop.simps to_int_small)
next
  case (Cons io ios)
  show ?case
  proof (cases "len \<le> sent")
    case True
    then show ?thesis using Cons.prems by (auto simp: block_send_loop.simps to_int_small)
  next
    case False
    obtain rdy where rdy: "bk_poll io = poll_ready rdy" "rdy (BreakerFD b) = 0" "rdy sock = POLLOUT"
      and send: "\<forall>n>0. 0 < bk_send io n \<and> bk_send io n \<le> int n"
      using Cons.prems(1) by (auto simp: can_send_def send_ok_def)
    obtain ret s' where sel: "block_select io timeout cost b (Exception_FD_SET sock (Write_FD_SET sock (PreSelect b sel))) = Inr (ret, b, s')"
      "0 < ret" "\<not> IsException b s'" "\<not> IsBreak b s'" "Exception_FD_ISSET sock s' = 0" "Write_FD_ISSET sock s' \<noteq> 0" "\<not> ss_autoclear s'"
      using writable_select[OF rdy Cons.prems(6,7,8,9)] by blast
    define k where "k = nat (bk_send io (len - sent))"
    have k: "0 < bk_send io (len - sent)" "0 < k" "k \<le> len - sent" 
      using send[rule_format, of "len - sent"] False by (simp_all add: k_def nat_le_iff of_nat_diff)
    have rd: "block_read (Some buffer) (int sent) (len - sent) = Inr (take (len - sent) (drop sent buffer))"
      using False Cons.prems by (simp add: block_read_def get_at_def)
    have "\<exists>evs. block_send_loop ios sock buffer len timeout start (sint (ucast (bk_tick io - start) :: u32)) (sent + k) b s'
        = Inr (Some (int len, 0, b, evs))"
      using Cons.IH[of "sent + k" s'] Cons.prems sel(7) k by simp
    then show ?thesis
      using False sel k(1) by (subst block_send_loop.simps) (auto simp: rd k_def)
  qed
qed

section \<open>Properties\<close>

text \<open>
  \<open>block_socket_connect\<close> never leaks and never double-closes a socket. Whatever the system
  answers, it returns; when it reports \<open>INVALID_SOCKET\<close> every socket it has opened is closed
  again, otherwise the one socket it has opened is the one returned and still open, it was connected to
  the given address without a pending error, and the error code is 0.
\<close>

theorem block_socket_connect_no_leak:
  "\<exists>r err evs. block_socket_connect io address timeout b = Inr (r, err, b, evs)
    \<and> opened evs = closed evs + (if r = INVALID_SOCKET then {#} else {#r#})
    \<and> (r = INVALID_SOCKET \<or> r = io_socket io \<and> err = 0 \<and> socket_error io = 0 \<and> evs = [EvSocket r, EvConnect r address])"
  by (rule connect_runs)

definition demo_block_io :: block_io where
  "demo_block_io =
     \<lparr>io_socket = 9, io_socket_errno = 0, io_nobio = 0, io_nobio_errno = 0, io_connect = -1, io_connect_errno = EINPROGRESS,
      io_getsockopt = 0, io_so_error = 0, io_getsockopt_errno = 0, io_send = 0, io_send_errno = 0, io_recv = 0,
      io_recv_data = [], io_recv_errno = 0, io_t_start = 0, io_t_end = 0, io_t_timeout = 0,
      bk_poll = poll_ready (\<lambda>fd. if fd = 9 then POLLOUT else 0), bk_rd = 0, bk_tick = 0,
      bk_send = (\<lambda>n. int (min n 2)), bk_recv = (\<lambda>n. (int (min n 2), take n [7, 8]))\<rparr>"

text \<open>
  C23: \<open>block_socket_send\<close> sends a prefix and says how long it is. Whatever \<open>select\<close>, the breaker
  and \<open>send\<close> answer in whatever number of rounds, it never reads outside the caller's buffer, and
  when it returns the bytes handed to the system are the first \<open>n\<close> of the buffer, in order and
  without repetition: \<open>n\<close> is the value returned, or the value is -1 and something was left. A return
  of the whole length has the error code 0.
\<close>

theorem block_socket_send_prefix:
  assumes "list_all send_ok ios" and "len \<le> length buffer" and "len < 2 ^ 31"
  shows "\<exists>x. block_socket_send ios start sock buffer len timeout b = Inr x \<and>
    (\<forall>ret err b' evs. x = Some (ret, err, b', evs) \<longrightarrow> b' = b \<and>
      (\<exists>n\<le>len. sent_bytes evs = take n buffer \<and> (ret = -1 \<and> n < len \<or> ret = int n \<and> (n = len \<longrightarrow> err = 0))))"
proof -
  have "\<not> ss_autoclear (SocketSelect_new False)" by simp
  from send_loop_result[OF assms(1) le0 assms(2,3) this, of sock timeout start 0 b]
  obtain x where x: "block_socket_send ios start sock buffer len timeout b = Inr x"
    "\<forall>r. x = Some r \<longrightarrow> send_result buffer len 0 b r"
    by (auto simp: block_socket_send_def)
  show ?thesis
    by (rule exI[of _ x]) (use x in \<open>force simp: send_result_def\<close>)
qed

theorem block_socket_send_prefix_witness:
  "\<exists>x. block_socket_send [demo_block_io, demo_block_io] 0 9 [1, 2, 3, 4, 5] 5 1000 demo_breaker = Inr x \<and>
    (\<forall>ret err b' evs. x = Some (ret, err, b', evs) \<longrightarrow> b' = demo_breaker \<and>
      (\<exists>n\<le>5. sent_bytes evs = take n [1, 2, 3, 4, 5] \<and> (ret = -1 \<and> n < 5 \<or> ret = int n \<and> (n = 5 \<longrightarrow> err = 0))))"
proof -
  have "list_all send_ok [demo_block_io, demo_block_io]"
    by (simp add: send_ok_def demo_block_io_def)
  from block_socket_send_prefix[OF this, of 5 "[1, 2, 3, 4, 5]" 0 9 1000 demo_breaker] show ?thesis by simp
qed

text \<open>
  C24: \<open>block_socket_send\<close> finishes. While the peer accepts data, so that the socket is writable and
  \<open>send\<close> takes at least one byte in each round, and nobody breaks, it returns after at most as many
  rounds as there are bytes, with the full length, the error code 0 and exactly the caller's bytes sent,
  whatever the time limit.
\<close>

theorem block_socket_send_completes:
  assumes "list_all (can_send b sock) ios" and "len \<le> length ios" and "len \<le> length buffer" and "len < 2 ^ 31"
    and "0 \<le> sock" and "0 \<le> BreakerFD b" and "sock \<noteq> BreakerFD b"
  shows "\<exists>evs. block_socket_send ios start sock buffer len timeout b = Inr (Some (int len, 0, b, evs))
    \<and> sent_bytes evs = take len buffer"
proof -
  have ac: "\<not> ss_autoclear (SocketSelect_new False)" by simp
  have "len - 0 \<le> length ios" using assms(2) by simp
  from send_loop_completes[OF assms(1) this le0 assms(3-7) ac, of timeout start 0]
  obtain evs where evs: "block_socket_send ios start sock buffer len timeout b = Inr (Some (int len, 0, b, evs))"
    by (auto simp: block_socket_send_def)
  have "list_all send_ok ios"
    using assms(1) by (auto simp: list_all_iff can_send_def)
  from send_loop_result[OF this le0 assms(3,4) ac, of sock timeout start 0 b] evs
  have "send_result buffer len 0 b (int len, 0, b, evs)" by (auto simp: block_socket_send_def)
  then show ?thesis using evs by (auto simp: send_result_def)
qed

theorem block_socket_send_completes_witness:
  "\<exists>evs. block_socket_send [demo_block_io, demo_block_io, demo_block_io] 0 9 [1, 2, 3] 3 1000 demo_breaker
      = Inr (Some (3, 0, demo_breaker, evs)) \<and> sent_bytes evs = [1, 2, 3]"
proof -
  have "can_send demo_breaker 9 demo_block_io"
    by (auto simp: can_send_def send_ok_def demo_block_io_def demo_breaker_def BreakerFD_def
        intro!: exI[of _ "\<lambda>fd. if fd = 9 then POLLOUT else 0"])
  then have "list_all (can_send demo_breaker 9) [demo_block_io, demo_block_io, demo_block_io]" by simp
  from block_socket_send_completes[OF this, of 3 "[1, 2, 3]" 0 1000] show ?thesis
    by (simp add: demo_breaker_def BreakerFD_def)
qed

text \<open>
  C22: \<open>block_socket_recv\<close> appends what it receives. Whatever \<open>select\<close>, the breaker and \<open>recv\<close>
  answer in whatever number of rounds, it never writes outside the buffer, and when it returns the
  buffer is well formed, at most \<open>_max_size\<close> bytes have been taken from the socket, and either the
  contents are the old ones followed by exactly these bytes and the value returned is their number,
  or the value is -1 and the contents are the old ones.
\<close>

theorem block_socket_recv_appends:
  assumes "list_all recv_ok ios" and "ab_inv buf" and "max_size < 2 ^ 31"
    and "ab_capacity buf - ab_length buf < max_size \<longrightarrow> fits mem_ok (ab_length buf + max_size) buf"
  shows "\<exists>x. block_socket_recv ae mem_ok ios start sock buf max_size timeout wait_full b = Inr x \<and>
    (\<forall>ret err buf' b' evs. x = Some (ret, err, buf', b', evs) \<longrightarrow>
       b' = b \<and> ab_inv buf' \<and> length (received_bytes evs) \<le> max_size \<and>
       (ret = -1 \<and> ab_contents buf' = ab_contents buf
        \<or> ret = int (length (received_bytes evs)) \<and> ab_contents buf' = ab_contents buf @ received_bytes evs))"
proof -
  define room where "room = size_sub (ab_Capacity buf) (ab_Length buf)"
  obtain buf1 where buf1: "(if room < max_size then ab_AddCapacity ae mem_ok (size_sub max_size room) buf else Inr buf) = Inr buf1"
    "recv_state 0 max_size buf1" "ab_contents buf1 = ab_contents buf"
    using recv_room[OF assms(2,3,4), of ae] unfolding room_def by blast
  have "\<not> ss_autoclear (SocketSelect_new False)" by simp
  from recv_loop_result[OF assms(1) buf1(2) this, of ae sock timeout wait_full start 0 b]
  obtain x where x: "block_recv_loop ae ios sock max_size timeout wait_full start 0 0 buf1 b (SocketSelect_new False) = Inr x"
    "\<forall>r. x = Some r \<longrightarrow> recv_result buf1 (pending 0 buf1) max_size b r" by blast
  have "block_socket_recv ae mem_ok ios start sock buf max_size timeout wait_full b = Inr x"
    using x(1) by (simp add: block_socket_recv_def Let_def room_def[symmetric] buf1(1))
  then show ?thesis
    using x(2) buf1(3) by (intro exI[of _ x]) (auto simp: recv_result_def pending_def)
qed

theorem block_socket_recv_appends_witness:
  "\<exists>x. block_socket_recv True (\<lambda>_. True) [demo_block_io, demo_block_io] 0 9 (AutoBuffer_new 128) 100 1000 True demo_breaker = Inr x \<and>
    (\<forall>ret err buf' b' evs. x = Some (ret, err, buf', b', evs) \<longrightarrow>
       b' = demo_breaker \<and> ab_inv buf' \<and> length (received_bytes evs) \<le> 100 \<and>
       (ret = -1 \<and> ab_contents buf' = ab_contents (AutoBuffer_new 128)
        \<or> ret = int (length (received_bytes evs)) \<and> ab_contents buf' = ab_contents (AutoBuffer_new 128) @ received_bytes evs))"
proof -
  have io: "list_all recv_ok [demo_block_io, demo_block_io]"
    by (simp add: recv_ok_def demo_block_io_def min_def)
  have "ab_length (AutoBuffer_new 128) = 0" by (simp add: AutoBuffer_new_def)
  then have f: "ab_inv (AutoBuffer_new 128)" "fits (\<lambda>_. True) (ab_length (AutoBuffer_new 128) + 100) (AutoBuffer_new 128)"
    using AutoBuffer_new_ok(1)[of 128] AutoBuffer_new_ok(2)[of 128 100] by simp_all
  show ?thesis
    by (rule block_socket_recv_appends[OF io f(1)]) (use f(2) in simp_all)
qed

end
