(* ===== verification/TcpClientThread.thy ===== *)
theory TcpClientThread
  imports BlockSocket "HOL-Library.Sublist"
begin

text \<open>
  Model of \<open>network/tcpclient.h\<close> and \<open>network/tcpclient.cc\<close>: a client connection served by a thread of its
  own. The object and the position of its thread in \<open>__Run\<close> are the record \<open>TcpClient\<close>. \<open>__Run\<close> is
  cut where other threads can come in between: around \<open>select\<close>, at the locks, and at the callbacks.
  The member functions read \<open>status_\<close> before they take a lock; the value they saw is an argument, so that it may
  be out of date. A step returns the new state and a trace of system calls, callbacks and
  accepted writes. What \<open>socket_address\<close> makes of the host and port is an argument of the start of the thread;
  options that are set on the socket and only logged are left out. \<open>writedbufid_\<close> and \<open>write_id\<close> are 32-bit.
\<close>

section \<open>State\<close>

datatype TTcpStatus = kTcpInit | kTcpInitErr | kSocketThreadStart | kSocketThreadStartErr | kTcpConnecting | kTcpConnectIpErr
  | kTcpConnectingErr | kTcpConnectTimeoutErr | kTcpConnected | kTcpIOErr | kTcpDisConnectedbyRemote | kTcpDisConnected

text \<open>Positions of the thread; \<open>SocketSelect\<close> is the local variable of \<open>__Run\<close>.\<close>

datatype run_pc =
  PcNone
| PcStart
| PcConnect SocketSelect
| PcLoop
| PcQueue SocketSelect
| PcSelect SocketSelect
| PcRead SocketSelect
| PcWrite SocketSelect
| PcWrote
| PcExit
| PcDone

record TcpClient =
  tc_socket :: int
  tc_have_read_date :: bool
  tc_will_disconnect :: bool
  tc_writedbufid :: u32
  tc_lst_buffer :: "AutoBuffer list"
  tc_pipe :: SocketSelectBreaker
  tc_timeout :: int
  tc_status :: TTcpStatus
  tc_pc :: run_pc
  tc_write_id :: u32

datatype tcp_event =
  TSys sys_event
| OnConnect
| OnDisConnect bool
| OnError TTcpStatus int
| OnWrote int nat
| OnAllWrote
| OnRead
| Written int "byte list"

text \<open>
  The answers of the system during a step of the thread; \<open>cl_socket_error2\<close> is the second \<open>socket_error\<close> on the
  same error, \<open>cl_peek\<close> the result of \<open>recv\<close> with \<open>MSG_PEEK\<close>.
\<close>

record client_io = block_io +
  cl_s_addr :: u32
  cl_addr :: "byte list"
  cl_socket_error2 :: int
  cl_select_errno :: int
  cl_peek :: int

section \<open>Operations of the callers\<close>

definition TcpClient_new :: "SocketSelectBreaker \<Rightarrow> int \<Rightarrow> TcpClient" where
  "TcpClient_new pipe timeout =
     \<lparr>tc_socket = INVALID_SOCKET, tc_have_read_date = False, tc_will_disconnect = False, tc_writedbufid = 0,
      tc_lst_buffer = [], tc_pipe = pipe, tc_timeout = timeout,
      tc_status = (if \<not> IsCreateSuc pipe then kTcpInitErr else kTcpInit), tc_pc = PcNone, tc_write_id = 0\<rparr>"

definition SendBreak :: "int \<Rightarrow> TcpClient \<Rightarrow> TcpClient" where
  "SendBreak wr t = t\<lparr>tc_pipe := snd (Break wr (tc_pipe t))\<rparr>"

text \<open>\<open>Connect\<close>; \<open>ret\<close> is the result of \<open>thread_.start()\<close>.\<close>

definition Connect :: "bool \<Rightarrow> int \<Rightarrow> TcpClient \<Rightarrow> (bool \<times> TcpClient) cres" where
  "Connect sk ret t =
     (if kTcpInit \<noteq> tc_status t then ASSERT sk (kTcpInitErr = tc_status t) (Inr (False, t))
      else
        let t = t\<lparr>tc_status := kSocketThreadStart\<rparr>
        in if 0 \<noteq> ret then Inr (False, t\<lparr>tc_status := kSocketThreadStartErr\<rparr>)
           else Inr (True, t\<lparr>tc_pc := PcStart\<rparr>))"

definition Disconnect :: "int \<Rightarrow> TcpClient \<Rightarrow> TcpClient" where
  "Disconnect wr t = (if tc_will_disconnect t then t else SendBreak wr (t\<lparr>tc_will_disconnect := True\<rparr>))"

definition HaveDataRead :: "TTcpStatus \<Rightarrow> TcpClient \<Rightarrow> bool" where
  "HaveDataRead seen t = (if kTcpConnected \<noteq> seen then False else tc_have_read_date t)"

definition HaveDataWrite :: "TTcpStatus \<Rightarrow> TcpClient \<Rightarrow> bool" where
  "HaveDataWrite seen t = (if kTcpConnected \<noteq> seen then False else tc_lst_buffer t \<noteq> [])"

text \<open>\<open>Read\<close>; \<open>ret\<close> and \<open>data\<close> are what \<open>recv\<close> answers.\<close>

definition Read ::
  "bool \<Rightarrow> TTcpStatus \<Rightarrow> int \<Rightarrow> byte list \<Rightarrow> int \<Rightarrow> TcpClient \<Rightarrow> (int \<times> TcpClient \<times> tcp_event list) cres" where
  "Read sk seen ret data wr t =
     (if kTcpConnected \<noteq> seen then Inr (-1, t, [])
      else ASSERT sk (INVALID_SOCKET \<noteq> tc_socket t)
        (Inr (ret, SendBreak wr (t\<lparr>tc_have_read_date := False\<rparr>), if 0 < ret then [TSys (EvRecv (tc_socket t) data)] else [])))"

text \<open>The end of \<open>Write\<close> and \<open>WritePostData\<close>, under \<open>write_mutex_\<close>.\<close>

definition push_buffer :: "AutoBuffer \<Rightarrow> int \<Rightarrow> TcpClient \<Rightarrow> int \<times> TcpClient" where
  "push_buffer tmpbuff wr t =
     (let t = t\<lparr>tc_lst_buffer := tc_lst_buffer t @ [tmpbuff], tc_writedbufid := tc_writedbufid t + 1\<rparr>
      in (sint (tc_writedbufid t), SendBreak wr t))"

definition Write ::
  "bool \<Rightarrow> (nat \<Rightarrow> bool) \<Rightarrow> TTcpStatus \<Rightarrow> byte list \<Rightarrow> int \<Rightarrow> TcpClient \<Rightarrow> (int \<times> TcpClient \<times> tcp_event list) cres" where
  "Write ae mem_ok seen buf wr t =
     (if kTcpConnected \<noteq> seen then Inr (-1, t, [])
      else
        bindE (ab_WriteAt ae mem_ok 0 (Some buf) (length buf) (AutoBuffer_new 128)) (\<lambda>tmpbuff.
          case push_buffer tmpbuff wr t of (ident, t) \<Rightarrow> Inr (ident, t, [Written ident buf])))"

definition WritePostData :: "TTcpStatus \<Rightarrow> byte list \<Rightarrow> int \<Rightarrow> TcpClient \<Rightarrow> int \<times> TcpClient \<times> tcp_event list" where
  "WritePostData seen buf wr t =
     (if kTcpConnected \<noteq> seen then (-1, t, [])
      else case push_buffer (ab_Attach (Some buf) (length buf) (AutoBuffer_new 128)) wr t of (ident, t) \<Rightarrow>
        (ident, t, [Written ident buf]))"

text \<open>The destructor after the thread has ended: the buffers that are left are deleted.\<close>

definition TcpClient_delete :: "TcpClient \<Rightarrow> TcpClient \<times> AutoBuffer list" where
  "TcpClient_delete t = (t\<lparr>tc_lst_buffer := []\<rparr>, tc_lst_buffer t)"

section \<open>The thread\<close>

definition EADDRNOTAVAIL :: int where "EADDRNOTAVAIL = 99"

text \<open>\<open>status_ = st; event_.OnError(status_, err); return\<close>\<close>

definition run_error :: "TTcpStatus \<Rightarrow> int \<Rightarrow> TcpClient \<Rightarrow> TcpClient \<times> tcp_event list" where
  "run_error st err t = (t\<lparr>tc_status := st, tc_pc := PcExit\<rparr>, [OnError st err])"

definition run_disconnect :: "bool \<Rightarrow> TcpClient \<Rightarrow> TcpClient \<times> tcp_event list" where
  "run_disconnect isremote t = (t\<lparr>tc_status := kTcpDisConnected, tc_pc := PcExit\<rparr>, [OnDisConnect isremote])"

definition run_start :: "client_io \<Rightarrow> TcpClient \<Rightarrow> TcpClient \<times> tcp_event list" where
  "run_start io t =
     (let t = t\<lparr>tc_status := kTcpConnecting\<rparr>
      in if cl_s_addr io = - 1 then run_error kTcpConnectIpErr EADDRNOTAVAIL t
         else
           let t = t\<lparr>tc_socket := io_socket io\<rparr>
           in if tc_socket t = INVALID_SOCKET then run_error kTcpConnectingErr (io_socket_errno io) t
              else
                let evs = [TSys (EvSocket (tc_socket t)), TSys (EvConnect (tc_socket t) (cl_addr io))]
                in if 0 > io_connect io \<and> \<not> IS_NOBLOCK_CONNECT_ERRNO (io_connect_errno io)
                   then (case run_error kTcpConnectingErr (io_connect_errno io) t of (t, evs2) \<Rightarrow> (t, evs @ evs2))
                   else
                     (t\<lparr>tc_pc := PcConnect (Write_FD_SET (tc_socket t) (Exception_FD_SET (tc_socket t)
                                   (PreSelect (tc_pipe t) (SocketSelect_new True))))\<rparr>, evs))"

definition run_connect :: "client_io \<Rightarrow> SocketSelect \<Rightarrow> TcpClient \<Rightarrow> (TcpClient \<times> tcp_event list) cres" where
  "run_connect io sel t =
     bindE (if 0 < tc_timeout t then Select (bk_poll io) (bk_rd io) (tc_timeout t) (tc_pipe t) sel
            else Select_forever (bk_poll io) (bk_rd io) (tc_pipe t) sel) (\<lambda>(selectRet, pipe, sel).
     let t = t\<lparr>tc_pipe := pipe\<rparr>
     in Inr (if 0 = selectRet then run_error kTcpConnectTimeoutErr ETIMEDOUT t
             else if selectRet < 0 then run_error kTcpConnectingErr (cl_select_errno io) t
             else if Exception_FD_ISSET (tc_socket t) sel \<noteq> 0 then run_error kTcpConnectingErr (socket_error io) t
             else if Write_FD_ISSET (tc_socket t) sel \<noteq> 0 \<and> 0 \<noteq> socket_error io
             then run_error kTcpConnectingErr (cl_socket_error2 io) t
             else if tc_will_disconnect t then run_disconnect False t
             else (t\<lparr>tc_status := kTcpConnected, tc_pc := PcLoop\<rparr>, [OnConnect])))"

text \<open>The loop, from the top to \<open>select\<close>.\<close>

definition run_loop :: "TcpClient \<Rightarrow> TcpClient" where
  "run_loop t =
     (let sel = Exception_FD_SET (tc_socket t) (PreSelect (tc_pipe t) (SocketSelect_new True))
      in t\<lparr>tc_pc := PcQueue (if \<not> tc_have_read_date t then Read_FD_SET (tc_socket t) sel else sel)\<rparr>)"

definition run_queue :: "SocketSelect \<Rightarrow> TcpClient \<Rightarrow> TcpClient" where
  "run_queue sel t = t\<lparr>tc_pc := PcSelect (if tc_lst_buffer t \<noteq> [] then Write_FD_SET (tc_socket t) sel else sel)\<rparr>"

definition run_select :: "bool \<Rightarrow> client_io \<Rightarrow> SocketSelect \<Rightarrow> TcpClient \<Rightarrow> (TcpClient \<times> tcp_event list) cres" where
  "run_select sk io sel t =
     bindE (Select_forever (bk_poll io) (bk_rd io) (tc_pipe t) sel) (\<lambda>(selectRet, pipe, sel).
     let t = t\<lparr>tc_pipe := pipe\<rparr>
     in if 0 = selectRet then ASSERT sk False (Inr (t\<lparr>tc_pc := PcLoop\<rparr>, []))
        else if 0 > selectRet then Inr (run_error kTcpIOErr (cl_select_errno io) t)
        else if tc_will_disconnect t then Inr (run_disconnect False t)
        else if Exception_FD_ISSET (tc_socket t) sel \<noteq> 0
        then Inr (run_error kTcpIOErr (if 0 = io_getsockopt io then io_so_error io else 0) t)
        else Inr (t\<lparr>tc_pc := PcRead sel\<rparr>, []))"

definition run_read :: "client_io \<Rightarrow> SocketSelect \<Rightarrow> TcpClient \<Rightarrow> TcpClient \<times> tcp_event list" where
  "run_read io sel t =
     (if Read_FD_ISSET (tc_socket t) sel \<noteq> 0 then
        let ret = cl_peek io
        in if 0 < ret then (t\<lparr>tc_have_read_date := True, tc_pc := PcWrite sel\<rparr>, [OnRead])
           else if 0 = ret then run_disconnect True (t\<lparr>tc_have_read_date := False\<rparr>)
           else if IS_NOBLOCK_READ_ERRNO (io_recv_errno io) then (t\<lparr>tc_pc := PcWrite sel\<rparr>, [])
           else run_error kTcpIOErr (io_recv_errno io) t
      else (t\<lparr>tc_pc := PcWrite sel\<rparr>, []))"

text \<open>\<open>lst_buffer_.front()\<close> of an empty list is outside the list.\<close>

definition run_write :: "client_io \<Rightarrow> SocketSelect \<Rightarrow> TcpClient \<Rightarrow> (TcpClient \<times> tcp_event list) cres" where
  "run_write io sel t =
     (if Write_FD_ISSET (tc_socket t) sel \<noteq> 0 then
        case tc_lst_buffer t of
          [] \<Rightarrow> Inl MemFault
        | buf # bufs \<Rightarrow>
            let len = ab_Length buf
            in if ab_Pos buf < to_off len then
                 bindE (block_read (ab_parray buf) (ab_Pos buf) (size_sub len (to_size (ab_Pos buf)))) (\<lambda>bytes.
                 let send_len = sint (word_of_int (bk_send io (size_sub len (to_size (ab_Pos buf)))) :: u32)
                 in if 0 = send_len \<or> 0 > send_len \<and> \<not> IS_NOBLOCK_WRITE_ERRNO (io_send_errno io)
                    then Inr (run_error kTcpIOErr (io_send_errno io) t)
                    else if 0 < send_len
                    then Inr (t\<lparr>tc_lst_buffer := ab_Seek send_len SeekCur buf # bufs, tc_pc := PcLoop\<rparr>,
                              [TSys (EvSend (tc_socket t) (take (nat send_len) bytes))])
                    else Inr (t\<lparr>tc_pc := PcLoop\<rparr>, []))
               else
                 let write_id = tc_write_id t + 1
                 in Inr (t\<lparr>tc_lst_buffer := bufs, tc_write_id := write_id, tc_pc := PcWrote\<rparr>, [OnWrote (sint write_id) len])
      else Inr (t\<lparr>tc_pc := PcLoop\<rparr>, []))"

definition run_wrote :: "TcpClient \<Rightarrow> TcpClient \<times> tcp_event list" where
  "run_wrote t = (t\<lparr>tc_pc := PcLoop\<rparr>, if tc_lst_buffer t = [] then [OnAllWrote] else [])"

text \<open>\<open>__RunThread\<close> after \<open>__Run\<close>.\<close>

definition run_exit :: "TcpClient \<Rightarrow> TcpClient \<times> tcp_event list" where
  "run_exit t =
     (if INVALID_SOCKET \<noteq> tc_socket t
      then (t\<lparr>tc_socket := INVALID_SOCKET, tc_pc := PcDone\<rparr>, [TSys (EvClose (tc_socket t))])
      else (t\<lparr>tc_pc := PcDone\<rparr>, []))"

definition run_step :: "bool \<Rightarrow> client_io \<Rightarrow> TcpClient \<Rightarrow> (TcpClient \<times> tcp_event list) cres" where
  "run_step sk io t =
     (case tc_pc t of
        PcNone \<Rightarrow> Inr (t, [])
      | PcStart \<Rightarrow> Inr (run_start io t)
      | PcConnect sel \<Rightarrow> run_connect io sel t
      | PcLoop \<Rightarrow> Inr (run_loop t, [])
      | PcQueue sel \<Rightarrow> Inr (run_queue sel t, [])
      | PcSelect sel \<Rightarrow> run_select sk io sel t
      | PcRead sel \<Rightarrow> Inr (run_read io sel t)
      | PcWrite sel \<Rightarrow> run_write io sel t
      | PcWrote \<Rightarrow> Inr (run_wrote t)
      | PcExit \<Rightarrow> Inr (run_exit t)
      | PcDone \<Rightarrow> Inr (t, []))"

text \<open>Calls of any thread and steps of the connection's own thread, in any order.\<close>

datatype client_op =
  OpConnect int
| OpDisconnect int
| OpRead TTcpStatus int "byte list" int
| OpWrite TTcpStatus "byte list" int
| OpWritePost TTcpStatus "byte list" int
| OpRun client_io

fun client_exec :: "bool \<Rightarrow> bool \<Rightarrow> (nat \<Rightarrow> bool) \<Rightarrow> client_op \<Rightarrow> TcpClient \<Rightarrow> (TcpClient \<times> tcp_event list) cres" where
  "client_exec sk ae mem_ok (OpConnect ret) t = bindE (Connect sk ret t) (\<lambda>(_, t). Inr (t, []))"
| "client_exec sk ae mem_ok (OpDisconnect wr) t = Inr (Disconnect wr t, [])"
| "client_exec sk ae mem_ok (OpRead seen ret data wr) t = bindE (Read sk seen ret data wr t) (\<lambda>(_, t, evs). Inr (t, evs))"
| "client_exec sk ae mem_ok (OpWrite seen buf wr) t = bindE (Write ae mem_ok seen buf wr t) (\<lambda>(_, t, evs). Inr (t, evs))"
| "client_exec sk ae mem_ok (OpWritePost seen buf wr) t = Inr (snd (WritePostData seen buf wr t))"
| "client_exec sk ae mem_ok (OpRun io) t = run_step sk io t"

fun client_run ::
  "bool \<Rightarrow> bool \<Rightarrow> (nat \<Rightarrow> bool) \<Rightarrow> client_op list \<Rightarrow> TcpClient \<Rightarrow> (TcpClient \<times> tcp_event list) cres" where
  "client_run sk ae mem_ok [] t = Inr (t, [])"
| "client_run sk ae mem_ok (op # ops) t =
     bindE (client_exec sk ae mem_ok op t) (\<lambda>(t, evs1).
     bindE (client_run sk ae mem_ok ops t) (\<lambda>(t, evs2). Inr (t, evs1 @ evs2)))"

section \<open>Views of a trace\<close>

fun tsys :: "tcp_event list \<Rightarrow> sys_event list" where
  "tsys [] = []"
| "tsys (TSys e # evs) = e # tsys evs"
| "tsys (_ # evs) = tsys evs"

text \<open>Accepted writes with their identifiers, and the \<open>OnWrote\<close> notifications.\<close>

fun writes :: "tcp_event list \<Rightarrow> (int \<times> byte list) list" where
  "writes [] = []"
| "writes (Written ident bs # evs) = (ident, bs) # writes evs"
| "writes (_ # evs) = writes evs"

fun wrotes :: "tcp_event list \<Rightarrow> (int \<times> nat) list" where
  "wrotes [] = []"
| "wrotes (OnWrote ident n # evs) = (ident, n) # wrotes evs"
| "wrotes (_ # evs) = wrotes evs"

fun callbacks :: "tcp_event list \<Rightarrow> tcp_event list" where
  "callbacks [] = []"
| "callbacks (TSys e # evs) = callbacks evs"
| "callbacks (Written ident bs # evs) = callbacks evs"
| "callbacks (e # evs) = e # callbacks evs"

lemma tsys_append [simp]: "tsys (xs @ ys) = tsys xs @ tsys ys" by (induction xs rule: tsys.induct) simp_all
lemma writes_append [simp]: "writes (xs @ ys) = writes xs @ writes ys" by (induction xs rule: writes.induct) simp_all
lemma wrotes_append [simp]: "wrotes (xs @ ys) = wrotes xs @ wrotes ys" by (induction xs rule: wrotes.induct) simp_all
lemma callbacks_append [simp]: "callbacks (xs @ ys) = callbacks xs @ callbacks ys" by (induction xs rule: callbacks.induct) simp_all

section \<open>The streams\<close>

text \<open>What is left to send of a buffer; the \<open>n\<close>th identifier.\<close>

definition unsent :: "AutoBuffer \<Rightarrow> byte list" where
  "unsent b = drop (nat (ab_pos b)) (ab_contents b)"

definition ident :: "nat \<Rightarrow> int" where
  "ident n = sint (of_nat n :: u32)"

definition numbered :: "(int \<times> 'b) list \<Rightarrow> bool" where
  "numbered xs \<longleftrightarrow> map fst xs = map ident [1..<Suc (length xs)]"

lemma numbered_Nil [simp]: "numbered []"
  by (simp add: numbered_def)

lemma numbered_snoc [simp]: "numbered (xs @ [(k, x)]) \<longleftrightarrow> numbered xs \<and> k = ident (Suc (length xs))"
  by (auto simp: numbered_def)

definition stream_inv :: "TcpClient \<Rightarrow> tcp_event list \<Rightarrow> bool" where
  "stream_inv t tr \<longleftrightarrow> concat (map snd (writes tr)) = sent_bytes (tsys tr) @ concat (map unsent (tc_lst_buffer t))
     \<and> map (length \<circ> snd) (writes tr) = map snd (wrotes tr) @ map ab_length (tc_lst_buffer t)
     \<and> numbered (writes tr) \<and> tc_writedbufid t = of_nat (length (writes tr))
     \<and> numbered (wrotes tr) \<and> tc_write_id t = of_nat (length (wrotes tr))"

lemma stream_frame:
  assumes "stream_inv t tr" and "tc_lst_buffer t' = tc_lst_buffer t" "tc_writedbufid t' = tc_writedbufid t" "tc_write_id t' = tc_write_id t"
    and "writes evs = []" "wrotes evs = []" "sent_bytes (tsys evs) = []"
  shows "stream_inv t' (tr @ evs)"
  using assms by (simp add: stream_inv_def)

lemma stream_pushed:
  assumes "stream_inv t tr" and "unsent b = bs" and "ab_length b = length bs"
    and "push_buffer b wr t = (n, t')"
  shows "stream_inv t' (tr @ [Written n bs])"
  using assms by (auto simp: stream_inv_def push_buffer_def SendBreak_def ident_def add.commute)

lemma stream_sent:
  assumes "stream_inv t tr" and "tc_lst_buffer t = b # bs" and "unsent b = out @ unsent b'" and "ab_length b' = ab_length b"
  shows "stream_inv (t\<lparr>tc_lst_buffer := b' # bs, tc_pc := pc\<rparr>) (tr @ [TSys (EvSend sock out)])"
  using assms by (simp add: stream_inv_def)

lemma stream_popped:
  assumes "stream_inv t tr" and "tc_lst_buffer t = b # bs" and "unsent b = []"
  shows "stream_inv (t\<lparr>tc_lst_buffer := bs, tc_write_id := tc_write_id t + 1, tc_pc := pc\<rparr>) (tr @ [OnWrote (sint (tc_write_id t + 1)) (ab_length b)])"
  using assms by (simp add: stream_inv_def ident_def add.commute)

section \<open>The life of the connection\<close>

fun mid_event :: "tcp_event \<Rightarrow> bool" where
  "mid_event (OnWrote n len) = True"
| "mid_event OnAllWrote = True"
| "mid_event OnRead = True"
| "mid_event _ = False"

fun final_event :: "tcp_event \<Rightarrow> bool" where
  "final_event (OnDisConnect r) = True"
| "final_event (OnError st err) = True"
| "final_event _ = False"

fun in_loop :: "run_pc \<Rightarrow> bool" where
  "in_loop PcLoop = True"
| "in_loop (PcQueue sel) = True"
| "in_loop (PcSelect sel) = True"
| "in_loop (PcRead sel) = True"
| "in_loop (PcWrite sel) = True"
| "in_loop PcWrote = True"
| "in_loop _ = False"

text \<open>No callback; \<open>OnConnect\<close> and then traffic; the same with a final callback.\<close>

definition up :: "tcp_event list \<Rightarrow> bool" where
  "up cbs \<longleftrightarrow> (\<exists>xs. cbs = OnConnect # xs \<and> list_all mid_event xs)"

definition over :: "tcp_event list \<Rightarrow> bool" where
  "over cbs \<longleftrightarrow> (\<exists>xs e. cbs = xs @ [e] \<and> final_event e \<and> (xs = [] \<or> up xs))"

definition life_inv :: "TcpClient \<Rightarrow> tcp_event list \<Rightarrow> bool" where
  "life_inv t tr \<longleftrightarrow>
     (if in_loop (tc_pc t) then up (callbacks tr) \<and> tc_status t = kTcpConnected
      else if tc_pc t = PcExit \<or> tc_pc t = PcDone then over (callbacks tr) \<and> tc_status t \<notin> {kTcpInit, kTcpConnected}
      else callbacks tr = [] \<and> tc_status t \<noteq> kTcpConnected \<and> (tc_status t = kTcpInit \<longrightarrow> tc_pc t = PcNone))"

lemma up_more: "up cbs \<Longrightarrow> list_all mid_event xs \<Longrightarrow> up (cbs @ xs)"
  by (auto simp: up_def)

lemma over_first: "final_event e \<Longrightarrow> over [e]"
  by (auto simp: over_def)

lemma over_up: "up cbs \<Longrightarrow> final_event e \<Longrightarrow> over (cbs @ [e])"
  by (auto simp: over_def)

lemma final_not_mid: "final_event e \<Longrightarrow> \<not> mid_event e"
  by (cases e) simp_all

lemma up_first: "up [OnConnect]"
  by (simp add: up_def)

section \<open>The invariant\<close>

definition cl_held :: "TcpClient \<Rightarrow> int multiset" where
  "cl_held t = (if tc_socket t = INVALID_SOCKET then {#} else {#tc_socket t#})"

definition ledger_inv :: "TcpClient \<Rightarrow> tcp_event list \<Rightarrow> bool" where
  "ledger_inv t tr \<longleftrightarrow> opened (tsys tr) = closed (tsys tr) + cl_held t
     \<and> (tc_pc t \<in> {PcNone, PcStart, PcDone} \<longrightarrow> tc_socket t = INVALID_SOCKET)"

definition queue_buf :: "AutoBuffer \<Rightarrow> bool" where
  "queue_buf b \<longleftrightarrow> ab_inv b \<and> ab_length b < 2 ^ 31"

text \<open>No request for writing on \<open>sock\<close>.\<close>

definition no_write :: "int \<Rightarrow> SocketSelect \<Rightarrow> bool" where
  "no_write sock sel \<longleftrightarrow> (\<forall>e. events_of sock (ss_vfds sel) = Some e \<longrightarrow> \<not> bit e 2)"

text \<open>Writing is requested and reported only while there is something to write.\<close>

definition pc_inv :: "TcpClient \<Rightarrow> bool" where
  "pc_inv t \<longleftrightarrow> list_all queue_buf (tc_lst_buffer t) \<and>
     (case tc_pc t of
        PcConnect sel \<Rightarrow> ss_vfds sel \<noteq> []
      | PcQueue sel \<Rightarrow> ss_vfds sel \<noteq> [] \<and> no_write (tc_socket t) sel
      | PcSelect sel \<Rightarrow> ss_vfds sel \<noteq> [] \<and> (tc_lst_buffer t = [] \<longrightarrow> no_write (tc_socket t) sel)
      | PcRead sel \<Rightarrow> tc_lst_buffer t = [] \<longrightarrow> Write_FD_ISSET (tc_socket t) sel = 0
      | PcWrite sel \<Rightarrow> tc_lst_buffer t = [] \<longrightarrow> Write_FD_ISSET (tc_socket t) sel = 0
      | _ \<Rightarrow> True)"

definition client_inv :: "TcpClient \<Rightarrow> tcp_event list \<Rightarrow> bool" where
  "client_inv t tr \<longleftrightarrow> pc_inv t \<and> stream_inv t tr \<and> life_inv t tr \<and> ledger_inv t tr"

text \<open>
  The environment: \<open>poll\<close> reports what was asked for or an error condition, \<open>send\<close> does not take more than
  offered, a buffer can be allocated and its length is an \<open>int\<close>.
\<close>

definition poll_sane :: "client_io \<Rightarrow> bool" where
  "poll_sane io \<longleftrightarrow> (\<forall>v ms. case bk_poll io v ms of (ret, v', en) \<Rightarrow> 0 < ret \<longrightarrow> (\<exists>rdy. v' = poll_fds rdy v))"

fun op_ok :: "(nat \<Rightarrow> bool) \<Rightarrow> client_op \<Rightarrow> bool" where
  "op_ok mem_ok (OpWrite seen buf wr) \<longleftrightarrow> fits mem_ok (length buf) (AutoBuffer_new 128)"
| "op_ok mem_ok (OpWritePost seen buf wr) \<longleftrightarrow> length buf < 2 ^ 31"
| "op_ok mem_ok (OpRun io) \<longleftrightarrow> poll_sane io \<and> (\<forall>n. -1 \<le> bk_send io n \<and> bk_send io n \<le> int n)"
| "op_ok mem_ok _ \<longleftrightarrow> True"

section \<open>Every step keeps the invariant\<close>

lemma no_write_isset:
  assumes "no_write sock sel" and "ss_vfds sel' = poll_fds rdy (ss_vfds sel)"
  shows "Write_FD_ISSET sock sel' = 0"
proof (cases "find (\<lambda>x. pfd x = sock) (ss_vfds sel)")
  case None
  then show ?thesis using assms(2) by (simp add: Write_FD_ISSET_def isset_def find_poll_fds)
next
  case (Some x)
  then have "\<not> bit (pevents x) 2" using assms(1) by (simp add: no_write_def events_of_def)
  then have "(rdy (pfd x) AND (pevents x OR (POLLERR OR POLLHUP OR POLLNVAL))) AND POLLOUT = 0"
    by (intro ccontr[of "_ = 0"]) (auto simp: and_nonzero_iff bit_and_iff bit_or_iff)
  then show ?thesis using Some assms(2) by (simp add: Write_FD_ISSET_def isset_def find_poll_fds)
qed

lemma no_write_sets:
  "no_write sock (PreSelect b s)"
  "no_write sock s \<Longrightarrow> no_write sock (Exception_FD_SET k s)" "no_write sock s \<Longrightarrow> no_write sock (Read_FD_SET k s)"
  by (auto simp: no_write_def PreSelect_def Exception_FD_SET_def Read_FD_SET_def events_of_add breaker_item_def bit_or_iff
      events_of_def[of _ "[_]"] split: option.splits)

lemma SendBreak_frame [simp]:
  "tc_socket (SendBreak wr t) = tc_socket t" "tc_lst_buffer (SendBreak wr t) = tc_lst_buffer t" "tc_pc (SendBreak wr t) = tc_pc t"
  "tc_status (SendBreak wr t) = tc_status t" "tc_writedbufid (SendBreak wr t) = tc_writedbufid t"
  "tc_write_id (SendBreak wr t) = tc_write_id t" "tc_have_read_date (SendBreak wr t) = tc_have_read_date t"
  by (simp_all add: SendBreak_def)

lemma pc_inv_cong:
  assumes "tc_lst_buffer t' = tc_lst_buffer t" "tc_pc t' = tc_pc t" "tc_socket t' = tc_socket t"
  shows "pc_inv t' = pc_inv t"
  unfolding pc_inv_def assms by (rule refl)

lemma life_inv_cong:
  assumes "tc_pc t' = tc_pc t" "tc_status t' = tc_status t" "callbacks evs = []"
  shows "life_inv t' (tr @ evs) = life_inv t tr"
  unfolding life_inv_def assms callbacks_append append_Nil2 by (rule refl)

lemma ledger_inv_cong:
  assumes "tc_pc t' = tc_pc t" "tc_socket t' = tc_socket t" "opened (tsys evs) = {#}" "closed (tsys evs) = {#}"
  shows "ledger_inv t' (tr @ evs) = ledger_inv t tr"
  using assms by (simp add: ledger_inv_def cl_held_def)

text \<open>A step that leaves the thread and the queue alone.\<close>

lemma client_inv_frame:
  assumes "client_inv t tr" and "tc_lst_buffer t' = tc_lst_buffer t" "tc_writedbufid t' = tc_writedbufid t"
    "tc_write_id t' = tc_write_id t" "tc_pc t' = tc_pc t" "tc_socket t' = tc_socket t" "tc_status t' = tc_status t"
    and "writes evs = []" "wrotes evs = []" "sent_bytes (tsys evs) = []" "callbacks evs = []" "opened (tsys evs) = {#}" "closed (tsys evs) = {#}"
  shows "client_inv t' (tr @ evs)"
  using assms stream_frame[of t tr t' evs] pc_inv_cong[of t' t] life_inv_cong[of t' t evs tr] ledger_inv_cong[of t' t evs tr]
  by (simp add: client_inv_def)

lemma Connect_inv:
  assumes "client_inv t tr"
  shows "\<exists>r t'. Connect False ret t = Inr (r, t') \<and> client_inv t' tr"
proof (cases "tc_status t = kTcpInit")
  case False
  then have "Connect False ret t = Inr (False, t)" by (simp add: Connect_def)
  then show ?thesis using assms by blast
next
  case True
  then have pc: "tc_pc t = PcNone" "callbacks tr = []"
    using assms by (auto simp: client_inv_def life_inv_def split: if_splits)
  define t' where "t' = (if 0 \<noteq> ret then t\<lparr>tc_status := kSocketThreadStartErr\<rparr> else t\<lparr>tc_status := kSocketThreadStart, tc_pc := PcStart\<rparr>)"
  have "stream_inv t' (tr @ [])" using assms by (intro stream_frame[of t]) (simp_all add: client_inv_def t'_def)
  then have "client_inv t' tr"
    using assms pc by (simp add: client_inv_def pc_inv_def life_inv_def ledger_inv_def cl_held_def t'_def)
  moreover have "Connect False ret t = Inr (ret = 0, t')" using True by (simp add: Connect_def Let_def t'_def)
  ultimately show ?thesis by blast
qed

lemma push_inv:
  assumes "client_inv t tr" and "queue_buf b" and "unsent b = bs" and "ab_length b = length bs" and "push_buffer b wr t = (n, t')"
  shows "client_inv t' (tr @ [Written n bs])"
proof -
  have t': "tc_lst_buffer t' = tc_lst_buffer t @ [b]" "tc_pc t' = tc_pc t" "tc_socket t' = tc_socket t" "tc_status t' = tc_status t"
    using assms(5) by (auto simp: push_buffer_def Let_def)
  have "pc_inv t'" using assms(1,2) t' by (auto simp: client_inv_def pc_inv_def split: run_pc.splits)
  then show ?thesis
    using assms(1) stream_pushed[OF _ assms(3,4,5)] t' life_inv_cong[of t' t "[Written n bs]" tr]
      ledger_inv_cong[of t' t "[Written n bs]" tr] by (simp add: client_inv_def)
qed

lemma Write_inv:
  assumes "client_inv t tr" and "fits mem_ok (length buf) (AutoBuffer_new 128)"
  shows "\<exists>r t' evs. Write ae mem_ok seen buf wr t = Inr (r, t', evs) \<and> client_inv t' (tr @ evs)"
proof (cases "seen = kTcpConnected")
  case True
  have inv: "ab_inv (AutoBuffer_new 128)" by (rule AutoBuffer_new_ok) simp_all
  obtain b where b: "ab_WriteAt ae mem_ok 0 (Some buf) (length buf) (AutoBuffer_new 128) = Inr b" "ab_inv b"
    "ab_contents b = put_at (ab_contents (AutoBuffer_new 128)) (nat 0) buf" "ab_pos b = ab_pos (AutoBuffer_new 128)"
    "ab_length b = max (nat 0 + length buf) (ab_length (AutoBuffer_new 128))"
    using WriteAt_ok[OF inv, of 0 mem_ok buf ae] assms(2) by auto
  have "unsent b = buf" "ab_length b = length buf" using b by (simp_all add: unsent_def put_at_def)
  moreover have "queue_buf b" using b(2,5) assms(2) by (simp add: queue_buf_def fits_def)
  ultimately show ?thesis
    using True b(1) push_inv[OF assms(1), of b buf wr] by (auto simp: Write_def split: prod.splits)
qed (use assms(1) in \<open>simp add: Write_def\<close>)

lemma WritePost_inv:
  assumes "client_inv t tr" and "length buf < 2 ^ 31"
  shows "\<exists>r t' evs. WritePostData seen buf wr t = (r, t', evs) \<and> client_inv t' (tr @ evs)"
proof (cases "seen = kTcpConnected")
  case True
  define b where "b = ab_Attach (Some buf) (length buf) (AutoBuffer_new 128)"
  have "unsent b = buf" "ab_length b = length buf" "queue_buf b"
    using assms(2) by (simp_all add: b_def unsent_def ab_Attach_def ab_Reset_def AutoBuffer_new_def ab_contents_def queue_buf_def ab_inv_def)
  then show ?thesis
    using True push_inv[OF assms(1), of b buf wr] by (auto simp: WritePostData_def b_def split: prod.splits)
qed (use assms(1) in \<open>simp add: WritePostData_def\<close>)

text \<open>The end of \<open>__Run\<close>, before and after the connection is up.\<close>

lemma run_over_inv:
  assumes "client_inv t tr" and "in_loop (tc_pc t)" and "final_event e" and "st \<notin> {kTcpInit, kTcpConnected}"
    and "callbacks [e] = [e]" "writes [e] = []" "wrotes [e] = []" "tsys [e] = []"
    and "t' = t\<lparr>tc_status := st, tc_pc := PcExit, tc_pipe := p, tc_have_read_date := h\<rparr>"
  shows "client_inv t' (tr @ [e])"
proof -
  have "stream_inv t' (tr @ [e])" using assms by (intro stream_frame[of t]) (simp_all add: client_inv_def)
  moreover have "pc_inv t'" using assms by (simp add: client_inv_def pc_inv_def)
  moreover have "life_inv t' (tr @ [e])" using assms over_up by (auto simp: client_inv_def life_inv_def)
  ultimately show ?thesis using assms by (simp add: client_inv_def ledger_inv_def cl_held_def)
qed

lemma run_failed_inv:
  assumes "client_inv t tr" and "\<not> in_loop (tc_pc t)" "tc_pc t \<noteq> PcExit" "tc_pc t \<noteq> PcDone" and "final_event e" and "st \<notin> {kTcpInit, kTcpConnected}"
    and "callbacks [e] = [e]" "writes [e] = []" "wrotes [e] = []" "tsys [e] = []"
    and "t' = t\<lparr>tc_status := st, tc_pc := PcExit, tc_pipe := p\<rparr>"
  shows "client_inv t' (tr @ [e])"
proof -
  have "stream_inv t' (tr @ [e])" using assms by (intro stream_frame[of t]) (simp_all add: client_inv_def)
  moreover have "pc_inv t'" using assms by (simp add: client_inv_def pc_inv_def)
  moreover have "life_inv t' (tr @ [e])" using assms over_first by (auto simp: client_inv_def life_inv_def)
  ultimately show ?thesis using assms by (simp add: client_inv_def ledger_inv_def cl_held_def)
qed

lemma run_start_inv:
  assumes "client_inv t tr" and "tc_pc t = PcStart"
  shows "client_inv (fst (run_start io t)) (tr @ snd (run_start io t))"
proof -
  have base: "callbacks tr = []" "opened (tsys tr) = closed (tsys tr)" "list_all queue_buf (tc_lst_buffer t)" "stream_inv t tr"
    "tc_socket t = INVALID_SOCKET"
    using assms by (simp_all add: client_inv_def life_inv_def ledger_inv_def cl_held_def pc_inv_def)
  define t1 where "t1 = fst (run_start io t)"
  define evs where "evs = snd (run_start io t)"
  note d = t1_def evs_def run_start_def run_error_def Let_def
  have frame: "tc_lst_buffer t1 = tc_lst_buffer t" "tc_writedbufid t1 = tc_writedbufid t" "tc_write_id t1 = tc_write_id t"
    "writes evs = []" "wrotes evs = []" "sent_bytes (tsys evs) = []" by (simp_all add: d)
  have "stream_inv t1 (tr @ evs)" using base(4) frame by (rule stream_frame)
  moreover have "pc_inv t1" using base(3) by (simp add: d pc_inv_def)
  moreover have "life_inv t1 (tr @ evs)" using base(1) by (simp add: d life_inv_def over_first)
  moreover have "ledger_inv t1 (tr @ evs)" using base(2,5) by (simp add: d ledger_inv_def cl_held_def)
  ultimately show ?thesis by (simp add: client_inv_def t1_def evs_def)
qed

lemma Select_any:
  assumes "ss_vfds s \<noteq> []"
  shows "\<exists>ret v en p. poll (ss_vfds s) ms = (ret, v, en) \<and> Select poll rd ms b s = Inr (ret, p, s\<lparr>ss_vfds := v, ss_ret := ret, ss_errno := (if 0 > ret then en else ss_errno s)\<rparr>)"
  using assms by (cases "poll (ss_vfds s) ms") (simp add: Select_def)

lemma client_inv_pipe [simp]: "client_inv (t\<lparr>tc_pipe := p\<rparr>) tr = client_inv t tr"
proof -
  have "pc_inv (t\<lparr>tc_pipe := p\<rparr>) = pc_inv t" by (rule pc_inv_cong) simp_all
  then show ?thesis by (simp add: client_inv_def stream_inv_def life_inv_def ledger_inv_def cl_held_def)
qed

lemma run_InrI:
  assumes "r = Inr p" and "client_inv (fst p) (tr @ snd p)"
  shows "\<exists>t' evs. r = Inr (t', evs) \<and> client_inv t' (tr @ evs)"
  using assms by (cases p) simp

lemma run_connect_inv:
  assumes "client_inv t tr" and "tc_pc t = PcConnect sel"
  shows "\<exists>t' evs. run_connect io sel t = Inr (t', evs) \<and> client_inv t' (tr @ evs)"
proof -
  have "ss_vfds sel \<noteq> []" using assms by (simp add: client_inv_def pc_inv_def)
  then obtain ret p sel' where s: "(if 0 < tc_timeout t then Select (bk_poll io) (bk_rd io) (tc_timeout t) (tc_pipe t) sel
            else Select_forever (bk_poll io) (bk_rd io) (tc_pipe t) sel) = Inr (ret, p, sel')"
    using Select_any[of sel "bk_poll io" _ "bk_rd io" "tc_pipe t"] unfolding Select_forever_def by (cases "0 < tc_timeout t") fastforce+
  define t1 where "t1 = t\<lparr>tc_pipe := p\<rparr>"
  have t1: "client_inv t1 tr" "tc_pc t1 = PcConnect sel" using assms by (simp_all add: t1_def)
  have fail: "client_inv (fst (run_error st err t1)) (tr @ snd (run_error st err t1))" if "st \<notin> {kTcpInit, kTcpConnected}" for st err
    using that t1(2) unfolding run_error_def fst_conv snd_conv
    by (intro run_failed_inv[OF t1(1), where p = p and st = st]) (simp_all add: t1_def)
  have disc: "client_inv (fst (run_disconnect False t1)) (tr @ snd (run_disconnect False t1))"
    using t1(2) unfolding run_disconnect_def fst_conv snd_conv
    by (intro run_failed_inv[OF t1(1), where p = p and st = kTcpDisConnected]) (simp_all add: t1_def)
  have conn: "client_inv (t1\<lparr>tc_status := kTcpConnected, tc_pc := PcLoop\<rparr>) (tr @ [OnConnect])"
    using t1 by (simp add: client_inv_def pc_inv_def life_inv_def ledger_inv_def cl_held_def stream_inv_def up_first)
  have run: "run_connect io sel t = Inr (if 0 = ret then run_error kTcpConnectTimeoutErr ETIMEDOUT t1
      else if ret < 0 then run_error kTcpConnectingErr (cl_select_errno io) t1
      else if Exception_FD_ISSET (tc_socket t1) sel' \<noteq> 0 then run_error kTcpConnectingErr (socket_error io) t1
      else if Write_FD_ISSET (tc_socket t1) sel' \<noteq> 0 \<and> 0 \<noteq> socket_error io then run_error kTcpConnectingErr (cl_socket_error2 io) t1
      else if tc_will_disconnect t1 then run_disconnect False t1
      else (t1\<lparr>tc_status := kTcpConnected, tc_pc := PcLoop\<rparr>, [OnConnect]))"
    unfolding run_connect_def s t1_def by (simp add: Let_def)
  show ?thesis by (rule run_InrI[OF run]) (use fail disc conn in simp)
qed

lemma run_loop_inv:
  assumes "client_inv t tr" and "tc_pc t = PcLoop"
  shows "client_inv (run_loop t) tr"
  using assms no_write_sets
  by (simp add: run_loop_def Let_def client_inv_def pc_inv_def life_inv_def ledger_inv_def cl_held_def stream_inv_def)

lemma run_queue_inv:
  assumes "client_inv t tr" and "tc_pc t = PcQueue sel"
  shows "client_inv (run_queue sel t) tr"
  using assms
  by (simp add: run_queue_def client_inv_def pc_inv_def life_inv_def ledger_inv_def cl_held_def stream_inv_def)

lemma run_select_inv:
  assumes "client_inv t tr" and "tc_pc t = PcSelect sel" and "poll_sane io"
  shows "\<exists>t' evs. run_select False io sel t = Inr (t', evs) \<and> client_inv t' (tr @ evs)"
proof -
  have sel: "ss_vfds sel \<noteq> []" "tc_lst_buffer t = [] \<Longrightarrow> no_write (tc_socket t) sel" using assms(1,2) by (simp_all add: client_inv_def pc_inv_def)
  obtain ret v en p where s: "bk_poll io (ss_vfds sel) (-1) = (ret, v, en)"
    "Select (bk_poll io) (bk_rd io) (-1) (tc_pipe t) sel = Inr (ret, p, sel\<lparr>ss_vfds := v, ss_ret := ret, ss_errno := (if 0 > ret then en else ss_errno sel)\<rparr>)"
    using Select_any[OF sel(1)] by blast
  define sel' where "sel' = sel\<lparr>ss_vfds := v, ss_ret := ret, ss_errno := (if 0 > ret then en else ss_errno sel)\<rparr>"
  define t1 where "t1 = t\<lparr>tc_pipe := p\<rparr>"
  have t1: "client_inv t1 tr" "in_loop (tc_pc t1)" "tc_pc t1 = PcSelect sel" using assms(1,2) by (simp_all add: t1_def)
  have wr: "Write_FD_ISSET (tc_socket t) sel' = 0" if pos: "0 < ret" and emp: "tc_lst_buffer t = []"
  proof -
    obtain rdy where "v = poll_fds rdy (ss_vfds sel)"
      using assms(3)[unfolded poll_sane_def, rule_format, of "ss_vfds sel" "-1"] s(1) pos by auto
    then show ?thesis using no_write_isset[OF sel(2)[OF emp], of sel' rdy] by (simp add: sel'_def)
  qed
  have fail: "client_inv (fst (run_error kTcpIOErr err t1)) (tr @ snd (run_error kTcpIOErr err t1))" for err
    unfolding run_error_def fst_conv snd_conv
    by (intro run_over_inv[OF t1(1,2), where p = p and h = "tc_have_read_date t" and st = kTcpIOErr]) (simp_all add: t1_def)
  have disc: "client_inv (fst (run_disconnect False t1)) (tr @ snd (run_disconnect False t1))"
    unfolding run_disconnect_def fst_conv snd_conv
    by (intro run_over_inv[OF t1(1,2), where p = p and h = "tc_have_read_date t" and st = kTcpDisConnected]) (simp_all add: t1_def)
  have cont: "client_inv (t1\<lparr>tc_pc := PcLoop\<rparr>) tr" "0 < ret \<Longrightarrow> client_inv (t1\<lparr>tc_pc := PcRead sel'\<rparr>) tr"
    using t1 wr by (simp_all add: client_inv_def pc_inv_def life_inv_def ledger_inv_def cl_held_def stream_inv_def t1_def)
  have run: "run_select False io sel t =
      Inr (if 0 = ret then (t1\<lparr>tc_pc := PcLoop\<rparr>, []) else if 0 > ret then run_error kTcpIOErr (cl_select_errno io) t1
        else if tc_will_disconnect t1 then run_disconnect False t1
        else if Exception_FD_ISSET (tc_socket t1) sel' \<noteq> 0 then run_error kTcpIOErr (if 0 = io_getsockopt io then io_so_error io else 0) t1
        else (t1\<lparr>tc_pc := PcRead sel'\<rparr>, []))"
    unfolding run_select_def Select_forever_def s(2) sel'_def t1_def by (simp add: Let_def)
  show ?thesis by (rule run_InrI[OF run]) (use fail disc cont in simp)
qed

lemma run_read_inv:
  assumes "client_inv t tr" and "tc_pc t = PcRead sel"
  shows "client_inv (fst (run_read io sel t)) (tr @ snd (run_read io sel t))"
proof -
  have l: "in_loop (tc_pc t)" using assms(2) by simp
  have fail: "client_inv (fst (run_error kTcpIOErr err t)) (tr @ snd (run_error kTcpIOErr err t))" for err
    unfolding run_error_def fst_conv snd_conv
    by (intro run_over_inv[OF assms(1) l, where p = "tc_pipe t" and h = "tc_have_read_date t" and st = kTcpIOErr]) simp_all
  have disc: "client_inv (fst (run_disconnect True (t\<lparr>tc_have_read_date := False\<rparr>))) (tr @ snd (run_disconnect True (t\<lparr>tc_have_read_date := False\<rparr>)))"
    unfolding run_disconnect_def fst_conv snd_conv
    by (intro run_over_inv[OF assms(1) l, where p = "tc_pipe t" and h = False and st = kTcpDisConnected]) simp_all
  have nxt: "client_inv (t\<lparr>tc_pc := PcWrite sel\<rparr>) tr" "client_inv (t\<lparr>tc_have_read_date := True, tc_pc := PcWrite sel\<rparr>) (tr @ [OnRead])"
    using assms up_more[of "callbacks tr" "[OnRead]"]
    by (simp_all add: client_inv_def pc_inv_def life_inv_def ledger_inv_def cl_held_def stream_inv_def)
  show ?thesis unfolding run_read_def Let_def using fail disc nxt by simp
qed

lemma run_wrote_inv:
  assumes "client_inv t tr" and "tc_pc t = PcWrote"
  shows "client_inv (fst (run_wrote t)) (tr @ snd (run_wrote t))"
  using assms up_more[of "callbacks tr" "[OnAllWrote]"]
  by (simp add: run_wrote_def client_inv_def pc_inv_def life_inv_def ledger_inv_def cl_held_def stream_inv_def)

lemma run_exit_inv:
  assumes "client_inv t tr" and "tc_pc t = PcExit"
  shows "client_inv (fst (run_exit t)) (tr @ snd (run_exit t))"
  using assms
  by (simp add: run_exit_def client_inv_def pc_inv_def life_inv_def ledger_inv_def cl_held_def stream_inv_def)

lemma sint_small:
  assumes "- (2 ^ 31) \<le> n" and "n < 2 ^ 31"
  shows "sint (word_of_int n :: u32) = n"
proof -
  have "sint (word_of_int n :: u32) = signed_take_bit 31 n" by (subst sint_sbintrunc') simp
  also have "\<dots> = n" using assms by (intro signed_take_bit_int_eq_self) auto
  finally show ?thesis .
qed

lemma send_front:
  assumes "queue_buf b" and "0 < n" and "nat n \<le> length (unsent b)"
  shows "queue_buf (ab_Seek n SeekCur b) \<and> unsent b = take (nat n) (unsent b) @ unsent (ab_Seek n SeekCur b)"
proof -
  have inv: "ab_inv b" "ab_length b < 2 ^ 31" using assms(1) by (simp_all add: queue_buf_def)
  have p: "0 \<le> ab_pos b" "ab_pos b \<le> int (ab_length b)" using inv(1) by (auto simp: ab_inv_def)
  have len: "length (unsent b) = ab_length b - nat (ab_pos b)" using ab_inv_sizes(5)[OF inv(1)] by (simp add: unsent_def)
  have "nat n < 2147483648" using assms(3) len inv(2) by simp
  then have n: "- 4611686018427387904 < n" "n < 4611686018427387904" using assms(2) by linarith+
  have "ab_pos (ab_Seek n SeekCur b) = ab_pos b + n"
    using Seek_pos[OF inv(1) n, of SeekCur] assms(2,3) len p by (simp add: Let_def)
  then have "unsent (ab_Seek n SeekCur b) = drop (nat n) (unsent b)"
    using p assms(2) by (simp add: unsent_def nat_add_distrib add.commute)
  then show ?thesis using Seek_inv[OF inv(1) n] inv(2) by (simp add: queue_buf_def)
qed

lemma run_write_inv:
  assumes "client_inv t tr" and "tc_pc t = PcWrite sel" and "\<forall>n. -1 \<le> bk_send io n \<and> bk_send io n \<le> int n"
  shows "\<exists>t' evs. run_write io sel t = Inr (t', evs) \<and> client_inv t' (tr @ evs)"
proof (cases "Write_FD_ISSET (tc_socket t) sel \<noteq> 0")
  case False
  have "client_inv (t\<lparr>tc_pc := PcLoop\<rparr>) (tr @ [])"
    using assms(1,2) by (simp add: client_inv_def pc_inv_def life_inv_def ledger_inv_def cl_held_def stream_inv_def)
  then show ?thesis using False by (simp add: run_write_def)
next
  case True
  then obtain b bs where q: "tc_lst_buffer t = b # bs" using assms(1,2) by (cases "tc_lst_buffer t") (auto simp: client_inv_def pc_inv_def)
  have b: "queue_buf b" "ab_inv b" "ab_length b < 2 ^ 31" "list_all queue_buf bs"
    using assms(1) q by (simp_all add: client_inv_def pc_inv_def queue_buf_def)
  have p: "0 \<le> ab_pos b" "nat (ab_pos b) \<le> ab_length b" "ab_pos b \<le> int (ab_length b)" using b(2) by (auto simp: ab_inv_def)
  have len: "length (unsent b) = ab_length b - nat (ab_pos b)" using ab_inv_sizes(5)[OF b(2)] by (simp add: unsent_def)
  define m where "m = ab_length b - nat (ab_pos b)"
  have m: "size_sub (ab_Length b) (to_size (ab_Pos b)) = m"
    using p ab_inv_sizes[OF b(2)] by (simp add: m_def ab_Length_def ab_Pos_def)
  have l: "in_loop (tc_pc t)" using assms(2) by simp
  note inv = client_inv_def pc_inv_def life_inv_def ledger_inv_def cl_held_def
  show ?thesis
  proof (cases "ab_pos b < int (ab_length b)")
    case False
    then have "unsent b = []" using p len by simp
    from stream_popped[OF _ q this, of tr PcWrote]
    have "client_inv (t\<lparr>tc_lst_buffer := bs, tc_write_id := tc_write_id t + 1, tc_pc := PcWrote\<rparr>)
        (tr @ [OnWrote (sint (tc_write_id t + 1)) (ab_length b)])"
      using assms(1) l b(4) up_more[of "callbacks tr" "[OnWrote (sint (tc_write_id t + 1)) (ab_length b)]"]
      by (simp add: inv) 
    then show ?thesis using True False q b(3) by (simp add: run_write_def Let_def ab_Length_def ab_Pos_def)
  next
    case pos: True
    have rd: "block_read (ab_parray b) (ab_Pos b) m = Inr (unsent b)"
      using block_read_contents[OF b(2), of "nat (ab_pos b)" m] p len
      by (simp add: m_def ab_Pos_def unsent_def get_at_def)
    define n where "n = bk_send io m"
    have n: "-1 \<le> n" "n \<le> int m" using assms(3) by (simp_all add: n_def)
    have "sint (word_of_int n :: u32) = n" using n b(3) by (intro sint_small) (simp_all add: m_def)
    then have run: "run_write io sel t =
        (if 0 = n \<or> 0 > n \<and> \<not> IS_NOBLOCK_WRITE_ERRNO (io_send_errno io) then Inr (run_error kTcpIOErr (io_send_errno io) t)
         else if 0 < n then Inr (t\<lparr>tc_lst_buffer := ab_Seek n SeekCur b # bs, tc_pc := PcLoop\<rparr>, [TSys (EvSend (tc_socket t) (take (nat n) (unsent b)))])
         else Inr (t\<lparr>tc_pc := PcLoop\<rparr>, []))"
      using True pos q b(3) m rd unfolding run_write_def
      by (simp add: Let_def n_def[symmetric]) (simp add: ab_Length_def ab_Pos_def)
    have fail: "client_inv (fst (run_error kTcpIOErr err t)) (tr @ snd (run_error kTcpIOErr err t))" for err
      unfolding run_error_def fst_conv snd_conv
      by (intro run_over_inv[OF assms(1) l, where p = "tc_pipe t" and h = "tc_have_read_date t" and st = kTcpIOErr]) simp_all
    have stay: "client_inv (t\<lparr>tc_pc := PcLoop\<rparr>) tr" using assms(1) l by (simp add: inv stream_inv_def)
    have sent: "client_inv (t\<lparr>tc_lst_buffer := ab_Seek n SeekCur b # bs, tc_pc := PcLoop\<rparr>) (tr @ [TSys (EvSend (tc_socket t) (take (nat n) (unsent b)))])" if "0 < n"
    proof -
      have "queue_buf (ab_Seek n SeekCur b)" "unsent b = take (nat n) (unsent b) @ unsent (ab_Seek n SeekCur b)"
        using send_front[OF b(1) that] n(2) len by (simp_all add: m_def nat_le_iff)
      with stream_sent[OF _ q this(2)] show ?thesis using assms(1) l b(4) by (simp add: inv)
    qed
    show ?thesis
      by (rule run_InrI[where p = "if 0 = n \<or> 0 > n \<and> \<not> IS_NOBLOCK_WRITE_ERRNO (io_send_errno io) then run_error kTcpIOErr (io_send_errno io) t
         else if 0 < n then (t\<lparr>tc_lst_buffer := ab_Seek n SeekCur b # bs, tc_pc := PcLoop\<rparr>, [TSys (EvSend (tc_socket t) (take (nat n) (unsent b)))])
         else (t\<lparr>tc_pc := PcLoop\<rparr>, [])"]) (use run fail stay sent in simp_all)
  qed
qed

lemma run_step_inv:
  assumes "client_inv t tr" and "op_ok mem_ok (OpRun io)"
  shows "\<exists>t' evs. run_step False io t = Inr (t', evs) \<and> client_inv t' (tr @ evs)"
proof (cases "tc_pc t")
  case PcStart
  then show ?thesis by (intro run_InrI[where p = "run_start io t"]) (use run_start_inv[OF assms(1) PcStart] in \<open>simp_all add: run_step_def\<close>)
next
  case (PcConnect sel)
  then show ?thesis using run_connect_inv[OF assms(1) PcConnect] by (simp add: run_step_def)
next
  case PcLoop
  then show ?thesis using run_loop_inv[OF assms(1) PcLoop] by (simp add: run_step_def)
next
  case (PcQueue sel)
  then show ?thesis using run_queue_inv[OF assms(1) PcQueue] by (simp add: run_step_def)
next
  case (PcSelect sel)
  then show ?thesis using run_select_inv[OF assms(1) PcSelect] assms(2) by (simp add: run_step_def)
next
  case (PcRead sel)
  then show ?thesis by (intro run_InrI[where p = "run_read io sel t"]) (use run_read_inv[OF assms(1) PcRead] in \<open>simp_all add: run_step_def\<close>)
next
  case (PcWrite sel)
  then show ?thesis using run_write_inv[OF assms(1) PcWrite] assms(2) by (simp add: run_step_def)
next
  case PcWrote
  then show ?thesis by (intro run_InrI[where p = "run_wrote t"]) (use run_wrote_inv[OF assms(1) PcWrote] in \<open>simp_all add: run_step_def\<close>)
next
  case PcExit
  then show ?thesis by (intro run_InrI[where p = "run_exit t"]) (use run_exit_inv[OF assms(1) PcExit] in \<open>simp_all add: run_step_def\<close>)
qed (use assms(1) in \<open>simp_all add: run_step_def\<close>)

lemma client_exec_inv:
  assumes "client_inv t tr" and "op_ok mem_ok op"
  shows "\<exists>t' evs. client_exec False ae mem_ok op t = Inr (t', evs) \<and> client_inv t' (tr @ evs)"
proof (cases op)
  case (OpConnect ret)
  then show ?thesis using Connect_inv[OF assms(1), of ret] by auto
next
  case (OpDisconnect wr)
  have "client_inv (Disconnect wr t) (tr @ [])"
    by (rule client_inv_frame[OF assms(1)]) (simp_all add: Disconnect_def)
  then show ?thesis using OpDisconnect by simp
next
  case (OpRead seen ret data wr)
  have "client_inv (SendBreak wr (t\<lparr>tc_have_read_date := False\<rparr>)) (tr @ (if 0 < ret then [TSys (EvRecv (tc_socket t) data)] else []))"
    by (rule client_inv_frame[OF assms(1)]) simp_all
  then show ?thesis using OpRead assms(1) by (simp add: Read_def)
next
  case (OpWrite seen buf wr)
  then show ?thesis using Write_inv[OF assms(1), of mem_ok buf ae seen wr] assms(2) by auto
next
  case (OpWritePost seen buf wr)
  then show ?thesis using WritePost_inv[OF assms(1), of buf seen wr] assms(2) by auto
next
  case (OpRun io)
  then show ?thesis using run_step_inv[OF assms(1)] assms(2) by simp
qed

lemma client_run_inv:
  assumes "client_inv t tr" and "list_all (op_ok mem_ok) ops"
  shows "\<exists>t' evs. client_run False ae mem_ok ops t = Inr (t', evs) \<and> client_inv t' (tr @ evs)"
  using assms
proof (induction ops arbitrary: t tr)
  case (Cons op ops)
  obtain t1 evs1 where 1: "client_exec False ae mem_ok op t = Inr (t1, evs1)" "client_inv t1 (tr @ evs1)"
    using client_exec_inv[OF Cons.prems(1), of mem_ok op ae] Cons.prems(2) by auto
  obtain t2 evs2 where "client_run False ae mem_ok ops t1 = Inr (t2, evs2)" "client_inv t2 ((tr @ evs1) @ evs2)"
    using Cons.IH[OF 1(2)] Cons.prems(2) by auto
  with 1(1) show ?case by simp
qed simp

lemma client_inv_new: "client_inv (TcpClient_new pipe timeout) []"
  by (simp add: client_inv_def pc_inv_def stream_inv_def life_inv_def ledger_inv_def cl_held_def TcpClient_new_def)

section \<open>Progress\<close>

text \<open>The steps the thread needs at most to send what is queued.\<close>

definition work :: "TcpClient \<Rightarrow> nat" where
  "work t = sum_list (map (\<lambda>b. Suc (length (unsent b))) (tc_lst_buffer t))"

text \<open>The peer accepts data, and nothing else happens.\<close>

definition peer_accepts :: "client_io \<Rightarrow> TcpClient \<Rightarrow> bool" where
  "peer_accepts io t \<longleftrightarrow> 0 \<le> tc_socket t \<and> 0 \<le> BreakerFD (tc_pipe t) \<and> \<not> tc_will_disconnect t
     \<and> (\<exists>rdy. bk_poll io = poll_ready rdy \<and> rdy (BreakerFD (tc_pipe t)) = 0 \<and> rdy (tc_socket t) = POLLOUT)
     \<and> (\<forall>n. -1 \<le> bk_send io n \<and> bk_send io n \<le> int n) \<and> (\<forall>n>0. 0 < bk_send io n)"

lemma peer_accepts_sane: "peer_accepts io t \<Longrightarrow> op_ok mem_ok (OpRun io)"
  by (auto simp: peer_accepts_def poll_sane_def poll_ready_def)

lemma writable_isset:
  assumes "ss_vfds s' = poll_fds rdy v" and "events_of sock v = Some e" and "bit e 2" and "rdy sock = POLLOUT" and "0 \<le> sock"
  shows "Write_FD_ISSET sock s' \<noteq> 0" "Read_FD_ISSET sock s' = 0" "Exception_FD_ISSET sock s' = 0"
    "0 < fst (poll_ready rdy v ms)"
proof -
  note i = isset_poll[OF assms(1,5)] assms(2,4)
  show wr: "Write_FD_ISSET sock s' \<noteq> 0"
    using assms(3) by (auto simp: Write_FD_ISSET_def i and_nonzero_iff bit_and_iff bit_or_iff)
  show "Read_FD_ISSET sock s' = 0"
    by (intro ccontr[of "_ = 0"]) (auto simp: Read_FD_ISSET_def i and_nonzero_iff bit_and_iff bit_or_iff)
  show "Exception_FD_ISSET sock s' = 0"
    by (intro ccontr[of "_ = 0"]) (auto simp: Exception_FD_ISSET_def i and_nonzero_iff bit_and_iff bit_or_iff)
  obtain x where "x \<in> set (poll_fds rdy v)" "prevents x \<noteq> 0"
    using isset_quiet[of s'] wr unfolding Write_FD_ISSET_def assms(1) by blast
  then show "0 < fst (poll_ready rdy v ms)" by (auto simp: poll_ready_def filter_empty_conv)
qed

lemma client_run_append:
  "client_run sk ae mem_ok (xs @ ys) t = bindE (client_run sk ae mem_ok xs t) (\<lambda>(t, evs1).
     bindE (client_run sk ae mem_ok ys t) (\<lambda>(t, evs2). Inr (t, evs1 @ evs2)))"
proof (induction xs arbitrary: t)
  case Nil
  then show ?case by (cases "client_run sk ae mem_ok ys t") auto
next
  case (Cons op xs)
  then show ?case by (auto simp: bindE_def split: sum.splits prod.splits)
qed

text \<open>The thread from the top of the loop to the write part.\<close>

lemma reach_write:
  assumes "tc_pc t = PcLoop" and "peer_accepts io t" and "tc_lst_buffer t \<noteq> []"
  shows "\<exists>sel p. client_run False ae mem_ok (replicate 4 (OpRun io)) t = Inr (t\<lparr>tc_pc := PcWrite sel, tc_pipe := p\<rparr>, [])
    \<and> Write_FD_ISSET (tc_socket t) sel \<noteq> 0 \<and> BreakerFD p = BreakerFD (tc_pipe t)"
proof -
  obtain rdy where rdy: "bk_poll io = poll_ready rdy" "rdy (BreakerFD (tc_pipe t)) = 0" "rdy (tc_socket t) = POLLOUT"
    and t: "0 \<le> tc_socket t" "\<not> tc_will_disconnect t"
    using assms(2) by (auto simp: peer_accepts_def)
  define sel0 where "sel0 = Exception_FD_SET (tc_socket t) (PreSelect (tc_pipe t) (SocketSelect_new True))"
  define sel1 where "sel1 = (if \<not> tc_have_read_date t then Read_FD_SET (tc_socket t) sel0 else sel0)"
  define sel2 where "sel2 = Write_FD_SET (tc_socket t) sel1"
  define sel3 where "sel3 = sel2\<lparr>ss_vfds := poll_fds rdy (ss_vfds sel2), ss_ret := fst (poll_ready rdy (ss_vfds sel2) (-1))\<rparr>"
  define p where "p = snd (Clear (bk_rd io) (tc_pipe t))"
  have ac: "ss_autoclear sel2" by (simp add: sel2_def sel1_def sel0_def)
  obtain e where e: "events_of (tc_socket t) (ss_vfds sel2) = Some e" "bit e 2"
    by (auto simp: sel2_def Write_FD_SET_def events_of_add bit_or_iff split: option.splits)
  have "ss_vfds sel3 = poll_fds rdy (ss_vfds sel2)" by (simp add: sel3_def)
  note w = writable_isset[OF this e rdy(3) t(1)]
  have ret: "0 < fst (poll_ready rdy (ss_vfds sel2) (-1))" by (rule w(4))
  have "Select (bk_poll io) (bk_rd io) (-1) (tc_pipe t) sel2 = Inr (fst (poll_ready rdy (ss_vfds sel2) (-1)), p, sel3)"
    using ac by (simp add: Select_def rdy(1) poll_ready_def sel3_def p_def) (simp add: sel2_def)
  then have step3: "run_step False io (t\<lparr>tc_pc := PcSelect sel2\<rparr>) = Inr (t\<lparr>tc_pc := PcRead sel3, tc_pipe := p\<rparr>, [])"
    using ret w(3) t(2) by (simp add: run_step_def run_select_def Select_forever_def Let_def)
  have step1: "run_step False io t = Inr (t\<lparr>tc_pc := PcQueue sel1\<rparr>, [])"
    using assms(1) by (simp add: run_step_def run_loop_def Let_def sel1_def sel0_def)
  have step2: "run_step False io (t\<lparr>tc_pc := PcQueue sel1\<rparr>) = Inr (t\<lparr>tc_pc := PcSelect sel2\<rparr>, [])"
    using assms(3) by (simp add: run_step_def run_queue_def sel2_def)
  have step4: "run_step False io (t\<lparr>tc_pc := PcRead sel3, tc_pipe := p\<rparr>) = Inr (t\<lparr>tc_pc := PcWrite sel3, tc_pipe := p\<rparr>, [])"
    using w(2) by (simp add: run_step_def run_read_def)
  have "client_run False ae mem_ok (replicate 4 (OpRun io)) t = Inr (t\<lparr>tc_pc := PcWrite sel3, tc_pipe := p\<rparr>, [])"
    by (simp add: numeral_eq_Suc step1 step2 step3 step4)
  moreover have "BreakerFD p = BreakerFD (tc_pipe t)" by (simp add: p_def Clear_def BreakerFD_def)
  ultimately show ?thesis using w(1) by blast
qed

lemma peer_accepts_cong:
  assumes "peer_accepts io t" and "tc_socket t' = tc_socket t" and "BreakerFD (tc_pipe t') = BreakerFD (tc_pipe t)"
    and "tc_will_disconnect t' = tc_will_disconnect t"
  shows "peer_accepts io t'"
  using assms by (simp add: peer_accepts_def)

text \<open>What one round of the loop achieves while the peer accepts data.\<close>

definition advanced :: "TcpClient \<Rightarrow> tcp_event list \<Rightarrow> TcpClient \<Rightarrow> bool" where
  "advanced t evs t' \<longleftrightarrow> concat (map unsent (tc_lst_buffer t)) = sent_bytes (tsys evs) @ concat (map unsent (tc_lst_buffer t'))
     \<and> length (tc_lst_buffer t) = length (wrotes evs) + length (tc_lst_buffer t')"

lemma advanced_trans: "advanced t evs t' \<Longrightarrow> advanced t' evs' t'' \<Longrightarrow> advanced t (evs @ evs') t''"
  by (simp add: advanced_def)

lemma write_round:
  assumes "client_inv t tr" and "tc_pc t = PcLoop" and "peer_accepts io t" and "tc_lst_buffer t = b # bs"
  shows "\<exists>k t' evs. k \<le> 6 \<and> client_run False ae mem_ok (replicate k (OpRun io)) t = Inr (t', evs) \<and> tc_pc t' = PcLoop
    \<and> peer_accepts io t' \<and> work t' < work t \<and> advanced t evs t'"
proof -
  obtain sel p where r4: "client_run False ae mem_ok (replicate 4 (OpRun io)) t = Inr (t\<lparr>tc_pc := PcWrite sel, tc_pipe := p\<rparr>, [])"
      and wr: "Write_FD_ISSET (tc_socket t) sel \<noteq> 0" and fd: "BreakerFD p = BreakerFD (tc_pipe t)"
    using reach_write[OF assms(2,3), of ae mem_ok] assms(4) by auto
  have q: "queue_buf b" "ab_inv b" "ab_length b < 2 ^ 31" using assms(1,4) by (simp_all add: client_inv_def pc_inv_def queue_buf_def)
  have pos: "0 \<le> ab_pos b" "nat (ab_pos b) \<le> ab_length b" using q(2) by (auto simp: ab_inv_def)
  have len: "length (unsent b) = ab_length b - nat (ab_pos b)" using ab_inv_sizes(5)[OF q(2)] by (simp add: unsent_def)
  define u where "u = t\<lparr>tc_pc := PcWrite sel, tc_pipe := p\<rparr>"
  show ?thesis
  proof (cases "ab_pos b < int (ab_length b)")
    case False
    define t' where "t' = u\<lparr>tc_lst_buffer := bs, tc_write_id := tc_write_id u + 1, tc_pc := PcLoop\<rparr>"
    define evs where "evs = [OnWrote (sint (tc_write_id u + 1)) (ab_length b)] @ (if bs = [] then [OnAllWrote] else [])"
    have s5: "run_step False io u = Inr (u\<lparr>tc_lst_buffer := bs, tc_write_id := tc_write_id u + 1, tc_pc := PcWrote\<rparr>,
        [OnWrote (sint (tc_write_id u + 1)) (ab_length b)])"
      using False wr assms(4) q(3) by (simp add: u_def run_step_def run_write_def Let_def ab_Length_def ab_Pos_def)
    have "client_run False ae mem_ok (replicate 2 (OpRun io)) u = Inr (t', evs)"
      by (simp add: numeral_eq_Suc s5 run_step_def[of _ _ "_\<lparr>tc_pc := PcWrote\<rparr>"] run_wrote_def t'_def evs_def)
    then have "client_run False ae mem_ok (replicate 6 (OpRun io)) t = Inr (t', evs)"
      using client_run_append[of False ae mem_ok "replicate 4 (OpRun io)" "replicate 2 (OpRun io)" t] r4
      by (simp add: replicate_add[symmetric] u_def[symmetric])
    moreover have "unsent b = []" using False pos len by simp
    then have "work t' < work t" "advanced t evs t'"
      using assms(4) by (simp_all add: work_def advanced_def t'_def evs_def)
    moreover have "peer_accepts io t'" by (rule peer_accepts_cong[OF assms(3)]) (simp_all add: t'_def u_def fd)
    ultimately show ?thesis by (intro exI[of _ 6] exI[of _ t'] exI[of _ evs]) (simp add: t'_def)
  next
    case True
    define m where "m = ab_length b - nat (ab_pos b)"
    define n where "n = bk_send io m"
    have m: "0 < m" "m < 2 ^ 31" "size_sub (ab_Length b) (to_size (ab_Pos b)) = m"
      using True pos q(3) ab_inv_sizes[OF q(2)] by (simp_all add: m_def ab_Length_def ab_Pos_def)
    have n: "0 < n" "n \<le> int m" "nat n \<le> m" using assms(3) m(1) by (auto simp: peer_accepts_def n_def nat_le_iff)
    have sn: "sint (word_of_int n :: u32) = n" using n(1,2) m(2) by (intro sint_small) simp_all
    have rd: "block_read (ab_parray b) (ab_Pos b) m = Inr (unsent b)"
      using block_read_contents[OF q(2), of "nat (ab_pos b)" m] pos len by (simp add: m_def ab_Pos_def unsent_def get_at_def)
    define t' where "t' = u\<lparr>tc_lst_buffer := ab_Seek n SeekCur b # bs, tc_pc := PcLoop\<rparr>"
    define evs where "evs = [TSys (EvSend (tc_socket t) (take (nat n) (unsent b)))]"
    have "run_step False io u = Inr (t', evs)"
      using True wr assms(4) q(3) m rd n(1) sn
      by (simp add: u_def run_step_def run_write_def Let_def n_def[symmetric]) (simp add: ab_Length_def ab_Pos_def t'_def u_def evs_def)
    then have "client_run False ae mem_ok (replicate 1 (OpRun io)) u = Inr (t', evs)" by simp
    then have "client_run False ae mem_ok (replicate 5 (OpRun io)) t = Inr (t', evs)"
      using client_run_append[of False ae mem_ok "replicate 4 (OpRun io)" "replicate 1 (OpRun io)" t] r4
      by (simp add: replicate_add[symmetric] u_def[symmetric] del: replicate.simps)
    moreover have front: "unsent b = take (nat n) (unsent b) @ unsent (ab_Seek n SeekCur b)"
      using send_front[OF q(1) n(1)] n(3) len by (simp add: m_def)
    then have "length (unsent b) = nat n + length (unsent (ab_Seek n SeekCur b))"
      using n(3) len by (metis length_append length_take m_def min.absorb2)
    then have "work t' < work t" using assms(4) n(1) by (simp add: work_def t'_def)
    moreover have "advanced t evs t'" using assms(4) front by (simp add: advanced_def t'_def evs_def)
    moreover have "peer_accepts io t'" by (rule peer_accepts_cong[OF assms(3)]) (simp_all add: t'_def u_def fd)
    ultimately show ?thesis by (intro exI[of _ 5] exI[of _ t'] exI[of _ evs]) (simp add: t'_def)
  qed
qed

lemma drains:
  assumes "client_inv t tr" and "tc_pc t = PcLoop" and "peer_accepts io t"
  shows "\<exists>n t' evs. n \<le> 6 * work t \<and> client_run False ae mem_ok (replicate n (OpRun io)) t = Inr (t', evs)
    \<and> tc_lst_buffer t' = [] \<and> advanced t evs t'"
  using assms
proof (induction "work t" arbitrary: t tr rule: less_induct)
  case less
  show ?case
  proof (cases "tc_lst_buffer t")
    case Nil
    then show ?thesis by (intro exI[of _ 0]) (simp add: advanced_def)
  next
    case (Cons b bs)
    obtain k t1 evs1 where 1: "k \<le> 6" "client_run False ae mem_ok (replicate k (OpRun io)) t = Inr (t1, evs1)" "tc_pc t1 = PcLoop"
      "peer_accepts io t1" "work t1 < work t" "advanced t evs1 t1"
      using write_round[OF less.prems Cons] by blast
    have "list_all (op_ok mem_ok) (replicate k (OpRun io))"
      using peer_accepts_sane[OF less.prems(3)] by (simp add: list_all_iff)
    then have "client_inv t1 (tr @ evs1)" using client_run_inv[OF less.prems(1), of mem_ok "replicate k (OpRun io)" ae] 1(2) by simp
    from less.hyps[OF 1(5) this 1(3,4)] obtain n t2 evs2 where 2: "n \<le> 6 * work t1"
      "client_run False ae mem_ok (replicate n (OpRun io)) t1 = Inr (t2, evs2)" "tc_lst_buffer t2 = []" "advanced t1 evs2 t2" by blast
    have "client_run False ae mem_ok (replicate (k + n) (OpRun io)) t = Inr (t2, evs1 @ evs2)"
      using 1(2) 2(2) by (simp add: replicate_add client_run_append)
    moreover have "k + n \<le> 6 * work t" using 1(1,5) 2(1) by simp
    ultimately show ?thesis using 2(3) advanced_trans[OF 1(6) 2(4)] by blast
  qed
qed

section \<open>Properties\<close>

text \<open>
  C3: Bytes are neither lost, duplicated nor reordered on the way out. However calls of \<open>Connect\<close>,
  \<open>Read\<close>, \<open>Write\<close>, \<open>WritePostData\<close> and \<open>Disconnect\<close> from any threads (with a possibly outdated view of
  the status) and the steps of the connection's thread interleave: nothing outside a buffer or an empty queue is accessed; the
  bytes sent followed by what is still queued are the accepted writes in order; the identifiers
  returned by the writes and those passed to \<open>OnWrote\<close> both count 1, 2, 3, ...; the \<open>k\<close>th \<open>OnWrote\<close>
  reports the length of the \<open>k\<close>th write, and by then all its bytes have been sent.
\<close>

theorem TcpClient_stream:
  assumes "list_all (op_ok mem_ok) ops"
  shows "\<exists>t tr. client_run False ae mem_ok ops (TcpClient_new pipe timeout) = Inr (t, tr)
    \<and> concat (map snd (writes tr)) = sent_bytes (tsys tr) @ concat (map unsent (tc_lst_buffer t))
    \<and> numbered (writes tr) \<and> numbered (wrotes tr)
    \<and> map snd (wrotes tr) = map (length \<circ> snd) (take (length (wrotes tr)) (writes tr))
    \<and> prefix (concat (map snd (take (length (wrotes tr)) (writes tr)))) (sent_bytes (tsys tr))"
proof -
  obtain t tr where run: "client_run False ae mem_ok ops (TcpClient_new pipe timeout) = Inr (t, tr)" "client_inv t tr"
    using client_run_inv[OF client_inv_new assms, of ae pipe timeout] by auto
  define k where "k = length (wrotes tr)"
  have s: "concat (map snd (writes tr)) = sent_bytes (tsys tr) @ concat (map unsent (tc_lst_buffer t))"
    "map (length \<circ> snd) (writes tr) = map snd (wrotes tr) @ map ab_length (tc_lst_buffer t)" "numbered (writes tr)" "numbered (wrotes tr)"
    using run(2) by (simp_all add: client_inv_def stream_inv_def)
  have lens: "map snd (wrotes tr) = map (length \<circ> snd) (take k (writes tr))" "map ab_length (tc_lst_buffer t) = map (length \<circ> snd) (drop k (writes tr))"
    using s(2) by (simp_all add: k_def take_map[symmetric] drop_map[symmetric])
  have "length (concat (map unsent (tc_lst_buffer t))) \<le> length (concat (map snd (drop k (writes tr))))"
  proof -
    have "\<forall>b\<in>set (tc_lst_buffer t). length (unsent b) \<le> ab_length b" using run(2) by (auto simp: unsent_def ab_contents_def)
    then have "length (concat (map unsent (tc_lst_buffer t))) \<le> sum_list (map ab_length (tc_lst_buffer t))"
      unfolding length_concat map_map by (intro sum_list_mono) auto
    then show ?thesis unfolding lens(2) by (simp add: length_concat)
  qed
  moreover have parts: "concat (map snd (take k (writes tr))) @ concat (map snd (drop k (writes tr)))
      = sent_bytes (tsys tr) @ concat (map unsent (tc_lst_buffer t))"
    unfolding s(1)[symmetric] concat_append[symmetric] map_append[symmetric] append_take_drop_id by (rule refl)
  ultimately have "length (concat (map snd (take k (writes tr)))) \<le> length (sent_bytes (tsys tr))"
    using arg_cong[OF parts, of length] unfolding length_append by linarith
  then have "prefix (concat (map snd (take k (writes tr)))) (sent_bytes (tsys tr))"
    by (rule prefix_length_prefix[OF prefixI[OF parts[symmetric]] prefixI[OF refl]])
  then show ?thesis using run(1) s lens(1) unfolding k_def by blast
qed

definition demo_client_io :: client_io where
  "demo_client_io =
     \<lparr>io_socket = 9, io_socket_errno = 0, io_nobio = 0, io_nobio_errno = 0, io_connect = -1, io_connect_errno = EINPROGRESS,
      io_getsockopt = 0, io_so_error = 0, io_getsockopt_errno = 0, io_send = 0, io_send_errno = 0, io_recv = 0,
      io_recv_data = [], io_recv_errno = 0, io_t_start = 0, io_t_end = 0, io_t_timeout = 0,
      bk_poll = poll_ready (\<lambda>fd. if fd = 9 then POLLOUT else 0), bk_rd = 0, bk_tick = 0,
      bk_send = (\<lambda>n. int (min n 2)), bk_recv = (\<lambda>n. (0, [])),
      cl_s_addr = 1, cl_addr = [], cl_socket_error2 = 0, cl_select_errno = 0, cl_peek = -1\<rparr>"

lemma demo_client_ok: "op_ok mem_ok (OpRun demo_client_io)"
  by (auto simp: poll_sane_def demo_client_io_def poll_ready_def)

theorem TcpClient_stream_witness:
  "\<exists>t tr. client_run False True (\<lambda>n. True) [OpConnect 0, OpRun demo_client_io, OpRun demo_client_io, OpWritePost kTcpConnected [1, 2, 3] 1]
       (TcpClient_new demo_breaker 1000) = Inr (t, tr)
    \<and> concat (map snd (writes tr)) = sent_bytes (tsys tr) @ concat (map unsent (tc_lst_buffer t))
    \<and> numbered (writes tr) \<and> numbered (wrotes tr)"
proof -
  have "list_all (op_ok (\<lambda>n. True)) [OpConnect 0, OpRun demo_client_io, OpRun demo_client_io, OpWritePost kTcpConnected [1, 2, 3] 1]"
    using demo_client_ok by simp
  from TcpClient_stream[OF this, of True demo_breaker 1000] show ?thesis by blast
qed

text \<open>
  C11: The life of a client connection. Under the same interleavings: the callbacks are either none
  (until the connection is up), or \<open>OnConnect\<close> followed by traffic, or these ended by exactly one of
  \<open>OnError\<close> and \<open>OnDisConnect\<close>, after which none follows; the status is \<open>kTcpConnected\<close> exactly while
  the thread is in its loop; every socket opened was closed exactly once or is the current one, and
  none is left when the thread has ended.
\<close>

theorem TcpClient_lifecycle:
  assumes "list_all (op_ok mem_ok) ops"
  shows "\<exists>t tr. client_run False ae mem_ok ops (TcpClient_new pipe timeout) = Inr (t, tr)
    \<and> (callbacks tr = [] \<or> up (callbacks tr) \<or> over (callbacks tr))
    \<and> (up (callbacks tr) \<longleftrightarrow> in_loop (tc_pc t)) \<and> (over (callbacks tr) \<longleftrightarrow> tc_pc t \<in> {PcExit, PcDone})
    \<and> (tc_status t = kTcpConnected \<longleftrightarrow> in_loop (tc_pc t))
    \<and> opened (tsys tr) = closed (tsys tr) + cl_held t \<and> (tc_pc t = PcDone \<longrightarrow> cl_held t = {#})"
proof -
  obtain t tr where run: "client_run False ae mem_ok ops (TcpClient_new pipe timeout) = Inr (t, tr)" "client_inv t tr"
    using client_run_inv[OF client_inv_new assms, of ae pipe timeout] by auto
  have no: "\<not> up []" "\<not> over []" by (simp_all add: up_def over_def)
  have ex: "\<not> up cbs" if "over cbs" for cbs
    using that final_not_mid by (auto simp: up_def over_def Cons_eq_append_conv append_eq_Cons_conv)
  have life: "life_inv t tr" and led: "ledger_inv t tr" using run(2) by (simp_all add: client_inv_def)
  have "(callbacks tr = [] \<or> up (callbacks tr) \<or> over (callbacks tr))
    \<and> (up (callbacks tr) \<longleftrightarrow> in_loop (tc_pc t)) \<and> (over (callbacks tr) \<longleftrightarrow> tc_pc t \<in> {PcExit, PcDone})
    \<and> (tc_status t = kTcpConnected \<longleftrightarrow> in_loop (tc_pc t))"
    using life no ex[of "callbacks tr"] by (cases "tc_pc t") (auto simp: life_inv_def)
  then show ?thesis using run(1) led by (auto simp: ledger_inv_def cl_held_def)
qed

theorem TcpClient_lifecycle_witness:
  "\<exists>t tr. client_run False True (\<lambda>n. True) [OpConnect 0, OpRun demo_client_io, OpRun demo_client_io, OpDisconnect 1] (TcpClient_new demo_breaker 1000)
       = Inr (t, tr)
    \<and> (callbacks tr = [] \<or> up (callbacks tr) \<or> over (callbacks tr)) \<and> opened (tsys tr) = closed (tsys tr) + cl_held t"
proof -
  have "list_all (op_ok (\<lambda>n. True)) [OpConnect 0, OpRun demo_client_io, OpRun demo_client_io, OpDisconnect 1]"
    using demo_client_ok by simp
  from TcpClient_lifecycle[OF this, of True demo_breaker 1000] show ?thesis by blast
qed


lemma demo_client_up:
  "\<exists>t tr. client_run False True (\<lambda>n. True) [OpConnect 0, OpRun demo_client_io, OpRun demo_client_io] (TcpClient_new demo_breaker 1000) = Inr (t, tr)
    \<and> tc_pc t = PcLoop \<and> peer_accepts demo_client_io t"
  by (auto simp: Connect_def Let_def run_step_def run_start_def run_connect_def TcpClient_new_def IsCreateSuc_def demo_breaker_def
      demo_client_io_def Select_def poll_ready_def poll_fds_def PreSelect_def Exception_FD_SET_def Write_FD_SET_def SocketSelect_new_def breaker_item_def
      BreakerFD_def IS_NOBLOCK_CONNECT_ERRNO_def peer_accepts_def socket_error_def Clear_def Exception_FD_ISSET_def Write_FD_ISSET_def isset_def poll_consts)


end
