(* ===== verification/TcpServerFsm.thy ===== *)
theory TcpServerFsm
  imports TcpClientFsm
begin

text \<open>
  Model of \<open>network/tcpserver_fsm.h\<close> and \<open>network/tcpserver_fsm.cc\<close>: the server side of a
  connection, driven like \<open>TcpClientFsm\<close>. The constructor takes over an accepted socket. The object
  is an extensible record and the virtual functions of a derived class a table of functions; every
  handler returns the new object and the trace of its system calls and of the virtual functions it has
  called. Logging is left out; \<open>ip_\<close>, filled by \<open>inet_ntop\<close>, is an argument of the constructors.
\<close>

section \<open>State\<close>

datatype srv_status = kAccept | kReadWrite | kEnd

record TcpServerFSM =
  srv_status :: srv_status
  srv_sock :: int
  srv_addr :: "byte list"
  srv_ip :: string
  srv_send_buf :: AutoBuffer
  srv_recv_buf :: AutoBuffer
  srv_is_write_fd_set :: bool

text \<open>\<open>socket_errno\<close> after a \<open>socket_close\<close>, from its value before.\<close>

record srv_io = fsm_io +
  io_close_errno :: "int \<Rightarrow> int"

datatype srv_event =
  SysEv sys_event
| CbAccept
| CbRecv int
| CbSend int
| CbClose srv_status int bool

record ('i, 'f) srv_virtuals =
  sv_OnAccept :: "'i \<Rightarrow> 'f \<Rightarrow> 'f"
  sv_OnRecv :: "'i \<Rightarrow> int \<Rightarrow> 'f \<Rightarrow> 'f"
  sv_OnSend :: "'i \<Rightarrow> int \<Rightarrow> 'f \<Rightarrow> 'f"
  sv_OnClose :: "'i \<Rightarrow> srv_status \<Rightarrow> int \<Rightarrow> bool \<Rightarrow> 'f \<Rightarrow> 'f"
  sv_ReadWriteTimeout :: "'f \<Rightarrow> int"

definition srv_base_ReadWriteTimeout :: int where "srv_base_ReadWriteTimeout = INT_MAX"
definition srv_base_ReadWriteAbsTimeout :: int where "srv_base_ReadWriteAbsTimeout = INT_MAX"

section \<open>Operations\<close>

definition TcpServerFSM_new_addr :: "int \<Rightarrow> byte list \<Rightarrow> string \<Rightarrow> TcpServerFSM" where
  "TcpServerFSM_new_addr sock addr ip =
     \<lparr>srv_status = kAccept, srv_sock = sock, srv_addr = addr, srv_ip = ip,
      srv_send_buf = AutoBuffer_new 128, srv_recv_buf = AutoBuffer_new 128, srv_is_write_fd_set = False\<rparr>"

text \<open>The constructor that asks \<open>getpeername\<close> for the address.\<close>

definition TcpServerFSM_new :: "bool \<Rightarrow> int \<Rightarrow> byte list \<Rightarrow> string \<Rightarrow> TcpServerFSM cres" where
  "TcpServerFSM_new sk sock peer ip = ASSERT sk (INVALID_SOCKET \<noteq> sock) (Inr (TcpServerFSM_new_addr sock peer ip))"

definition srv_Status_set :: "srv_status \<Rightarrow> 'a TcpServerFSM_scheme \<Rightarrow> 'a TcpServerFSM_scheme" where
  "srv_Status_set st f = f\<lparr>srv_status := st\<rparr>"

definition srv_IsEndStatus :: "'a TcpServerFSM_scheme \<Rightarrow> bool" where
  "srv_IsEndStatus f \<longleftrightarrow> kEnd = srv_status f"

text \<open>\<open>ntohs(addr_.sin_port)\<close>; the port is at offset 2 of a \<open>sockaddr_in\<close>.\<close>

definition srv_Port :: "'a TcpServerFSM_scheme \<Rightarrow> nat" where
  "srv_Port f = unat (srv_addr f ! 2) * 256 + unat (srv_addr f ! 3)"

definition SendBufLen :: "'a TcpServerFSM_scheme \<Rightarrow> nat" where
  "SendBufLen f = ab_Length (srv_send_buf f)"

definition WriteFDSet :: "bool \<Rightarrow> 'a TcpServerFSM_scheme \<Rightarrow> 'a TcpServerFSM_scheme" where
  "WriteFDSet is_set f = f\<lparr>srv_is_write_fd_set := is_set\<rparr>"

definition srv_Close ::
  "('i, 'a TcpServerFSM_scheme) srv_virtuals \<Rightarrow> 'i \<Rightarrow> bool \<Rightarrow> 'a TcpServerFSM_scheme
    \<Rightarrow> 'a TcpServerFSM_scheme \<times> srv_event list" where
  "srv_Close V io notify f =
     (if INVALID_SOCKET = srv_sock f then (f, [])
      else
        let evs = [SysEv (EvClose (srv_sock f))];
            f = f\<lparr>srv_sock := INVALID_SOCKET\<rparr>;
            status = srv_status f;
            f = f\<lparr>srv_status := kEnd\<rparr>
        in if notify then (sv_OnClose V io status 0 True f, evs @ [CbClose status 0 True]) else (f, evs))"

definition TcpServerFSM_delete ::
  "bool \<Rightarrow> ('i, 'a TcpServerFSM_scheme) srv_virtuals \<Rightarrow> 'i \<Rightarrow> 'a TcpServerFSM_scheme \<Rightarrow> srv_event list cres" where
  "TcpServerFSM_delete sk V io f =
     (case srv_Close V io False f of (f, evs) \<Rightarrow> ASSERT sk (INVALID_SOCKET = srv_sock f) (Inr evs))"

definition srv_PreReadWriteSelect ::
  "bool \<Rightarrow> SocketSelect \<Rightarrow> 'a TcpServerFSM_scheme \<Rightarrow> ('a TcpServerFSM_scheme \<times> SocketSelect) cres" where
  "srv_PreReadWriteSelect sk sel f =
     ASSERT sk (kReadWrite = srv_status f)
       (let sel = Exception_FD_SET (srv_sock f) (Read_FD_SET (srv_sock f) sel)
        in Inr (if 0 < ab_Length (srv_send_buf f) then (WriteFDSet True f, Write_FD_SET (srv_sock f) sel)
                else (WriteFDSet False f, sel)))"

definition srv_PreSelect ::
  "bool \<Rightarrow> ('i, 'a TcpServerFSM_scheme) srv_virtuals \<Rightarrow> 'i \<Rightarrow> SocketSelect \<Rightarrow> 'a TcpServerFSM_scheme
    \<Rightarrow> ('a TcpServerFSM_scheme \<times> SocketSelect \<times> srv_event list) cres" where
  "srv_PreSelect sk V io sel f =
     (let accept = (kAccept = srv_status f);
          f = (if accept then (sv_OnAccept V io f)\<lparr>srv_status := kReadWrite\<rparr> else f);
          evs = (if accept then [CbAccept] else [])
      in if kReadWrite = srv_status f
         then bindE (srv_PreReadWriteSelect sk sel f) (\<lambda>(f, sel). Inr (f, sel, evs))
         else Inr (f, sel, evs))"

text \<open>The end of a connection in \<open>AfterReadWriteSelect\<close>: close, forget, notify.\<close>

definition srv_end ::
  "('i, 'a TcpServerFSM_scheme) srv_virtuals \<Rightarrow> 'i \<Rightarrow> int \<Rightarrow> 'a TcpServerFSM_scheme
    \<Rightarrow> 'a TcpServerFSM_scheme \<times> srv_event list" where
  "srv_end V io err f =
     (let evs = [SysEv (EvClose (srv_sock f)), CbClose kReadWrite err False];
          f = f\<lparr>srv_sock := INVALID_SOCKET, srv_status := kEnd\<rparr>
      in (sv_OnClose V io kReadWrite err False f, evs))"

definition srv_send ::
  "bool \<Rightarrow> (nat \<Rightarrow> bool) \<Rightarrow> ('i srv_io_scheme, 'a TcpServerFSM_scheme) srv_virtuals \<Rightarrow> 'i srv_io_scheme
    \<Rightarrow> 'a TcpServerFSM_scheme \<Rightarrow> ('a TcpServerFSM_scheme \<times> srv_event list \<times> bool) cres" where
  "srv_send ae mem_ok V io f =
     bindE (block_read (ab_parray (srv_send_buf f)) 0 (ab_Length (srv_send_buf f))) (\<lambda>bytes.
     let ret = io_send io
     in if 0 < ret then
          bindE (ab_Move ae mem_ok (- ret) (srv_send_buf f)) (\<lambda>b.
            Inr (sv_OnSend V io ret (f\<lparr>srv_send_buf := b\<rparr>),
                 [SysEv (EvSend (srv_sock f) (take (nat ret) bytes)), CbSend ret], False))
        else if IS_NOBLOCK_WRITE_ERRNO (io_send_errno io) then Inr (f, [], False)
        else case srv_end V io (io_close_errno io (io_send_errno io)) f of (f, evs) \<Rightarrow> Inr (f, evs, True))"

definition srv_recv ::
  "bool \<Rightarrow> (nat \<Rightarrow> bool) \<Rightarrow> ('i srv_io_scheme, 'a TcpServerFSM_scheme) srv_virtuals \<Rightarrow> 'i srv_io_scheme
    \<Rightarrow> 'a TcpServerFSM_scheme \<Rightarrow> ('a TcpServerFSM_scheme \<times> srv_event list \<times> bool) cres" where
  "srv_recv ae mem_ok V io f =
     (let b = srv_recv_buf f; room = size_sub (ab_Capacity b) (ab_Length b)
      in bindE (if 8 * 1024 > room then ab_AddCapacity ae mem_ok (size_sub (16 * 1024) room) b else Inr b) (\<lambda>b.
      let ret = io_recv io
      in if 0 < ret then
           bindE (block_write (ab_parray b) (int (ab_Length b)) (io_recv_data io)) (\<lambda>arr.
           bindE (ab_SetLength ae (ab_Pos b) (size_add (ab_Length b) (to_size ret)) (b\<lparr>ab_parray := arr\<rparr>)) (\<lambda>b.
             Inr (sv_OnRecv V io ret (f\<lparr>srv_recv_buf := b\<rparr>),
                  [SysEv (EvRecv (srv_sock f) (io_recv_data io)), CbRecv ret], False)))
         else
           let f = f\<lparr>srv_recv_buf := b\<rparr>
           in if 0 = ret then (case srv_end V io 0 f of (f, evs) \<Rightarrow> Inr (f, evs, True))
              else if IS_NOBLOCK_READ_ERRNO (io_recv_errno io) then Inr (f, [], False)
              else case srv_end V io (io_close_errno io (io_recv_errno io)) f of (f, evs) \<Rightarrow> Inr (f, evs, True)))"

definition srv_AfterReadWriteSelect ::
  "bool \<Rightarrow> bool \<Rightarrow> (nat \<Rightarrow> bool) \<Rightarrow> ('i srv_io_scheme, 'a TcpServerFSM_scheme) srv_virtuals \<Rightarrow> 'i srv_io_scheme
    \<Rightarrow> SocketSelect \<Rightarrow> 'a TcpServerFSM_scheme \<Rightarrow> ('a TcpServerFSM_scheme \<times> srv_event list) cres" where
  "srv_AfterReadWriteSelect sk ae mem_ok V io sel f =
     ASSERT sk (kReadWrite = srv_status f)
       (let timeout = sv_ReadWriteTimeout V f
        in if Exception_FD_ISSET (srv_sock f) sel \<noteq> 0 then Inr (srv_end V io (socket_error io) f)
           else
             bindE (if Write_FD_ISSET (srv_sock f) sel \<noteq> 0 then srv_send ae mem_ok V io f else Inr (f, [], False))
               (\<lambda>(f, evs1, ended).
             if ended then Inr (f, evs1)
             else
               bindE (if Read_FD_ISSET (srv_sock f) sel \<noteq> 0 then srv_recv ae mem_ok V io f else Inr (f, [], False))
                 (\<lambda>(f, evs2, ended).
               if ended then Inr (f, evs1 @ evs2)
               else if Write_FD_ISSET (srv_sock f) sel = 0 \<and> Read_FD_ISSET (srv_sock f) sel = 0 \<and> 0 \<ge> timeout
               then (case srv_end V io ETIMEDOUT f of (f, evs3) \<Rightarrow> Inr (f, evs1 @ evs2 @ evs3))
               else Inr (f, evs1 @ evs2))))"

definition srv_AfterSelect ::
  "bool \<Rightarrow> bool \<Rightarrow> (nat \<Rightarrow> bool) \<Rightarrow> ('i srv_io_scheme, 'a TcpServerFSM_scheme) srv_virtuals \<Rightarrow> 'i srv_io_scheme
    \<Rightarrow> SocketSelect \<Rightarrow> 'a TcpServerFSM_scheme \<Rightarrow> ('a TcpServerFSM_scheme \<times> srv_event list) cres" where
  "srv_AfterSelect sk ae mem_ok V io sel f =
     (if kReadWrite = srv_status f then srv_AfterReadWriteSelect sk ae mem_ok V io sel f else Inr (f, []))"

definition srv_Timeout :: "('i, 'a TcpServerFSM_scheme) srv_virtuals \<Rightarrow> 'a TcpServerFSM_scheme \<Rightarrow> int" where
  "srv_Timeout V f =
     (if kReadWrite = srv_status f then sv_ReadWriteTimeout V f else if kEnd = srv_status f then 0 else INT_MAX)"

text \<open>A sequence of calls on one object, with its whole trace.\<close>

datatype 'i srv_op = SrvPre 'i SocketSelect | SrvAfter 'i SocketSelect | SrvClose 'i bool

fun srv_exec ::
  "bool \<Rightarrow> bool \<Rightarrow> (nat \<Rightarrow> bool) \<Rightarrow> ('i srv_io_scheme, 'a TcpServerFSM_scheme) srv_virtuals \<Rightarrow> 'i srv_io_scheme srv_op
    \<Rightarrow> 'a TcpServerFSM_scheme \<Rightarrow> ('a TcpServerFSM_scheme \<times> srv_event list) cres" where
  "srv_exec sk ae mem_ok V (SrvPre io sel) f = bindE (srv_PreSelect sk V io sel f) (\<lambda>(f, sel, evs). Inr (f, evs))"
| "srv_exec sk ae mem_ok V (SrvAfter io sel) f = srv_AfterSelect sk ae mem_ok V io sel f"
| "srv_exec sk ae mem_ok V (SrvClose io notify) f = Inr (srv_Close V io notify f)"

fun srv_run ::
  "bool \<Rightarrow> bool \<Rightarrow> (nat \<Rightarrow> bool) \<Rightarrow> ('i srv_io_scheme, 'a TcpServerFSM_scheme) srv_virtuals \<Rightarrow> 'i srv_io_scheme srv_op list
    \<Rightarrow> 'a TcpServerFSM_scheme \<Rightarrow> ('a TcpServerFSM_scheme \<times> srv_event list) cres" where
  "srv_run sk ae mem_ok V [] f = Inr (f, [])"
| "srv_run sk ae mem_ok V (op # ops) f =
     bindE (srv_exec sk ae mem_ok V op f) (\<lambda>(f, evs1).
     bindE (srv_run sk ae mem_ok V ops f) (\<lambda>(f, evs2). Inr (f, evs1 @ evs2)))"

section \<open>The contract of a derived class and of the environment\<close>

definition srv_bufs :: "'a TcpServerFSM_scheme \<Rightarrow> bool" where
  "srv_bufs f \<longleftrightarrow> ab_inv (srv_send_buf f) \<and> ab_inv (srv_recv_buf f)"

definition srv_keeps :: "('a TcpServerFSM_scheme \<Rightarrow> 'a TcpServerFSM_scheme) \<Rightarrow> bool" where
  "srv_keeps g \<longleftrightarrow> (\<forall>f. srv_status (g f) = srv_status f \<and> srv_sock (g f) = srv_sock f \<and> (srv_bufs f \<longrightarrow> srv_bufs (g f)))"

text \<open>
  Virtual functions may use the buffers but leave the state of the connection alone; \<open>_OnSend\<close>
  leaves the receive buffer alone.
\<close>

definition srv_contract :: "('i, 'a TcpServerFSM_scheme) srv_virtuals \<Rightarrow> bool" where
  "srv_contract V \<longleftrightarrow> (\<forall>io n st err user. srv_keeps (sv_OnAccept V io) \<and> srv_keeps (sv_OnRecv V io n) \<and> srv_keeps (sv_OnSend V io n)
     \<and> srv_keeps (sv_OnClose V io st err user) \<and> (\<forall>f. srv_recv_buf (sv_OnSend V io n f) = srv_recv_buf f))"

text \<open>What \<open>send\<close> and \<open>recv\<close> guarantee at each call of a sequence, and that the receive buffer may grow.\<close>

fun srv_op_env :: "(nat \<Rightarrow> bool) \<Rightarrow> 'i srv_io_scheme srv_op \<Rightarrow> 'a TcpServerFSM_scheme \<Rightarrow> bool" where
  "srv_op_env mem_ok (SrvAfter io sel) f \<longleftrightarrow> io_send io < 4611686018427387904 \<and> recv_fits mem_ok io (srv_recv_buf f)"
| "srv_op_env mem_ok _ f \<longleftrightarrow> True"

fun srv_env ::
  "bool \<Rightarrow> bool \<Rightarrow> (nat \<Rightarrow> bool) \<Rightarrow> ('i srv_io_scheme, 'a TcpServerFSM_scheme) srv_virtuals \<Rightarrow> 'i srv_io_scheme srv_op list
    \<Rightarrow> 'a TcpServerFSM_scheme \<Rightarrow> bool" where
  "srv_env sk ae mem_ok V [] f \<longleftrightarrow> True"
| "srv_env sk ae mem_ok V (op # ops) f \<longleftrightarrow> srv_op_env mem_ok op f \<and>
     (case srv_exec sk ae mem_ok V op f of Inl _ \<Rightarrow> True | Inr (f, evs) \<Rightarrow> srv_env sk ae mem_ok V ops f)"

section \<open>The life of a connection\<close>

text \<open>Traffic of an established connection on its socket.\<close>

fun io_ev :: "int \<Rightarrow> srv_event \<Rightarrow> bool" where
  "io_ev sock (SysEv (EvSend s bs)) \<longleftrightarrow> s = sock"
| "io_ev sock (SysEv (EvRecv s bs)) \<longleftrightarrow> s = sock"
| "io_ev sock (CbSend n) \<longleftrightarrow> True"
| "io_ev sock (CbRecv n) \<longleftrightarrow> True"
| "io_ev sock _ \<longleftrightarrow> False"

text \<open>Nothing, or one \<open>_OnAccept\<close> followed by traffic.\<close>

definition served :: "int \<Rightarrow> srv_event list \<Rightarrow> bool" where
  "served sock tr \<longleftrightarrow> tr = [] \<or> (\<exists>xs. tr = CbAccept # xs \<and> list_all (io_ev sock) xs)"

text \<open>The close of the socket, perhaps followed by one \<open>_OnClose\<close>.\<close>

definition ending :: "int \<Rightarrow> srv_event list \<Rightarrow> bool" where
  "ending sock tr \<longleftrightarrow> tr = [SysEv (EvClose sock)] \<or> (\<exists>st err user. tr = [SysEv (EvClose sock), CbClose st err user])"

definition ended_trace :: "int \<Rightarrow> srv_event list \<Rightarrow> bool" where
  "ended_trace sock tr \<longleftrightarrow> (\<exists>xs ys. tr = xs @ ys \<and> served sock xs \<and> ending sock ys)"

definition srv_life :: "int \<Rightarrow> 'a TcpServerFSM_scheme \<Rightarrow> srv_event list \<Rightarrow> bool" where
  "srv_life sock f tr \<longleftrightarrow> srv_bufs f \<and>
     (case srv_status f of
        kAccept \<Rightarrow> srv_sock f = sock \<and> tr = []
      | kReadWrite \<Rightarrow> srv_sock f = sock \<and> served sock tr \<and> tr \<noteq> []
      | kEnd \<Rightarrow> srv_sock f = INVALID_SOCKET \<and> ended_trace sock tr)"

lemma srv_life_cases:
  "srv_status f = kAccept \<Longrightarrow> srv_life sock f tr \<longleftrightarrow> srv_bufs f \<and> srv_sock f = sock \<and> tr = []"
  "srv_status f = kReadWrite \<Longrightarrow> srv_life sock f tr \<longleftrightarrow> srv_bufs f \<and> srv_sock f = sock \<and> served sock tr \<and> tr \<noteq> []"
  "srv_status f = kEnd \<Longrightarrow> srv_life sock f tr \<longleftrightarrow> srv_bufs f \<and> srv_sock f = INVALID_SOCKET \<and> ended_trace sock tr"
  by (simp_all add: srv_life_def)

lemma endingI [simp]: "ending sock [SysEv (EvClose sock)]" "ending sock [SysEv (EvClose sock), CbClose st err user]"
  unfolding ending_def by blast+

lemma ended_traceI [simp]:
  "served sock tr \<Longrightarrow> ended_trace sock (tr @ [SysEv (EvClose sock)])"
  "served sock tr \<Longrightarrow> ended_trace sock (tr @ [SysEv (EvClose sock), CbClose st err user])"
  "ended_trace sock [SysEv (EvClose sock)]" "ended_trace sock [SysEv (EvClose sock), CbClose st err user]"
proof -
  have "served sock []" by (simp add: served_def)
  then show "ended_trace sock [SysEv (EvClose sock)]" "ended_trace sock [SysEv (EvClose sock), CbClose st err user]"
    unfolding ended_trace_def by (metis append_Nil endingI)+
qed (use endingI in \<open>unfold ended_trace_def, blast+\<close>)

lemma served_more: "served sock tr \<Longrightarrow> tr \<noteq> [] \<Longrightarrow> list_all (io_ev sock) xs \<Longrightarrow> served sock (tr @ xs)"
  by (auto simp: served_def)

lemma srv_keepsD:
  assumes "srv_keeps g"
  shows "srv_status (g f) = srv_status f" "srv_sock (g f) = srv_sock f" "srv_bufs f \<Longrightarrow> srv_bufs (g f)"
  using assms by (simp_all add: srv_keeps_def)

lemma contractD:
  assumes "srv_contract V"
  shows "srv_keeps (sv_OnAccept V io)" "srv_keeps (sv_OnRecv V io n)" "srv_keeps (sv_OnSend V io n)"
    "srv_keeps (sv_OnClose V io st err user)" "srv_recv_buf (sv_OnSend V io n f) = srv_recv_buf f"
  using assms by (auto simp: srv_contract_def)

lemmas srv_cb = srv_keepsD[OF contractD(1)] srv_keepsD[OF contractD(2)] srv_keepsD[OF contractD(3)] srv_keepsD[OF contractD(4)]

lemma srv_bufs_frame [simp]:
  "srv_bufs (f\<lparr>srv_sock := k\<rparr>) = srv_bufs f" "srv_bufs (f\<lparr>srv_status := st\<rparr>) = srv_bufs f"
  "srv_bufs (f\<lparr>srv_is_write_fd_set := w\<rparr>) = srv_bufs f"
  by (simp_all add: srv_bufs_def)

lemma srv_end_life:
  assumes "srv_contract V" and "srv_life sock f tr" and "srv_status f = kReadWrite"
  shows "\<exists>f' evs. srv_end V io err f = (f', evs) \<and> srv_life sock f' (tr @ evs) \<and> srv_status f' = kEnd"
proof -
  have "served sock tr" "srv_sock f = sock" "srv_bufs f" using assms(2,3) by (simp_all add: srv_life_cases)
  then show ?thesis
    by (simp add: srv_end_def Let_def srv_cb[OF assms(1)] srv_life_cases)
qed

lemma send_buffer_run:
  assumes "ab_inv b" and "n < 4611686018427387904"
  shows "block_read (ab_parray b) 0 (ab_Length b) = Inr (ab_contents b)"
    "\<exists>b'. ab_Move ae mem_ok (- int (nat n)) b = Inr b' \<and> ab_inv b' \<and> ab_contents b' = drop (nat n) (ab_contents b)"
proof -
  show "block_read (ab_parray b) 0 (ab_Length b) = Inr (ab_contents b)"
    using block_read_contents[OF assms(1), of 0 "ab_length b"] ab_inv_sizes(5)[OF assms(1)]
    by (simp add: ab_Length_def get_at_def)
  have "nat n < 4611686018427387904" using assms(2) by linarith
  then show "\<exists>b'. ab_Move ae mem_ok (- int (nat n)) b = Inr b' \<and> ab_inv b' \<and> ab_contents b' = drop (nat n) (ab_contents b)"
    using Move_backward_ok[OF assms(1), of "nat n" ae mem_ok] by blast
qed

text \<open>The two parts of \<open>AfterReadWriteSelect\<close>, computed.\<close>

lemma srv_send_run:
  assumes "srv_bufs f" and "io_send io < 4611686018427387904"
  shows "\<exists>b. ab_inv b \<and> ab_contents b = drop (nat (io_send io)) (ab_contents (srv_send_buf f)) \<and>
    srv_send ae mem_ok V io f =
      (if 0 < io_send io then
         Inr (sv_OnSend V io (io_send io) (f\<lparr>srv_send_buf := b\<rparr>),
              [SysEv (EvSend (srv_sock f) (take (nat (io_send io)) (ab_contents (srv_send_buf f)))), CbSend (io_send io)], False)
       else if IS_NOBLOCK_WRITE_ERRNO (io_send_errno io) then Inr (f, [], False)
       else case srv_end V io (io_close_errno io (io_send_errno io)) f of (f, evs) \<Rightarrow> Inr (f, evs, True))"
proof -
  have inv: "ab_inv (srv_send_buf f)" using assms(1) by (simp add: srv_bufs_def)
  obtain b where b: "ab_Move ae mem_ok (- int (nat (io_send io))) (srv_send_buf f) = Inr b" "ab_inv b"
    "ab_contents b = drop (nat (io_send io)) (ab_contents (srv_send_buf f))"
    using send_buffer_run(2)[OF inv assms(2)] by blast
  have "0 < io_send io \<Longrightarrow> ab_Move ae mem_ok (- io_send io) (srv_send_buf f) = Inr b" using b(1) by simp
  then show ?thesis
    using b(2,3) by (intro exI[of _ b]) (simp add: srv_send_def send_buffer_run(1)[OF inv assms(2)] Let_def)
qed

lemma srv_recv_run:
  assumes "srv_bufs f" and "recv_fits mem_ok io (srv_recv_buf f)"
  shows "\<exists>b. ab_inv b \<and> ab_contents b = ab_contents (srv_recv_buf f) @ (if 0 < io_recv io then io_recv_data io else []) \<and>
    srv_recv ae mem_ok V io f =
      (if 0 < io_recv io then
         Inr (sv_OnRecv V io (io_recv io) (f\<lparr>srv_recv_buf := b\<rparr>),
              [SysEv (EvRecv (srv_sock f) (io_recv_data io)), CbRecv (io_recv io)], False)
       else if 0 = io_recv io then (case srv_end V io 0 (f\<lparr>srv_recv_buf := b\<rparr>) of (f, evs) \<Rightarrow> Inr (f, evs, True))
       else if IS_NOBLOCK_READ_ERRNO (io_recv_errno io) then Inr (f\<lparr>srv_recv_buf := b\<rparr>, [], False)
       else case srv_end V io (io_close_errno io (io_recv_errno io)) (f\<lparr>srv_recv_buf := b\<rparr>) of (f, evs) \<Rightarrow> Inr (f, evs, True))"
proof -
  define room where "room = size_sub (ab_Capacity (srv_recv_buf f)) (ab_Length (srv_recv_buf f))"
  have inv: "ab_inv (srv_recv_buf f)" using assms(1) by (simp add: srv_bufs_def)
  obtain b' where b': "(if 8 * 1024 > room then ab_AddCapacity ae mem_ok (size_sub (16 * 1024) room) (srv_recv_buf f)
      else Inr (srv_recv_buf f)) = Inr b'" "ab_inv b'" "ab_contents b' = ab_contents (srv_recv_buf f)"
      "ab_length (srv_recv_buf f) + recv_limit (srv_recv_buf f) = ab_capacity b'"
    using AddCapacity_recv[OF inv assms(2), of ae] unfolding room_def by metis
  note run = b'(1) srv_recv_def[of ae mem_ok V io f, unfolded Let_def, folded room_def]
  show ?thesis
  proof (cases "0 < io_recv io")
    case True
    then have l: "io_recv io = int (length (io_recv_data io))" "length (io_recv_data io) \<le> recv_limit (srv_recv_buf f)"
      "io_recv_data io \<noteq> []"
      using assms(2) by (auto simp: recv_fits_def)
    have "length (ab_contents (srv_recv_buf f)) + length (io_recv_data io) \<le> ab_capacity b'"
      using b'(4) l(2) ab_inv_sizes(5)[OF inv] by simp
    from SetLength_append[OF b'(2) this b'(3)[symmetric] l(3), of ae]
    obtain b arr where "block_write (ab_parray b') (int (ab_Length b')) (io_recv_data io) = Inr arr"
        "ab_SetLength ae (ab_Pos b') (size_add (ab_Length b') (to_size (int (length (io_recv_data io))))) (b'\<lparr>ab_parray := arr\<rparr>) = Inr b"
        "ab_inv b" "ab_contents b = ab_contents (srv_recv_buf f) @ io_recv_data io"
      by (auto simp: bindE_eq_Inr)
    with True run show ?thesis by (intro exI[of _ b]) (simp add: l(1))
  next
    case False
    with run b'(2,3) show ?thesis by (intro exI[of _ b']) simp
  qed
qed

text \<open>Every call succeeds and continues the life of the connection.\<close>

definition part_ok ::
  "int \<Rightarrow> srv_event list \<Rightarrow> ('a TcpServerFSM_scheme \<Rightarrow> bool) \<Rightarrow> ('a TcpServerFSM_scheme \<times> srv_event list \<times> bool) cres \<Rightarrow> bool" where
  "part_ok sock tr P r = (case r of Inl _ \<Rightarrow> False | Inr (f, evs, ended) \<Rightarrow>
     srv_life sock f (tr @ evs) \<and> srv_status f = (if ended then kEnd else kReadWrite) \<and> (ended \<or> P f))"

lemma part_okE:
  assumes "part_ok sock tr P r"
  obtains f evs ended where "r = Inr (f, evs, ended)" "srv_life sock f (tr @ evs)"
    "srv_status f = (if ended then kEnd else kReadWrite)" "ended \<or> P f"
  using assms by (auto simp: part_ok_def split: sum.splits prod.splits)

lemma part_ok_end:
  assumes "srv_contract V" and "srv_life sock f tr" and "srv_status f = kReadWrite"
  shows "part_ok sock tr P (case srv_end V io err f of (f, evs) \<Rightarrow> Inr (f, evs, True))"
  using srv_end_life[OF assms, of io err] by (auto simp: part_ok_def)

lemma srv_send_life:
  assumes "srv_contract V" and "srv_life sock f tr" and "srv_status f = kReadWrite" and "io_send io < 4611686018427387904"
  shows "part_ok sock tr (\<lambda>f'. srv_recv_buf f' = srv_recv_buf f) (srv_send ae mem_ok V io f)"
proof -
  have f: "srv_bufs f" "srv_sock f = sock" "served sock tr" "tr \<noteq> []" using assms(2,3) by (simp_all add: srv_life_cases)
  obtain b where b: "ab_inv b" "srv_send ae mem_ok V io f =
      (if 0 < io_send io then
         Inr (sv_OnSend V io (io_send io) (f\<lparr>srv_send_buf := b\<rparr>),
              [SysEv (EvSend (srv_sock f) (take (nat (io_send io)) (ab_contents (srv_send_buf f)))), CbSend (io_send io)], False)
       else if IS_NOBLOCK_WRITE_ERRNO (io_send_errno io) then Inr (f, [], False)
       else case srv_end V io (io_close_errno io (io_send_errno io)) f of (f, evs) \<Rightarrow> Inr (f, evs, True))"
    using srv_send_run[OF f(1) assms(4)] by metis
  have "srv_bufs (f\<lparr>srv_send_buf := b\<rparr>)" using f(1) b(1) by (simp add: srv_bufs_def)
  then have "part_ok sock tr (\<lambda>f'. srv_recv_buf f' = srv_recv_buf f) (Inr (sv_OnSend V io (io_send io) (f\<lparr>srv_send_buf := b\<rparr>),
              [SysEv (EvSend (srv_sock f) (take (nat (io_send io)) (ab_contents (srv_send_buf f)))), CbSend (io_send io)], False))"
    using f assms(3) by (simp add: part_ok_def srv_cb[OF assms(1)] contractD(5)[OF assms(1)] srv_life_cases served_more)
  then show ?thesis
    using part_ok_end[OF assms(1-3)] assms(2,3) by (simp add: b(2)) (simp add: part_ok_def)
qed

lemma srv_recv_life:
  assumes "srv_contract V" and "srv_life sock f tr" and "srv_status f = kReadWrite" and "recv_fits mem_ok io (srv_recv_buf f)"
  shows "part_ok sock tr (\<lambda>f'. True) (srv_recv ae mem_ok V io f)"
proof -
  have f: "srv_bufs f" "srv_sock f = sock" "served sock tr" "tr \<noteq> []" using assms(2,3) by (simp_all add: srv_life_cases)
  obtain b where b: "ab_inv b" "srv_recv ae mem_ok V io f =
      (if 0 < io_recv io then
         Inr (sv_OnRecv V io (io_recv io) (f\<lparr>srv_recv_buf := b\<rparr>),
              [SysEv (EvRecv (srv_sock f) (io_recv_data io)), CbRecv (io_recv io)], False)
       else if 0 = io_recv io then (case srv_end V io 0 (f\<lparr>srv_recv_buf := b\<rparr>) of (f, evs) \<Rightarrow> Inr (f, evs, True))
       else if IS_NOBLOCK_READ_ERRNO (io_recv_errno io) then Inr (f\<lparr>srv_recv_buf := b\<rparr>, [], False)
       else case srv_end V io (io_close_errno io (io_recv_errno io)) (f\<lparr>srv_recv_buf := b\<rparr>) of (f, evs) \<Rightarrow> Inr (f, evs, True))"
    using srv_recv_run[OF f(1) assms(4)] by metis
  have bo: "srv_bufs (f\<lparr>srv_recv_buf := b\<rparr>)" using f(1) b(1) by (simp add: srv_bufs_def)
  then have life: "srv_life sock (f\<lparr>srv_recv_buf := b\<rparr>) tr" using f assms(3) by (simp add: srv_life_cases)
  have "part_ok sock tr (\<lambda>f'. True) (Inr (sv_OnRecv V io (io_recv io) (f\<lparr>srv_recv_buf := b\<rparr>),
              [SysEv (EvRecv (srv_sock f) (io_recv_data io)), CbRecv (io_recv io)], False))"
    using f bo assms(3) by (simp add: part_ok_def srv_cb[OF assms(1)] srv_life_cases served_more)
  then show ?thesis
    using part_ok_end[OF assms(1) life, of "\<lambda>f'. True"] assms(3) life by (simp add: b(2)) (simp add: part_ok_def)
qed

lemma srv_AfterSelect_life:
  assumes "srv_contract V" and "srv_life sock f tr" and "io_send io < 4611686018427387904" and "recv_fits mem_ok io (srv_recv_buf f)"
  shows "\<exists>f' evs. srv_AfterSelect sk ae mem_ok V io sel f = Inr (f', evs) \<and> srv_life sock f' (tr @ evs)"
proof (cases "srv_status f = kReadWrite \<and> Exception_FD_ISSET (srv_sock f) sel = 0")
  case False
  then show ?thesis
    using assms(2) srv_end_life[OF assms(1,2), of io "socket_error io"]
    by (auto simp: srv_AfterSelect_def srv_AfterReadWriteSelect_def Let_def)
next
  case True
  then have st: "srv_status f = kReadWrite" and ex: "Exception_FD_ISSET (srv_sock f) sel = 0" by simp_all
  define s1 where "s1 = (if Write_FD_ISSET (srv_sock f) sel \<noteq> 0 then srv_send ae mem_ok V io f else Inr (f, [], False))"
  have "part_ok sock tr (\<lambda>f'. srv_recv_buf f' = srv_recv_buf f) s1"
    using srv_send_life[OF assms(1,2) st assms(3), of ae mem_ok] assms(2) st by (auto simp: s1_def) (simp add: part_ok_def)
  then obtain f1 evs1 e1 where s1: "s1 = Inr (f1, evs1, e1)" "srv_life sock f1 (tr @ evs1)"
      "srv_status f1 = (if e1 then kEnd else kReadWrite)" "e1 \<or> srv_recv_buf f1 = srv_recv_buf f" by (rule part_okE)
  note run = srv_AfterSelect_def srv_AfterReadWriteSelect_def Let_def s1_def[symmetric] s1(1)
  show ?thesis
  proof (cases e1)
    case True
    then show ?thesis using st ex s1(2) by (simp add: run)
  next
    case e1: False
    define s2 where "s2 = (if Read_FD_ISSET (srv_sock f1) sel \<noteq> 0 then srv_recv ae mem_ok V io f1 else Inr (f1, [], False))"
    have st1: "srv_status f1 = kReadWrite" "recv_fits mem_ok io (srv_recv_buf f1)" using s1(3,4) e1 assms(4) by simp_all
    have "part_ok sock (tr @ evs1) (\<lambda>f'. True) s2"
      using srv_recv_life[OF assms(1) s1(2) st1, of ae] s1(2) st1(1) by (auto simp: s2_def) (simp add: part_ok_def)
    then obtain f2 evs2 e2 where s2: "s2 = Inr (f2, evs2, e2)" "srv_life sock f2 (tr @ evs1 @ evs2)"
        "srv_status f2 = (if e2 then kEnd else kReadWrite)" by (rule part_okE) simp
    have run2: "srv_AfterSelect sk ae mem_ok V io sel f =
        (if e2 then Inr (f2, evs1 @ evs2)
         else if Write_FD_ISSET (srv_sock f2) sel = 0 \<and> Read_FD_ISSET (srv_sock f2) sel = 0 \<and> 0 \<ge> sv_ReadWriteTimeout V f
         then (case srv_end V io ETIMEDOUT f2 of (f, evs3) \<Rightarrow> Inr (f, evs1 @ evs2 @ evs3))
         else Inr (f2, evs1 @ evs2))"
      using st ex e1 by (simp add: run s2_def[symmetric] s2(1))
    show ?thesis
      using s2(2,3) srv_end_life[OF assms(1) s2(2), of io ETIMEDOUT] by (cases e2) (auto simp: run2)
  qed
qed

lemma srv_PreSelect_life:
  assumes "srv_contract V" and "srv_life sock f tr"
  shows "\<exists>f' sel' evs. srv_PreSelect sk V io sel f = Inr (f', sel', evs) \<and> srv_life sock f' (tr @ evs)"
proof (cases "srv_status f")
  case kAccept
  then show ?thesis
    using assms(2) by (simp add: srv_PreSelect_def srv_PreReadWriteSelect_def Let_def WriteFDSet_def srv_life_cases
        srv_cb[OF assms(1)] served_def)
next
  case kReadWrite
  then show ?thesis
    using assms(2) by (simp add: srv_PreSelect_def srv_PreReadWriteSelect_def Let_def WriteFDSet_def srv_life_cases)
next
  case kEnd
  then show ?thesis using assms(2) by (simp add: srv_PreSelect_def)
qed

lemma srv_Close_life:
  assumes "srv_contract V" and "srv_life sock f tr" and "sock \<noteq> INVALID_SOCKET"
  shows "\<exists>f' evs. srv_Close V io notify f = (f', evs) \<and> srv_life sock f' (tr @ evs) \<and> srv_status f' = kEnd"
proof (cases "srv_status f")
  case kEnd
  then show ?thesis using assms(2) by (simp add: srv_Close_def srv_life_cases)
next
  case kAccept
  then have "srv_bufs f" "srv_sock f = sock" "tr = []" "served sock []" using assms(2) by (simp_all add: srv_life_cases served_def)
  then show ?thesis
    using assms(3) kAccept by (simp add: srv_Close_def Let_def srv_life_cases srv_cb[OF assms(1)])
next
  case kReadWrite
  then have "srv_bufs f" "srv_sock f = sock" "served sock tr" using assms(2) by (simp_all add: srv_life_cases)
  then show ?thesis
    using assms(3) kReadWrite by (simp add: srv_Close_def Let_def srv_life_cases srv_cb[OF assms(1)])
qed

lemma srv_exec_life:
  assumes "srv_contract V" and "srv_life sock f tr" and "sock \<noteq> INVALID_SOCKET" and "srv_op_env mem_ok op f"
  shows "\<exists>f' evs. srv_exec sk ae mem_ok V op f = Inr (f', evs) \<and> srv_life sock f' (tr @ evs)"
proof (cases op)
  case (SrvPre io sel)
  then show ?thesis using srv_PreSelect_life[OF assms(1,2), of sk io sel] by auto
next
  case (SrvAfter io sel)
  then show ?thesis using srv_AfterSelect_life[OF assms(1,2), of io mem_ok] assms(4) by simp
next
  case (SrvClose io notify)
  then show ?thesis using srv_Close_life[OF assms(1-3), of io notify] by auto
qed

lemma srv_run_life:
  assumes "srv_contract V" and "sock \<noteq> INVALID_SOCKET" and "srv_life sock f tr" and "srv_env sk ae mem_ok V ops f"
  shows "\<exists>f' evs. srv_run sk ae mem_ok V ops f = Inr (f', evs) \<and> srv_life sock f' (tr @ evs)"
  using assms(3,4)
proof (induction ops arbitrary: f tr)
  case (Cons op ops)
  obtain f1 evs1 where 1: "srv_exec sk ae mem_ok V op f = Inr (f1, evs1)" "srv_life sock f1 (tr @ evs1)"
    using srv_exec_life[OF assms(1) Cons.prems(1) assms(2)] Cons.prems(2) by fastforce
  obtain f2 evs2 where "srv_run sk ae mem_ok V ops f1 = Inr (f2, evs2)" "srv_life sock f2 ((tr @ evs1) @ evs2)"
    using Cons.IH[OF 1(2)] Cons.prems(2) 1(1) by auto
  with 1(1) show ?case by simp
qed simp

section \<open>Properties\<close>


definition demo_srv_virtuals :: "('i, TcpServerFSM) srv_virtuals" where
  "demo_srv_virtuals = \<lparr>sv_OnAccept = (\<lambda>io f. f), sv_OnRecv = (\<lambda>io n f. f\<lparr>srv_recv_buf := AutoBuffer_new 128\<rparr>),
     sv_OnSend = (\<lambda>io n f. f), sv_OnClose = (\<lambda>io st err user f. f), sv_ReadWriteTimeout = (\<lambda>f. srv_base_ReadWriteTimeout)\<rparr>"

definition demo_srv_io :: srv_io where
  "demo_srv_io =
     \<lparr>io_socket = 0, io_socket_errno = 0, io_nobio = 0, io_nobio_errno = 0, io_connect = 0, io_connect_errno = 0,
      io_getsockopt = 0, io_so_error = 0, io_getsockopt_errno = 0, io_send = 2, io_send_errno = 0, io_recv = 3,
      io_recv_data = [1, 2, 3], io_recv_errno = 0, io_t_start = 0, io_t_end = 0, io_t_timeout = 0,
      io_close_errno = (\<lambda>e. e)\<rparr>"

definition demo_srv_sel :: SocketSelect where
  "demo_srv_sel = \<lparr>ss_vfds = [\<lparr>pfd = 7, pevents = POLLIN OR POLLOUT OR POLLERR, prevents = POLLIN OR POLLOUT\<rparr>],
     ss_ret = 1, ss_errno = 0, ss_autoclear = False\<rparr>"

lemma demo_srv_contract: "srv_contract demo_srv_virtuals"
  using AutoBuffer_new_ok(1)[of 128]
  by (simp add: srv_contract_def demo_srv_virtuals_def srv_keeps_def srv_bufs_def)

lemma demo_srv_fits: "recv_fits (\<lambda>n. True) demo_srv_io (AutoBuffer_new 128)"
  using round_up_bounds(1)[of 128 16384] round_up_bounds(2)[of 128 16384]
  by (simp add: recv_fits_def fits_def recv_limit_def demo_srv_io_def Let_def)


text \<open>
  An established connection moves bytes exactly. When a round finds the socket ready in both
  directions, the bytes sent are a prefix of the send buffer and \<open>_OnSend\<close> sees the rest of it; the bytes
  received are appended to the receive buffer and \<open>_OnRecv\<close> sees the result, called in this order with
  the two counts.
\<close>

theorem TcpServerFSM_moves_bytes:
  assumes "srv_contract V" and "srv_bufs f" and "srv_status f = kReadWrite"
    and "Exception_FD_ISSET (srv_sock f) sel = 0" and "Write_FD_ISSET (srv_sock f) sel \<noteq> 0" and "Read_FD_ISSET (srv_sock f) sel \<noteq> 0"
    and "0 < io_send io" and "io_send io < 4611686018427387904" and "0 < io_recv io" and "recv_fits mem_ok io (srv_recv_buf f)"
  shows "\<exists>sent sb rb. srv_AfterSelect sk ae mem_ok V io sel f =
      Inr (sv_OnRecv V io (io_recv io) ((sv_OnSend V io (io_send io) (f\<lparr>srv_send_buf := sb\<rparr>))\<lparr>srv_recv_buf := rb\<rparr>),
           [SysEv (EvSend (srv_sock f) sent), CbSend (io_send io),
            SysEv (EvRecv (srv_sock f) (io_recv_data io)), CbRecv (io_recv io)])
    \<and> sent = take (nat (io_send io)) (ab_contents (srv_send_buf f)) \<and> ab_contents (srv_send_buf f) = sent @ ab_contents sb
    \<and> ab_contents rb = ab_contents (srv_recv_buf f) @ io_recv_data io \<and> ab_inv sb \<and> ab_inv rb"
proof -
  obtain sb where sb: "ab_inv sb" "ab_contents sb = drop (nat (io_send io)) (ab_contents (srv_send_buf f))"
    "srv_send ae mem_ok V io f = Inr (sv_OnSend V io (io_send io) (f\<lparr>srv_send_buf := sb\<rparr>),
       [SysEv (EvSend (srv_sock f) (take (nat (io_send io)) (ab_contents (srv_send_buf f)))), CbSend (io_send io)], False)"
    using srv_send_run[OF assms(2,8), of ae mem_ok V] assms(7) by auto
  define f1 where "f1 = sv_OnSend V io (io_send io) (f\<lparr>srv_send_buf := sb\<rparr>)"
  have "srv_bufs (f\<lparr>srv_send_buf := sb\<rparr>)" using assms(2) sb(1) by (simp add: srv_bufs_def)
  then have f1: "srv_bufs f1" "srv_sock f1 = srv_sock f" "srv_recv_buf f1 = srv_recv_buf f"
    by (simp_all add: f1_def srv_cb[OF assms(1)] contractD(5)[OF assms(1)])
  obtain rb where rb: "ab_inv rb" "ab_contents rb = ab_contents (srv_recv_buf f) @ io_recv_data io"
    "srv_recv ae mem_ok V io f1 = Inr (sv_OnRecv V io (io_recv io) (f1\<lparr>srv_recv_buf := rb\<rparr>),
       [SysEv (EvRecv (srv_sock f) (io_recv_data io)), CbRecv (io_recv io)], False)"
    using srv_recv_run[OF f1(1), of mem_ok io ae V] assms(9,10) f1(2,3) by auto
  have "srv_sock (sv_OnRecv V io (io_recv io) (f1\<lparr>srv_recv_buf := rb\<rparr>)) = srv_sock f" using f1(2) by (simp add: srv_cb[OF assms(1)])
  then have "srv_AfterSelect sk ae mem_ok V io sel f = Inr (sv_OnRecv V io (io_recv io) (f1\<lparr>srv_recv_buf := rb\<rparr>),
      [SysEv (EvSend (srv_sock f) (take (nat (io_send io)) (ab_contents (srv_send_buf f)))), CbSend (io_send io),
       SysEv (EvRecv (srv_sock f) (io_recv_data io)), CbRecv (io_recv io)])"
    using assms(3-6) f1(2) rb(3)
    by (simp add: srv_AfterSelect_def srv_AfterReadWriteSelect_def Let_def sb(3) f1_def[symmetric])
  then show ?thesis using sb(1,2) rb(1,2) unfolding f1_def by (metis append_take_drop_id)
qed

theorem TcpServerFSM_moves_bytes_witness:
  "\<exists>f'. srv_AfterSelect True True (\<lambda>n. True) demo_srv_virtuals demo_srv_io demo_srv_sel
       ((TcpServerFSM_new_addr 7 [] ''1.2.3.4'')\<lparr>srv_status := kReadWrite\<rparr>)
     = Inr (f', [SysEv (EvSend 7 []), CbSend 2, SysEv (EvRecv 7 [1, 2, 3]), CbRecv 3])"
proof -
  define f where "f = (TcpServerFSM_new_addr 7 [] ''1.2.3.4'')\<lparr>srv_status := kReadWrite\<rparr>"
  have "srv_bufs f" "srv_status f = kReadWrite" using AutoBuffer_new_ok(1)[of 128]
    by (simp_all add: f_def TcpServerFSM_new_addr_def srv_bufs_def)
  moreover have "Exception_FD_ISSET (srv_sock f) demo_srv_sel = 0" "Write_FD_ISSET (srv_sock f) demo_srv_sel \<noteq> 0"
    "Read_FD_ISSET (srv_sock f) demo_srv_sel \<noteq> 0"
    by (simp_all add: f_def TcpServerFSM_new_addr_def demo_srv_sel_def Exception_FD_ISSET_def Write_FD_ISSET_def Read_FD_ISSET_def
        isset_def poll_consts)
  moreover have "recv_fits (\<lambda>n. True) demo_srv_io (srv_recv_buf f)" using demo_srv_fits by (simp add: f_def TcpServerFSM_new_addr_def)
  ultimately show ?thesis
    using TcpServerFSM_moves_bytes[OF demo_srv_contract, of f demo_srv_sel demo_srv_io "\<lambda>n. True" True True]
    unfolding f_def by (auto simp: demo_srv_io_def TcpServerFSM_new_addr_def)
qed

text \<open>
  A derived class whose \<open>_OnAccept\<close> closes the connection is not noticed: \<open>PreSelect\<close>
  overwrites the end status and goes on to watch the descriptor -1.
\<close>

theorem OnAccept_close_overwritten:
  assumes "sock \<noteq> INVALID_SOCKET" and "sv_OnAccept V = (\<lambda>io f. fst (srv_Close V io False f))"
    and "srv_status f = kAccept" and "srv_sock f = sock"
  shows "\<exists>f' sel'. srv_PreSelect sk V io (SocketSelect_new False) f = Inr (f', sel', [CbAccept])
    \<and> srv_status f' = kReadWrite \<and> srv_sock f' = INVALID_SOCKET \<and> INVALID_SOCKET \<in> pfd ` set (ss_vfds sel')"
  using assms
  by (auto simp: srv_PreSelect_def srv_Close_def srv_PreReadWriteSelect_def WriteFDSet_def Let_def SocketSelect_new_def
      Read_FD_SET_def Write_FD_SET_def Exception_FD_SET_def)

end
