(* ===== verification/TcpListen.thy ===== *)
theory TcpListen
  imports BlockSocket
begin

text \<open>
  Model of \<open>network/tcpserver.h\<close> and \<open>network/tcpserver.cc\<close>: a thread that listens on a port and hands
  every accepted connection to an observer. \<open>__ListenThread\<close> is split where it releases \<open>mutex_\<close>:
  opening the socket, the rounds of its loop, the end. The state of the object and of its thread is the record
  \<open>TcpServer\<close>; clients of the object and the thread interleave as the sequence of steps of \<open>lsn_run\<close>.
  Addresses are the byte image of a \<open>sockaddr_in\<close>.
\<close>

section \<open>State\<close>

datatype lsn_pc = LsnIdle | LsnStarted | LsnLoop | LsnEnding

text \<open>\<open>ts_waiting\<close>: a caller of \<open>StartAndWait\<close> sleeps in \<open>cond_.wait\<close>.\<close>

record TcpServer =
  ts_listen_sock :: int
  ts_bind_addr :: "byte list"
  ts_backlog :: int
  ts_breaker :: SocketSelectBreaker
  ts_pc :: lsn_pc
  ts_waiting :: bool

datatype lsn_event =
  LSys sys_event
| LAccepted int
| LOnCreate
| LOnAccept int "byte list"
| LOnError int

record lsn_open_io =
  lo_socket :: int
  lo_reuseaddr :: int
  lo_bind :: int
  lo_listen :: int

record lsn_round_io =
  lr_poll :: "pollfd list \<Rightarrow> int \<Rightarrow> int \<times> pollfd list \<times> int"
  lr_rd :: int
  lr_accept :: int
  lr_client_addr :: "byte list"

section \<open>Operations\<close>

definition TcpServer_new :: "byte list \<Rightarrow> int \<Rightarrow> SocketSelectBreaker \<Rightarrow> TcpServer" where
  "TcpServer_new bind_addr backlog breaker =
     \<lparr>ts_listen_sock = INVALID_SOCKET, ts_bind_addr = bind_addr, ts_backlog = backlog, ts_breaker = breaker,
      ts_pc = LsnIdle, ts_waiting = False\<rparr>"

text \<open>The constructor with a port: \<open>AF_INET\<close> (little endian), \<open>htons(_port)\<close>, \<open>INADDR_ANY\<close>, zeros.\<close>

definition any_addr :: "16 word \<Rightarrow> byte list" where
  "any_addr port = [2, 0, ucast (drop_bit 8 port), ucast port, 0, 0, 0, 0] @ replicate 8 0"

definition TcpServer_new_port :: "16 word \<Rightarrow> int \<Rightarrow> SocketSelectBreaker \<Rightarrow> TcpServer" where
  "TcpServer_new_port port backlog breaker = TcpServer_new (any_addr port) backlog breaker"

text \<open>
  \<open>StartAndWait\<close> up to the wait; the flag is its \<open>newone\<close>. \<open>rd\<close> is the result of the \<open>read\<close> of \<open>Clear\<close>, \<open>ret\<close> that
  of \<open>pthread_create\<close>, which \<open>Thread::start\<close> does not let \<open>newone\<close> depend on.
\<close>

definition StartAndWait :: "int \<Rightarrow> int \<Rightarrow> TcpServer \<Rightarrow> bool \<times> TcpServer" where
  "StartAndWait ret rd t =
     (if ts_pc t = LsnIdle
      then (True, t\<lparr>ts_pc := (if ret = 0 then LsnStarted else LsnIdle), ts_breaker := snd (Clear rd (ts_breaker t)),
                   ts_waiting := True\<rparr>)
      else (False, t))"

text \<open>The return value of \<open>StartAndWait\<close>, when it has the lock again.\<close>

definition StartAndWait_result :: "TcpServer \<Rightarrow> bool" where
  "StartAndWait_result t \<longleftrightarrow> INVALID_SOCKET \<noteq> ts_listen_sock t"

text \<open>\<open>StopAndWait\<close> up to the join.\<close>

definition StopAndWait :: "bool \<Rightarrow> int \<Rightarrow> pipe_io \<Rightarrow> TcpServer \<Rightarrow> (TcpServer \<times> int list) cres" where
  "StopAndWait sk wr pio t =
     (case Break wr (ts_breaker t) of (ok, b) \<Rightarrow>
        if \<not> ok then
          ASSERT sk False
            (case Breaker_Close b of (b, fds) \<Rightarrow>
               bindE (ReCreate sk pio b) (\<lambda>(_, b, fds2). Inr (t\<lparr>ts_breaker := b\<rparr>, fds @ fds2)))
        else Inr (t\<lparr>ts_breaker := b\<rparr>, []))"

text \<open>The first part of \<open>__ListenThread\<close>, under the lock: \<open>notifyAll\<close> is called on each path.\<close>

definition listen_open :: "bool \<Rightarrow> lsn_open_io \<Rightarrow> TcpServer \<Rightarrow> (TcpServer \<times> lsn_event list) cres" where
  "listen_open sk io t =
     ASSERT sk (INVALID_SOCKET = ts_listen_sock t)
       (let sock = lo_socket io;
            t = t\<lparr>ts_waiting := False\<rparr>;
            failed = t\<lparr>ts_pc := LsnEnding\<rparr>;
            shut = [LSys (EvSocket sock), LSys (EvClose sock)]
        in if INVALID_SOCKET = sock then Inr (failed, [])
           else if 0 > lo_reuseaddr io then Inr (failed, shut)
           else if 0 > lo_bind io then Inr (failed, shut)
           else if 0 > lo_listen io then Inr (failed, shut)
           else Inr (t\<lparr>ts_listen_sock := sock, ts_pc := LsnLoop\<rparr>, [LSys (EvSocket sock), LOnCreate]))"

text \<open>One round of the loop; leaving the loop is the step to \<open>LsnEnding\<close>.\<close>

definition listen_round :: "lsn_round_io \<Rightarrow> TcpServer \<Rightarrow> (TcpServer \<times> lsn_event list) cres" where
  "listen_round io t =
     (let sel = PreSelect (ts_breaker t) (SocketSelect_new False);
          sel = Read_FD_SET (ts_listen_sock t) (Exception_FD_SET (ts_listen_sock t) sel);
          leave = t\<lparr>ts_pc := LsnEnding\<rparr>
      in bindE (Select_forever (lr_poll io) (lr_rd io) (ts_breaker t) sel) (\<lambda>(selret, b, sel).
           if 0 > selret then Inr (leave, [])
           else if IsException b sel then Inr (leave, [])
           else if IsBreak b sel then Inr (leave, [])
           else if Exception_FD_ISSET (ts_listen_sock t) sel \<noteq> 0 then Inr (leave, [])
           else if Read_FD_ISSET (ts_listen_sock t) sel = 0 then Inr (leave, [])
           else
             let client = lr_accept io
             in if INVALID_SOCKET = client then Inr (leave, [])
                else Inr (t, [LAccepted client, LOnAccept client (lr_client_addr io)])))"

definition listen_end :: "int \<Rightarrow> TcpServer \<Rightarrow> TcpServer \<times> lsn_event list" where
  "listen_end errno t =
     (if INVALID_SOCKET \<noteq> ts_listen_sock t
      then (t\<lparr>ts_listen_sock := INVALID_SOCKET, ts_pc := LsnIdle\<rparr>, [LSys (EvClose (ts_listen_sock t)), LOnError errno])
      else (t\<lparr>ts_pc := LsnIdle\<rparr>, [LOnError errno]))"

text \<open>The steps of the callers and of the thread; a step of the thread that is not its next one changes nothing.\<close>

datatype lsn_step =
  DoStart int int
| DoStop int pipe_io
| DoOpen lsn_open_io
| DoRound lsn_round_io
| DoEnd int

fun lsn_exec :: "bool \<Rightarrow> lsn_step \<Rightarrow> TcpServer \<Rightarrow> (TcpServer \<times> lsn_event list) cres" where
  "lsn_exec sk (DoStart ret rd) t = Inr (snd (StartAndWait ret rd t), [])"
| "lsn_exec sk (DoStop wr pio) t = bindE (StopAndWait sk wr pio t) (\<lambda>(t, fds). Inr (t, []))"
| "lsn_exec sk (DoOpen io) t = (if ts_pc t = LsnStarted then listen_open sk io t else Inr (t, []))"
| "lsn_exec sk (DoRound io) t = (if ts_pc t = LsnLoop then listen_round io t else Inr (t, []))"
| "lsn_exec sk (DoEnd errno) t = (if ts_pc t = LsnEnding then Inr (listen_end errno t) else Inr (t, []))"

fun lsn_run :: "bool \<Rightarrow> lsn_step list \<Rightarrow> TcpServer \<Rightarrow> (TcpServer \<times> lsn_event list) cres" where
  "lsn_run sk [] t = Inr (t, [])"
| "lsn_run sk (s # ss) t =
     bindE (lsn_exec sk s t) (\<lambda>(t, evs1). bindE (lsn_run sk ss t) (\<lambda>(t, evs2). Inr (t, evs1 @ evs2)))"

section \<open>Lemmas\<close>

fun lsys :: "lsn_event list \<Rightarrow> sys_event list" where
  "lsys [] = []"
| "lsys (LSys e # evs) = e # lsys evs"
| "lsys (_ # evs) = lsys evs"

fun accepted :: "lsn_event list \<Rightarrow> int list" where
  "accepted [] = []"
| "accepted (LAccepted c # evs) = c # accepted evs"
| "accepted (_ # evs) = accepted evs"

fun handed :: "lsn_event list \<Rightarrow> int list" where
  "handed [] = []"
| "handed (LOnAccept c addr # evs) = c # handed evs"
| "handed (_ # evs) = handed evs"

fun ended :: "lsn_event list \<Rightarrow> nat" where
  "ended [] = 0"
| "ended (LOnError e # evs) = Suc (ended evs)"
| "ended (_ # evs) = ended evs"

lemma lsn_append [simp]:
  "lsys (xs @ ys) = lsys xs @ lsys ys" "accepted (xs @ ys) = accepted xs @ accepted ys"
  "handed (xs @ ys) = handed xs @ handed ys" "ended (xs @ ys) = ended xs + ended ys"
  by (induction xs rule: lsys.induct, simp_all)

definition lsn_held :: "TcpServer \<Rightarrow> int multiset" where
  "lsn_held t = (if ts_listen_sock t = INVALID_SOCKET then {#} else {#ts_listen_sock t#})"

text \<open>Between its start and its end the thread owns at most the socket it listens on.\<close>

definition lsn_inv :: "TcpServer \<Rightarrow> bool" where
  "lsn_inv t \<longleftrightarrow> (ts_pc t \<in> {LsnIdle, LsnStarted} \<longrightarrow> ts_listen_sock t = INVALID_SOCKET)
     \<and> (ts_pc t = LsnLoop \<longrightarrow> ts_listen_sock t \<noteq> INVALID_SOCKET)"

text \<open>What a step does to the ledger; \<open>n\<close> counts the threads it starts.\<close>

definition lsn_balanced :: "TcpServer \<Rightarrow> lsn_event list \<Rightarrow> nat \<Rightarrow> TcpServer \<Rightarrow> bool" where
  "lsn_balanced t evs n t' \<longleftrightarrow> lsn_held t + opened (lsys evs) = lsn_held t' + closed (lsys evs) \<and> accepted evs = handed evs
     \<and> of_bool (ts_pc t \<noteq> LsnIdle) + n = of_bool (ts_pc t' \<noteq> LsnIdle) + ended evs"

lemma lsn_balanced_trans:
  "lsn_balanced t evs n t' \<Longrightarrow> lsn_balanced t' evs' n' t'' \<Longrightarrow> lsn_balanced t (evs @ evs') (n + n') t''"
  unfolding lsn_balanced_def by (simp add: add.assoc) (metis add.assoc add.commute)

fun starts :: "lsn_step \<Rightarrow> TcpServer \<Rightarrow> nat" where
  "starts (DoStart ret rd) t = of_bool (ts_pc t = LsnIdle \<and> ret = 0)"
| "starts _ t = 0"

fun step_ok :: "bool \<Rightarrow> lsn_step \<Rightarrow> bool" where
  "step_ok sk (DoStop wr pio) \<longleftrightarrow> wr = 1 \<or> \<not> sk"
| "step_ok sk _ \<longleftrightarrow> True"

text \<open>No caller waits for a thread that is not there.\<close>

definition not_stranded :: "TcpServer \<Rightarrow> bool" where
  "not_stranded t \<longleftrightarrow> (ts_waiting t \<longrightarrow> ts_pc t = LsnStarted)"

lemma StopAndWait_ok:
  assumes "wr = 1 \<or> \<not> sk"
  shows "\<exists>b fds. StopAndWait sk wr pio t = Inr (t\<lparr>ts_breaker := b\<rparr>, fds)"
proof (cases "fst (Break wr (ts_breaker t))")
  case True
  then show ?thesis by (auto simp: StopAndWait_def split: prod.splits)
next
  case False
  then have "\<not> sk" using assms by (auto simp: Break_def Let_def split: if_splits)
  with False show ?thesis
    by (auto simp: StopAndWait_def ReCreate_def Let_def Breaker_Close_def split: prod.splits)
qed

lemma listen_round_ok:
  assumes "lsn_inv t" and "ts_pc t = LsnLoop"
  shows "\<exists>t' evs. listen_round io t = Inr (t', evs) \<and> lsn_inv t' \<and> lsn_balanced t evs 0 t'
    \<and> ts_pc t' \<noteq> LsnIdle \<and> ts_waiting t' = ts_waiting t"
proof -
  define sel where "sel = Read_FD_SET (ts_listen_sock t) (Exception_FD_SET (ts_listen_sock t) (PreSelect (ts_breaker t) (SocketSelect_new False)))"
  obtain ret s' where s: "Select (lr_poll io) (lr_rd io) (-1) (ts_breaker t) sel = Inr (ret, ts_breaker t, s')"
    using Select_runs[of sel "lr_poll io" "lr_rd io" "-1" "ts_breaker t"] by (auto simp: sel_def)
  show ?thesis
    using assms unfolding listen_round_def Let_def sel_def[symmetric] Select_forever_def s
    by (simp add: lsn_inv_def lsn_balanced_def lsn_held_def)
qed

lemma lsn_exec_ok:
  assumes "lsn_inv t" and "step_ok sk s"
  shows "\<exists>t' evs. lsn_exec sk s t = Inr (t', evs) \<and> lsn_inv t' \<and> lsn_balanced t evs (starts s t) t'"
proof (cases s)
  case (DoStart ret rd)
  then show ?thesis using assms(1) by (cases "ts_pc t = LsnIdle") (simp_all add: StartAndWait_def lsn_inv_def lsn_balanced_def lsn_held_def)
next
  case (DoStop wr pio)
  then obtain b fds where "StopAndWait sk wr pio t = Inr (t\<lparr>ts_breaker := b\<rparr>, fds)"
    using StopAndWait_ok assms(2) by fastforce
  then show ?thesis using assms(1) DoStop by (simp add: lsn_inv_def lsn_balanced_def lsn_held_def)
next
  case (DoOpen io)
  then show ?thesis
    using assms(1) by (cases "ts_pc t = LsnStarted") (simp_all add: listen_open_def Let_def lsn_inv_def lsn_balanced_def lsn_held_def)
next
  case (DoRound io)
  then show ?thesis
    using listen_round_ok[OF assms(1), of io] assms(1) by (cases "ts_pc t = LsnLoop") (auto simp: lsn_balanced_def)
next
  case (DoEnd e)
  then show ?thesis
    using assms(1) by (cases "ts_pc t = LsnEnding"; cases "ts_listen_sock t = -1")
      (simp_all add: listen_end_def lsn_inv_def lsn_balanced_def lsn_held_def)
qed

fun all_starts :: "bool \<Rightarrow> lsn_step list \<Rightarrow> TcpServer \<Rightarrow> nat" where
  "all_starts sk [] t = 0"
| "all_starts sk (s # ss) t = starts s t + (case lsn_exec sk s t of Inl _ \<Rightarrow> 0 | Inr (t, evs) \<Rightarrow> all_starts sk ss t)"

lemma lsn_run_ok:
  assumes "lsn_inv t" and "list_all (step_ok sk) ss"
  shows "\<exists>t' evs. lsn_run sk ss t = Inr (t', evs) \<and> lsn_inv t' \<and> lsn_balanced t evs (all_starts sk ss t) t'"
  using assms
proof (induction ss arbitrary: t)
  case Nil
  then show ?case by (simp add: lsn_balanced_def)
next
  case (Cons s ss)
  obtain t1 evs1 where 1: "lsn_exec sk s t = Inr (t1, evs1)" "lsn_inv t1" "lsn_balanced t evs1 (starts s t) t1"
    using lsn_exec_ok[OF Cons.prems(1), of sk s] Cons.prems(2) by auto
  obtain t2 evs2 where 2: "lsn_run sk ss t1 = Inr (t2, evs2)" "lsn_inv t2" "lsn_balanced t1 evs2 (all_starts sk ss t1) t2"
    using Cons.IH[OF 1(2)] Cons.prems(2) by auto
  show ?case using 1(1) 2 lsn_balanced_trans[OF 1(3) 2(3)] by simp
qed

lemma lsn_exec_not_stranded:
  assumes "not_stranded t" and "lsn_exec sk s t = Inr (t', evs)" and "\<forall>ret rd. s = DoStart ret rd \<longrightarrow> ret = 0"
    and "lsn_inv t"
  shows "not_stranded t'"
proof (cases s)
  case (DoRound io)
  then show ?thesis
    using assms listen_round_ok[OF assms(4), of io] by (auto simp: not_stranded_def split: if_splits)
qed (use assms in \<open>auto simp: not_stranded_def StartAndWait_def StopAndWait_def listen_open_def listen_end_def Let_def
    bindE_eq_Inr ASSERT_eq_Inr split: if_splits prod.splits\<close>)

lemma lsn_run_not_stranded:
  assumes "not_stranded t" and "lsn_run sk ss t = Inr (t', evs)" and "\<forall>ret rd. DoStart ret rd \<in> set ss \<longrightarrow> ret = 0"
    and "lsn_inv t" and "list_all (step_ok sk) ss"
  shows "not_stranded t'"
  using assms
proof (induction ss arbitrary: t evs)
  case (Cons s ss)
  obtain t1 evs1 where 1: "lsn_exec sk s t = Inr (t1, evs1)" "lsn_inv t1"
    using lsn_exec_ok[OF Cons.prems(4), of sk s] Cons.prems(5) by auto
  obtain evs2 where 2: "lsn_run sk ss t1 = Inr (t', evs2)" using Cons.prems(2) 1(1) by (auto simp: bindE_eq_Inr)
  have "not_stranded t1" using lsn_exec_not_stranded[OF Cons.prems(1) 1(1) _ Cons.prems(4)] Cons.prems(3) by auto
  moreover have "\<forall>ret rd. DoStart ret rd \<in> set ss \<longrightarrow> ret = 0" using Cons.prems(3) by simp
  ultimately show ?case using Cons.IH[of t1 evs2] 2 Cons.prems(5) 1(2) by simp
qed simp

section \<open>Properties\<close>

text \<open>
  C13: The listening thread owns what it should. Whatever the order of the calls of \<open>StartAndWait\<close> and
  \<open>StopAndWait\<close> and of the steps of the threads they start, and whatever the system answers: every
  listening socket that was opened has been closed exactly once or is the current \<open>listen_sock_\<close>, which exists only
  while a thread runs; every accepted connection has been handed to the observer exactly once and in
  order; every thread that was started has reported its end exactly once or is still running.
\<close>

theorem TcpServer_owns_sockets:
  assumes "list_all (step_ok sk) ss"
  shows "\<exists>t tr. lsn_run sk ss (TcpServer_new bind_addr backlog breaker) = Inr (t, tr)
    \<and> opened (lsys tr) = closed (lsys tr) + lsn_held t \<and> (ts_pc t = LsnIdle \<longrightarrow> lsn_held t = {#})
    \<and> accepted tr = handed tr
    \<and> all_starts sk ss (TcpServer_new bind_addr backlog breaker) = ended tr + of_bool (ts_pc t \<noteq> LsnIdle)"
proof -
  define t0 where "t0 = TcpServer_new bind_addr backlog breaker"
  have t0: "lsn_inv t0" "lsn_held t0 = {#}" "ts_pc t0 = LsnIdle" by (simp_all add: t0_def TcpServer_new_def lsn_inv_def lsn_held_def)
  obtain t tr where "lsn_run sk ss t0 = Inr (t, tr)" "lsn_inv t" "lsn_balanced t0 tr (all_starts sk ss t0) t"
    using lsn_run_ok[OF t0(1) assms] by blast
  then show ?thesis
    using t0(2,3) unfolding t0_def[symmetric] by (auto simp: lsn_balanced_def lsn_inv_def lsn_held_def add.commute)
qed

definition demo_open :: lsn_open_io where
  "demo_open = \<lparr>lo_socket = 5, lo_reuseaddr = 0, lo_bind = 0, lo_listen = 0\<rparr>"

definition demo_lsn_round :: lsn_round_io where
  "demo_lsn_round = \<lparr>lr_poll = poll_ready (\<lambda>fd. if fd = 5 then POLLIN else 0), lr_rd = 0, lr_accept = 8, lr_client_addr = []\<rparr>"

theorem TcpServer_owns_sockets_witness:
  "\<exists>t tr. lsn_run True [DoStart 0 0, DoOpen demo_open, DoRound demo_lsn_round] (TcpServer_new (any_addr 80) 256 demo_breaker) = Inr (t, tr)
    \<and> opened (lsys tr) = closed (lsys tr) + lsn_held t \<and> accepted tr = handed tr
    \<and> all_starts True [DoStart 0 0, DoOpen demo_open, DoRound demo_lsn_round] (TcpServer_new (any_addr 80) 256 demo_breaker)
      = ended tr + of_bool (ts_pc t \<noteq> LsnIdle)"
proof -
  have "list_all (step_ok True) [DoStart 0 0, DoOpen demo_open, DoRound demo_lsn_round]" by simp
  from TcpServer_owns_sockets[OF this, of "any_addr 80" 256 demo_breaker] show ?thesis by blast
qed

text \<open>
  \<open>StartAndWait\<close> does not hang when its thread can be created: at any time a caller that waits has
  a thread that has not opened its socket yet, and the next step of that thread, whether it succeeds
  or fails, wakes the caller up; the value returned then says whether the server is listening.
\<close>

theorem StartAndWait_woken:
  assumes "list_all (step_ok sk) ss" and "\<forall>ret rd. DoStart ret rd \<in> set ss \<longrightarrow> ret = 0"
    and "lsn_run sk ss (TcpServer_new bind_addr backlog breaker) = Inr (t, tr)" and "ts_waiting t"
  shows "ts_pc t = LsnStarted \<and> (\<exists>t' evs. lsn_exec sk (DoOpen io) t = Inr (t', evs) \<and> \<not> ts_waiting t'
    \<and> (StartAndWait_result t' \<longleftrightarrow> ts_pc t' = LsnLoop)
    \<and> (ts_pc t' = LsnLoop \<longleftrightarrow> lo_socket io \<noteq> INVALID_SOCKET \<and> 0 \<le> lo_reuseaddr io \<and> 0 \<le> lo_bind io \<and> 0 \<le> lo_listen io))"
proof -
  define t0 where "t0 = TcpServer_new bind_addr backlog breaker"
  have t0: "lsn_inv t0" "not_stranded t0" by (simp_all add: t0_def TcpServer_new_def lsn_inv_def not_stranded_def)
  have pc: "ts_pc t = LsnStarted"
    using lsn_run_not_stranded[OF t0(2) _ assms(2) t0(1) assms(1)] assms(3,4) by (simp add: t0_def not_stranded_def)
  have "lsn_inv t" using lsn_run_ok[OF t0(1) assms(1)] assms(3) by (auto simp: t0_def)
  then show ?thesis
    using pc by (auto simp: listen_open_def Let_def StartAndWait_result_def lsn_inv_def)
qed

theorem StartAndWait_woken_witness:
  "\<exists>t' evs. lsn_exec True (DoOpen demo_open) (snd (StartAndWait 0 0 (TcpServer_new (any_addr 80) 256 demo_breaker))) = Inr (t', evs)
    \<and> \<not> ts_waiting t' \<and> StartAndWait_result t'"
proof -
  have run: "lsn_run True [DoStart 0 0] (TcpServer_new (any_addr 80) 256 demo_breaker)
      = Inr (snd (StartAndWait 0 0 (TcpServer_new (any_addr 80) 256 demo_breaker)), [])" by simp
  have w: "ts_waiting (snd (StartAndWait 0 0 (TcpServer_new (any_addr 80) 256 demo_breaker)))"
    by (simp add: StartAndWait_def TcpServer_new_def)
  from StartAndWait_woken[OF _ _ run w, of demo_open] show ?thesis by (auto simp: demo_open_def)
qed

text \<open>
  When \<open>pthread_create\<close> fails, \<open>StartAndWait\<close> waits for a thread that does not exist: no step
  other than a new \<open>StartAndWait\<close> ends the wait.
\<close>

theorem StartAndWait_stranded:
  assumes "ret \<noteq> 0" and "\<forall>s\<in>set ss. \<forall>ret rd. s \<noteq> DoStart ret rd"
    and "lsn_run sk ss (snd (StartAndWait ret rd (TcpServer_new bind_addr backlog breaker))) = Inr (t, tr)"
  shows "ts_waiting t"
proof -
  have "ts_waiting t \<and> ts_pc t = LsnIdle" if "ts_waiting u" "ts_pc u = LsnIdle" "lsn_run sk ss u = Inr (t, tr)" for u
    using that assms(2)
  proof (induction ss arbitrary: u tr)
    case (Cons s ss)
    obtain u1 evs1 evs2 where 1: "lsn_exec sk s u = Inr (u1, evs1)" "lsn_run sk ss u1 = Inr (t, evs2)"
      using Cons.prems(3) by (auto simp: bindE_eq_Inr)
    have "ts_waiting u1 \<and> ts_pc u1 = LsnIdle"
      using Cons.prems 1(1) by (cases s) (auto simp: StopAndWait_def bindE_eq_Inr ASSERT_eq_Inr split: prod.splits if_splits)
    with Cons.IH[of u1 evs2] 1(2) Cons.prems(4) show ?case by simp
  qed simp
  from this[OF _ _ assms(3)] show ?thesis using assms(1) by (simp add: StartAndWait_def TcpServer_new_def)
qed

text \<open>
  C14: \<open>StopAndWait\<close> ends the thread. Once it has broken the breaker, a thread that is in its loop leaves it in
  the round in which \<open>poll\<close> sees the pipe, whatever happens on the listening socket, closes the socket and reports
  its end, so that the join returns.
\<close>

theorem StopAndWait_ends_thread:
  assumes "ts_pc t = LsnLoop" and "ts_listen_sock t \<noteq> INVALID_SOCKET" and "0 \<le> BreakerFD (ts_breaker t)"
    and "StopAndWait sk 1 pio t = Inr (t1, fds)" and "lr_poll io = poll_ready rdy"
    and "rdy (BreakerFD (ts_breaker t1)) = pipe_ready 1"
  shows "\<exists>t2. lsn_run sk [DoRound io, DoEnd e] t1 = Inr (t2, [LSys (EvClose (ts_listen_sock t)), LOnError e])
    \<and> ts_pc t2 = LsnIdle \<and> ts_listen_sock t2 = INVALID_SOCKET"
proof -
  define b where "b = ts_breaker t1"
  have t1: "ts_pc t1 = LsnLoop" "ts_listen_sock t1 = ts_listen_sock t" "0 \<le> BreakerFD b"
    using assms(1-4) by (auto simp: b_def StopAndWait_def Break_def BreakerFD_def split: if_splits)
  define s0 where "s0 = fold fd_set [ReqException (ts_listen_sock t1), ReqRead (ts_listen_sock t1)] (PreSelect b (SocketSelect_new False))"
  have ac: "\<not> ss_autoclear (SocketSelect_new False)" by simp
  obtain s' where s': "Select (poll_ready rdy) (lr_rd io) (-1) b s0 = Inr (ss_ret s', b, s')" "ss_vfds s' = poll_fds rdy (ss_vfds s0)"
    using Select_ready[OF ac] unfolding s0_def by blast
  have brk: "IsBreak b s'"
    using IsBreak_poll[OF s'(2)[unfolded s0_def] t1(3)] assms(6) by (simp add: pipe_ready_def b_def poll_consts)
  have "listen_round io t1 = Inr (t1\<lparr>ts_pc := LsnEnding\<rparr>, [])"
    using s'(1) brk unfolding listen_round_def Let_def Select_forever_def assms(5) b_def[symmetric] s0_def by simp
  then show ?thesis using t1 assms(2) by (simp add: listen_end_def)
qed

definition demo_server :: TcpServer where
  "demo_server = (TcpServer_new (any_addr 80) 256 demo_breaker)\<lparr>ts_pc := LsnLoop, ts_listen_sock := 5\<rparr>"

theorem StopAndWait_ends_thread_witness:
  "\<exists>t1 t2. StopAndWait True 1 (\<lparr>pi_ret = 0, pi_fd0 = 3, pi_fd1 = 4, pi_getfl0 = 0, pi_getfl1 = 1, pi_setfl0 = 0, pi_setfl1 = 0\<rparr>) demo_server = Inr (t1, [])
    \<and> lsn_run True [DoRound (demo_lsn_round\<lparr>lr_poll := poll_ready (\<lambda>fd. pipe_ready 1)\<rparr>), DoEnd 0] t1 = Inr (t2, [LSys (EvClose 5), LOnError 0])"
proof -
  define pio where "pio = \<lparr>pi_ret = 0, pi_fd0 = 3, pi_fd1 = 4, pi_getfl0 = 0, pi_getfl1 = 1, pi_setfl0 = 0, pi_setfl1 = 0\<rparr>"
  define t1 where "t1 = demo_server\<lparr>ts_breaker := demo_breaker\<lparr>brk_broken := True\<rparr>\<rparr>"
  have stop: "StopAndWait True 1 pio demo_server = Inr (t1, [])"
    by (simp add: StopAndWait_def Break_def demo_server_def t1_def TcpServer_new_def demo_breaker_def)
  have "ts_pc demo_server = LsnLoop" "ts_listen_sock demo_server = 5" "0 \<le> BreakerFD (ts_breaker demo_server)"
    by (simp_all add: demo_server_def TcpServer_new_def demo_breaker_def BreakerFD_def)
  with StopAndWait_ends_thread[OF _ _ _ stop, of "demo_lsn_round\<lparr>lr_poll := poll_ready (\<lambda>fd. pipe_ready 1)\<rparr>" "\<lambda>fd. pipe_ready 1" 0]
  obtain t2 where "lsn_run True [DoRound (demo_lsn_round\<lparr>lr_poll := poll_ready (\<lambda>fd. pipe_ready 1)\<rparr>), DoEnd 0] t1
      = Inr (t2, [LSys (EvClose 5), LOnError 0])" by (auto simp del: lsn_run.simps)
  with stop show ?thesis unfolding pio_def by blast
qed

end
