(* ===== verification/RecursionLimit.thy ===== *)
theory RecursionLimit
  imports Prelude
begin

text \<open>
  Model of \<open>utils/threadprivate.h\<close> and \<open>utils/scope_recursion_limit.h\<close>. The thread-specific data of
  POSIX is a map from keys to one pointer-sized value per thread; a key that was never created
  or has been deleted must not be used. A scope object counts, per thread, how many scopes
  with the same key are open.
\<close>

section \<open>Thread-private values\<close>

type_synonym tls = "nat \<rightharpoonup> (nat \<Rightarrow> u64)"

text \<open>\<open>pthread_key_create\<close> picks a key that is not in use; its value is \<open>NULL\<close> in every thread.\<close>

definition ThreadPrivate_new :: "nat \<Rightarrow> tls \<Rightarrow> tls" where
  "ThreadPrivate_new key m = m(key \<mapsto> (\<lambda>t. 0))"

definition ThreadPrivate_delete :: "nat \<Rightarrow> tls \<Rightarrow> tls" where
  "ThreadPrivate_delete key m = m(key := None)"

definition tp_get :: "nat \<Rightarrow> nat \<Rightarrow> tls \<Rightarrow> u64 cres" where
  "tp_get key t m = (case m key of None \<Rightarrow> Inl MemFault | Some f \<Rightarrow> Inr (f t))"

definition tp_set :: "nat \<Rightarrow> nat \<Rightarrow> u64 \<Rightarrow> tls \<Rightarrow> tls cres" where
  "tp_set key t v m = (case m key of None \<Rightarrow> Inl MemFault | Some f \<Rightarrow> Inr (m(key \<mapsto> f(t := v))))"

section \<open>Scopes\<close>

definition ScopeRecursionLimit_new :: "nat \<Rightarrow> nat \<Rightarrow> tls \<Rightarrow> tls cres" where
  "ScopeRecursionLimit_new tp t m = bindE (tp_get tp t m) (\<lambda>v. tp_set tp t (v + 1) m)"

definition ScopeRecursionLimit_delete :: "nat \<Rightarrow> nat \<Rightarrow> tls \<Rightarrow> tls cres" where
  "ScopeRecursionLimit_delete tp t m = bindE (tp_get tp t m) (\<lambda>v. tp_set tp t (v - 1) m)"

definition CheckLimit :: "int \<Rightarrow> nat \<Rightarrow> nat \<Rightarrow> tls \<Rightarrow> bool cres" where
  "CheckLimit maxRecursionNum tp t m = bindE (tp_get tp t m) (\<lambda>v. Inr (sint v > maxRecursionNum))"

definition Scope_Get :: "nat \<Rightarrow> nat \<Rightarrow> tls \<Rightarrow> int cres" where
  "Scope_Get tp t m = bindE (tp_get tp t m) (\<lambda>v. Inr (sint v))"

section \<open>Interleaved scopes of several threads\<close>

datatype scope_event = Enter nat nat | Leave nat nat

fun scope_exec :: "scope_event \<Rightarrow> tls \<Rightarrow> tls cres" where
  "scope_exec (Enter tp t) m = ScopeRecursionLimit_new tp t m"
| "scope_exec (Leave tp t) m = ScopeRecursionLimit_delete tp t m"

fun scope_run :: "scope_event list \<Rightarrow> tls \<Rightarrow> tls cres" where
  "scope_run [] m = Inr m"
| "scope_run (e # es) m = bindE (scope_exec e m) (scope_run es)"

text \<open>The specification: the number of scopes of a key that a thread has open.\<close>

definition entered :: "scope_event list \<Rightarrow> nat \<Rightarrow> nat \<Rightarrow> nat" where
  "entered es tp t = length (filter ((=) (Enter tp t)) es)"

definition left :: "scope_event list \<Rightarrow> nat \<Rightarrow> nat \<Rightarrow> nat" where
  "left es tp t = length (filter ((=) (Leave tp t)) es)"

definition live_keys :: "scope_event list \<Rightarrow> tls \<Rightarrow> bool" where
  "live_keys es m \<longleftrightarrow> (\<forall>tp t. Enter tp t \<in> set es \<or> Leave tp t \<in> set es \<longrightarrow> m tp \<noteq> None)"

lemma scope_exec_counts:
  assumes "m tp = Some f" and "e = Enter tp t \<or> e = Leave tp t"
  shows "scope_exec e m = Inr (m(tp \<mapsto> f(t := f t + (if e = Enter tp t then 1 else - 1))))"
  using assms by (auto simp: ScopeRecursionLimit_new_def ScopeRecursionLimit_delete_def tp_get_def tp_set_def)

lemma scope_run_counts:
  "live_keys es m \<Longrightarrow> \<exists>m'. scope_run es m = Inr m' \<and> (\<forall>tp. m' tp = (case m tp of None \<Rightarrow> None
     | Some f \<Rightarrow> Some (\<lambda>t. f t + of_nat (entered es tp t) - of_nat (left es tp t))))"
proof (induction es arbitrary: m)
  case Nil
  then show ?case by (auto simp: entered_def left_def split: option.splits)
next
  case (Cons e es)
  obtain tp t where e: "e = Enter tp t \<or> e = Leave tp t" by (cases e) auto
  then obtain f where f: "m tp = Some f" using Cons.prems by (fastforce simp: live_keys_def)
  define m1 where "m1 = m(tp \<mapsto> f(t := f t + (if e = Enter tp t then 1 else - 1)))"
  have step: "scope_exec e m = Inr m1" using scope_exec_counts[of m tp f e t] f e by (simp add: m1_def)
  have "live_keys es m1" using Cons.prems by (auto simp: live_keys_def m1_def)
  from Cons.IH[OF this] obtain m' where m': "scope_run es m1 = Inr m'"
    "\<And>tp. m' tp = (case m1 tp of None \<Rightarrow> None
     | Some f \<Rightarrow> Some (\<lambda>t. f t + of_nat (entered es tp t) - of_nat (left es tp t)))"
    by blast
  show ?case
  proof (intro exI[of _ m'] conjI allI)
    fix tp'
    show "m' tp' = (case m tp' of None \<Rightarrow> None
     | Some f \<Rightarrow> Some (\<lambda>t. f t + of_nat (entered (e # es) tp' t) - of_nat (left (e # es) tp' t)))"
      using e f by (cases "tp' = tp") (auto simp: m'(2) m1_def entered_def left_def split: option.splits)
  qed (simp add: step m'(1))
qed

lemma sint_of_nat_small: "n < 2 ^ 63 \<Longrightarrow> sint (of_nat n :: u64) = int n"
  by (subst sint_u64_small) (simp_all add: unsigned_of_nat take_bit_nat_eq_self)

lemma scope_values:
  assumes "live_keys es m" and "m tp = Some (\<lambda>t. 0)" and "left es tp t \<le> entered es tp t" and "length es < 2 ^ 63"
    and "scope_run es m = Inr m'"
  shows "Scope_Get tp t m' = Inr (int (entered es tp t - left es tp t))"
proof -
  have "m' tp = Some (\<lambda>t. of_nat (entered es tp t) - of_nat (left es tp t))"
    using scope_run_counts[OF assms(1)] assms(2,5) by auto
  moreover have "of_nat (entered es tp t) - of_nat (left es tp t) = (of_nat (entered es tp t - left es tp t) :: u64)"
    using assms(3) by (simp add: of_nat_diff)
  moreover have "entered es tp t - left es tp t < 2 ^ 63"
    using assms(4) length_filter_le[of "(=) (Enter tp t)" es] unfolding entered_def by linarith
  ultimately show ?thesis by (simp add: Scope_Get_def tp_get_def sint_of_nat_small)
qed

section \<open>Properties\<close>

text \<open>
  However threads interleave their scopes over live keys, no operation fails, and
  for each key and thread whose scopes were closed at most as often as they were opened, the
  counter is exactly the number of scopes the thread has open: \<open>CheckLimit\<close> reports a
  limit iff this thread, whatever the others do, is nested deeper than the limit, and a thread that has
  left all its scopes is back at zero.
\<close>

theorem RecursionLimit_counts_own_scopes:
  assumes "live_keys es m" and "m tp = Some (\<lambda>t. 0)" and "left es tp t \<le> entered es tp t" and "length es < 2 ^ 63"
  shows "\<exists>m'. scope_run es m = Inr m' \<and> Scope_Get tp t m' = Inr (int (entered es tp t - left es tp t))
    \<and> CheckLimit lim tp t m' = Inr (lim < int (entered es tp t - left es tp t))"
proof -
  obtain m' where run: "scope_run es m = Inr m'" using scope_run_counts[OF assms(1)] by blast
  have get: "Scope_Get tp t m' = Inr (int (entered es tp t - left es tp t))" by (rule scope_values[OF assms run])
  then have "CheckLimit lim tp t m' = Inr (lim < int (entered es tp t - left es tp t))"
    by (auto simp: Scope_Get_def CheckLimit_def bindE_eq_Inr)
  then show ?thesis using run get by blast
qed

theorem RecursionLimit_counts_own_scopes_witness:
  "\<exists>m'. scope_run [Enter 5 1, Enter 5 2, Enter 5 1, Leave 5 2] (ThreadPrivate_new 5 Map.empty) = Inr m'
    \<and> CheckLimit 1 5 1 m' = Inr True \<and> Scope_Get 5 2 m' = Inr 0"
proof -
  have l: "live_keys [Enter 5 1, Enter 5 2, Enter 5 1, Leave 5 2] (ThreadPrivate_new 5 Map.empty)"
    by (simp add: live_keys_def ThreadPrivate_new_def)
  have z: "ThreadPrivate_new 5 Map.empty 5 = Some (\<lambda>t. 0)" by (simp add: ThreadPrivate_new_def)
  show ?thesis
    using RecursionLimit_counts_own_scopes[OF l z, of 1 1] RecursionLimit_counts_own_scopes[OF l z, of 2 1]
    by (auto simp: entered_def left_def)
qed

end
