(* ===== verification/InetAddr.thy ===== *)
theory InetAddr
  imports Prelude
begin

text \<open>
  Model of the address conversions of \<open>utils/unix_socket.cc\<close> (\<open>_WIN32\<close> branch): \<open>socket_inet_pton\<close> and
  \<open>socket_inet_ntop\<close> for IPv4 and IPv6. A C string is the list of its characters without the
  terminating zero; an address is the list of its bytes in network order. Cursors into
  the IPv6 address are indices of 16-bit groups and may leave the range, which is a \<open>MemFault\<close> when they
  are used. \<open>sscanf\<close> with \<open>%hx\<close> follows the C standard; what it stores for a number that does not fit
  is an argument (\<open>ovf\<close>). The machine is little endian.
\<close>

section \<open>IPv4\<close>

definition is_digit :: "char \<Rightarrow> bool" where
  "is_digit c \<longleftrightarrow> 48 \<le> (of_char c :: nat) \<and> (of_char c :: nat) \<le> 57"

definition digit_of :: "char \<Rightarrow> nat" where
  "digit_of c = of_char c - 48"

text \<open>\<open>tmp\<close> holds the bytes written so far, the last one being \<open>*tp\<close>.\<close>

fun pton4_loop :: "string \<Rightarrow> bool \<Rightarrow> nat \<Rightarrow> nat list \<Rightarrow> byte list option cres" where
  "pton4_loop [] saw_digit octets tmp =
     (if octets < 4 then Inr None
      else if length tmp < 4 then Inl MemFault
      else Inr (Some (map of_nat (take 4 tmp))))"
| "pton4_loop (ch # src) saw_digit octets tmp =
     (if is_digit ch then
        let newNum = last tmp * 10 + digit_of ch
        in if newNum > 255 then Inr None
           else
             let tmp = butlast tmp @ [newNum]
             in if \<not> saw_digit then
                  (if octets + 1 > 4 then Inr None else pton4_loop src True (octets + 1) tmp)
                else pton4_loop src saw_digit octets tmp
      else if ch = CHR ''.'' \<and> saw_digit then
        if octets = 4 then Inr None
        else if length tmp \<ge> 4 then Inl MemFault
        else pton4_loop src False octets (tmp @ [0])
      else Inr None)"

definition socket_inet_pton4 :: "string \<Rightarrow> byte list option cres" where
  "socket_inet_pton4 src = pton4_loop src False 0 [0]"

definition ntohl :: "byte list \<Rightarrow> u32" where
  "ntohl bs = push_bit 24 (ucast (bs ! 0)) OR push_bit 16 (ucast (bs ! 1)) OR push_bit 8 (ucast (bs ! 2)) OR ucast (bs ! 3)"

definition ndigit :: "nat \<Rightarrow> char" where
  "ndigit n = ''0123456789'' ! n"

definition print_octet :: "nat \<Rightarrow> string" where
  "print_octet n =
     (let (out, n, non_zerop) = (if n div 100 > 0 then ([ndigit (n div 100)], n mod 100, True) else ([], n, False));
          (out, n) = (if non_zerop \<or> n div 10 > 0 then (out @ [ndigit (n div 10)], n mod 10) else (out, n))
      in out @ [ndigit n])"

fun ntop4_loop :: "u32 \<Rightarrow> nat list \<Rightarrow> string" where
  "ntop4_loop a [] = []"
| "ntop4_loop a (i # is) =
     print_octet (unat (drop_bit (24 - i * 8) a AND 0xFF)) @ (if i \<noteq> 3 then ''.'' else []) @ ntop4_loop a is"

text \<open>The result is the text in \<open>dst\<close>, terminated by a zero, or \<open>None\<close> for \<open>NULL\<close>.\<close>

definition inet_ntop_v4 :: "byte list \<Rightarrow> int \<Rightarrow> string option" where
  "inet_ntop_v4 src len = (if len < 16 then None else Some (ntop4_loop (ntohl src) [0, 1, 2, 3]))"

section \<open>IPv6, reading\<close>

definition is_xdigit :: "char \<Rightarrow> bool" where
  "is_xdigit c \<longleftrightarrow> is_digit c \<or> 97 \<le> (of_char c :: nat) \<and> (of_char c :: nat) \<le> 102
     \<or> 65 \<le> (of_char c :: nat) \<and> (of_char c :: nat) \<le> 70"

definition xdigit_of :: "char \<Rightarrow> nat" where
  "xdigit_of c = (if is_digit c then of_char c - 48 else if 97 \<le> (of_char c :: nat) then of_char c - 87 else of_char c - 55)"

definition is_space :: "char \<Rightarrow> bool" where
  "is_space c \<longleftrightarrow> of_char c = (32 :: nat) \<or> 9 \<le> (of_char c :: nat) \<and> (of_char c :: nat) \<le> 13"

text \<open>\<open>sscanf(s, "%hx%n", &word, &bytesread)\<close>: the number and \<open>bytesread\<close>, or \<open>None\<close> when it does not return 1.\<close>

definition skip_sign :: "string \<Rightarrow> string" where
  "skip_sign s = (if s \<noteq> [] \<and> (hd s = CHR ''-'' \<or> hd s = CHR ''+'') then tl s else s)"

definition skip_0x :: "string \<Rightarrow> string" where
  "skip_0x s = (if 2 \<le> length s \<and> s ! 0 = CHR ''0'' \<and> (s ! 1 = CHR ''x'' \<or> s ! 1 = CHR ''X'') then drop 2 s else s)"

definition scan_hx :: "(bool \<Rightarrow> nat \<Rightarrow> 16 word) \<Rightarrow> string \<Rightarrow> (16 word \<times> nat) option" where
  "scan_hx ovf s =
     (let s1 = dropWhile is_space s;
          neg = (s1 \<noteq> [] \<and> hd s1 = CHR ''-'');
          s3 = skip_0x (skip_sign s1);
          ds = takeWhile is_xdigit s3;
          v = foldl (\<lambda>n c. n * 16 + xdigit_of c) 0 ds
      in if ds = [] then None
         else Some (if v \<ge> 65536 \<or> neg \<and> v \<noteq> 0 then ovf neg v else of_nat v, length s - length s3 + length ds))"

lemma scan_hx_consumes: "scan_hx ovf s = Some (w, n) \<Longrightarrow> 0 < n \<and> s \<noteq> []"
  by (auto simp: scan_hx_def skip_sign_def skip_0x_def Let_def split: if_splits)

text \<open>\<open>*addr_cursor = htons(word)\<close>: the high byte comes first in memory.\<close>

definition put_group :: "int \<Rightarrow> 16 word \<Rightarrow> byte list \<Rightarrow> byte list cres" where
  "put_group cursor word addr =
     (if 0 \<le> cursor \<and> 2 * nat cursor + 1 < length addr
      then Inr (addr[2 * nat cursor := ucast (drop_bit 8 word), 2 * nat cursor + 1 := ucast word]) else Inl MemFault)"

definition count_colons :: "string \<Rightarrow> nat" where
  "count_colons s = length (filter ((=) (CHR '':'')) s)"

function pton6_loop :: "(bool \<Rightarrow> nat \<Rightarrow> 16 word) \<Rightarrow> string \<Rightarrow> int \<Rightarrow> bool \<Rightarrow> byte list \<Rightarrow> byte list option cres" where
  "pton6_loop ovf readcursor addr_cursor seencompressed an_addr =
     (if readcursor \<noteq> [] \<and> addr_cursor < 8 then
        if hd readcursor = CHR '':'' then
          (if tl readcursor \<noteq> [] \<and> hd (tl readcursor) = CHR '':'' then
             if seencompressed then Inr None
             else
               let readcursor = drop 2 readcursor
               in if readcursor = [] then pton6_loop ovf readcursor 8 seencompressed an_addr
                  else pton6_loop ovf readcursor (8 - (int (count_colons readcursor) + 1)) True an_addr
           else pton6_loop ovf (tl readcursor) addr_cursor seencompressed an_addr)
        else
          case scan_hx ovf readcursor of
            None \<Rightarrow> Inr None
          | Some (word, bytesread) \<Rightarrow>
              bindE (put_group addr_cursor word an_addr) (\<lambda>an_addr.
                let readcursor = drop bytesread readcursor
                in if readcursor \<noteq> [] \<and> hd readcursor \<noteq> CHR '':'' then Inr None
                   else pton6_loop ovf readcursor (addr_cursor + 1) seencompressed an_addr)
      else if readcursor \<noteq> [] \<or> addr_cursor < 8 then Inr None
      else Inr (Some an_addr))"
  by pat_completeness auto
termination
  by (relation "measure (\<lambda>(ovf, s, c, seen, a). length s)") (auto dest: scan_hx_consumes)

declare pton6_loop.simps [simp del]

text \<open>An address that starts with \<open>::\<close> and has a period.\<close>

definition pton6_dotted :: "(bool \<Rightarrow> nat \<Rightarrow> 16 word) \<Rightarrow> string \<Rightarrow> byte list option cres" where
  "pton6_dotted ovf addrstart =
     (let zero = replicate 16 (0 :: byte);
          start = (if CHR '':'' \<in> set addrstart then
                     (case scan_hx ovf addrstart of
                        None \<Rightarrow> None
                      | Some (a_short, bytesread) \<Rightarrow>
                          if a_short \<noteq> 0xFFFF \<or> bytesread \<noteq> 4 then None
                          else Some (zero[10 := 0xFF, 11 := 0xFF], tl (dropWhile (\<lambda>c. c \<noteq> CHR '':'') addrstart)))
                   else Some (zero, addrstart))
      in case start of
           None \<Rightarrow> Inr None
         | Some (an_addr, addrstart) \<Rightarrow>
             bindE (socket_inet_pton4 addrstart) (\<lambda>v4. Inr (map_option (\<lambda>v4. take 12 an_addr @ v4) v4)))"

definition socket_inet_pton6 :: "(bool \<Rightarrow> nat \<Rightarrow> 16 word) \<Rightarrow> string \<Rightarrow> byte list option cres" where
  "socket_inet_pton6 ovf src =
     (if CHR ''x'' \<in> set src then Inr None
      else if length src > 2 \<and> take 2 src = [CHR '':'', CHR '':''] \<and> CHR ''.'' \<in> set (drop 2 src)
      then pton6_dotted ovf (drop 2 src)
      else pton6_loop ovf src 0 False (replicate 16 0))"

section \<open>IPv6, printing\<close>

definition short_at :: "byte list \<Rightarrow> nat \<Rightarrow> 16 word" where
  "short_at bs i = ucast (bs ! (2 * i)) OR push_bit 8 (ucast (bs ! (2 * i + 1)))"

definition ntohs :: "16 word \<Rightarrow> 16 word" where
  "ntohs w = push_bit 8 w OR drop_bit 8 w"

text \<open>The first pass: \<open>runpos\<close>, \<open>max\<close> and \<open>maxpos\<close>.\<close>

fun mark_runs :: "16 word list \<Rightarrow> int \<Rightarrow> int \<Rightarrow> int \<Rightarrow> int \<Rightarrow> int list \<times> int \<times> int" where
  "mark_runs [] i current mx maxpos = ([], mx, maxpos)"
| "mark_runs (x # xs) i current mx maxpos =
     (if x = 0 then
        let (mx, maxpos) = (if current > mx then (current, i) else (mx, maxpos));
            (runpos, mx, maxpos) = mark_runs xs (i + 1) (current + 1) mx maxpos
        in (current # runpos, mx, maxpos)
      else
        let (runpos, mx, maxpos) = mark_runs xs (i + 1) 1 mx maxpos
        in (- 1 # runpos, mx, maxpos))"

text \<open>The second pass, from the last group down: all but the longest run are set to -1.\<close>

fun keep_longest :: "nat \<Rightarrow> int \<Rightarrow> int list \<Rightarrow> int list" where
  "keep_longest 0 tmpmax runpos = runpos"
| "keep_longest (Suc i) tmpmax runpos =
     (if int i > tmpmax then keep_longest i tmpmax (runpos[i := - 1])
      else if runpos ! i = - 1 then keep_longest i (- 1) runpos
      else keep_longest i tmpmax runpos)"

definition xdigit_char :: "nat \<Rightarrow> char" where
  "xdigit_char n = ''0123456789abcdef'' ! n"

fun hex_string :: "nat \<Rightarrow> string" where
  "hex_string n = (if n < 16 then [xdigit_char n] else hex_string (n div 16) @ [xdigit_char (n mod 16)])"

declare hex_string.simps [simp del]

text \<open>
  What has been written to \<open>dst\<close>, and whether a zero follows it: \<open>snprintf\<close> writes one, \<open>*cursor++\<close> does
  not. \<open>cap\<close> is \<open>INET6_ADDRSTRLEN\<close>; running past it is a fault.
\<close>

definition emit :: "nat \<Rightarrow> bool \<Rightarrow> string \<Rightarrow> string \<Rightarrow> (string \<times> bool) cres" where
  "emit cap zero t out = (if length out + length t + (if zero then 1 else 0) \<le> cap then Inr (out @ t, zero) else Inl MemFault)"

function print_groups :: "nat \<Rightarrow> 16 word list \<Rightarrow> int list \<Rightarrow> int \<Rightarrow> nat \<Rightarrow> string \<times> bool \<Rightarrow> (string \<times> bool) cres" where
  "print_groups cap shorts runpos mx i out =
     (if i < 8 then
        if runpos ! i = - 1 then
          bindE (emit cap True (hex_string (unat (ntohs (shorts ! i)))) (fst out)) (\<lambda>out.
          bindE (if i \<noteq> 7 \<and> runpos ! (i + 1) \<noteq> 1 then emit cap False '':'' (fst out) else Inr out) (\<lambda>out.
            print_groups cap shorts runpos mx (i + 1) out))
        else if runpos ! i = 1 then
          bindE (emit cap False ''::'' (fst out)) (\<lambda>out. print_groups cap shorts runpos mx (i + nat (mx - 1) + 1) out)
        else print_groups cap shorts runpos mx (i + 1) out
      else Inr out)"
  by pat_completeness auto
termination by (relation "measure (\<lambda>(cap, shorts, runpos, mx, i, out). 8 - i)") auto

declare print_groups.simps [simp del]

definition print_dotted :: "nat \<Rightarrow> byte list \<Rightarrow> int \<Rightarrow> (string \<times> bool) cres" where
  "print_dotted cap src maxpos =
     bindE (emit cap False ''::'' []) (\<lambda>out.
     bindE (if maxpos = 4 then emit cap True ''ffff:'' (fst out) else Inr out) (\<lambda>out.
       case inet_ntop_v4 (drop 12 src) (int cap - int (length (fst out))) of
         None \<Rightarrow> Inr out
       | Some t \<Rightarrow> emit cap True t (fst out)))"

definition inet_ntop_v6 :: "nat \<Rightarrow> byte list \<Rightarrow> int \<Rightarrow> (string \<times> bool) option cres" where
  "inet_ntop_v6 cap src len =
     (if len < int cap then Inr None
      else
        let shorts = map (short_at src) [0..<8];
            (runpos, mx, maxpos) = mark_runs shorts 0 1 1 (- 1);
            runpos = (if mx > 1 then keep_longest 8 maxpos runpos else runpos)
        in bindE (if runpos ! 0 = 1 \<and> (maxpos = 5 \<or> maxpos = 4 \<and> shorts ! 5 = 0xFFFF)
                  then print_dotted cap src maxpos
                  else print_groups cap shorts runpos mx 0 ([], False)) (\<lambda>out. Inr (Some out)))"

section \<open>Dispatch on the family\<close>

datatype family = AF_INET | AF_INET6 | AF_other int

fun socket_inet_pton :: "(bool \<Rightarrow> nat \<Rightarrow> 16 word) \<Rightarrow> family \<Rightarrow> string \<Rightarrow> byte list option cres" where
  "socket_inet_pton ovf AF_INET src = socket_inet_pton4 src"
| "socket_inet_pton ovf AF_INET6 src = socket_inet_pton6 ovf src"
| "socket_inet_pton ovf (AF_other f) src = Inr None"

fun socket_inet_ntop :: "nat \<Rightarrow> family \<Rightarrow> byte list \<Rightarrow> int \<Rightarrow> (string \<times> bool) option cres" where
  "socket_inet_ntop cap AF_INET src len = Inr (map_option (\<lambda>t. (t, True)) (inet_ntop_v4 src len))"
| "socket_inet_ntop cap AF_INET6 src len = inet_ntop_v6 cap src len"
| "socket_inet_ntop cap (AF_other f) src len = Inr None"

section \<open>IPv4 round trip\<close>

lemma less10_cases: "n < (10::nat) \<Longrightarrow> n \<in> {0, 1, 2, 3, 4, 5, 6, 7, 8, 9}"
  by auto

lemma ndigit: "n < 10 \<Longrightarrow> is_digit (ndigit n) \<and> digit_of (ndigit n) = n"
  by (drule less10_cases) (auto simp: ndigit_def is_digit_def digit_of_def)

lemma print_octet_cases:
  "print_octet n = (if n < 10 then [ndigit n] else if n < 100 then [ndigit (n div 10), ndigit (n mod 10)]
     else [ndigit (n div 100), ndigit (n mod 100 div 10), ndigit (n mod 100 mod 10)])"
  by (auto simp: print_octet_def Let_def div_eq_0_iff)

definition dec_value :: "string \<Rightarrow> nat" where
  "dec_value ds = foldl (\<lambda>n c. n * 10 + digit_of c) 0 ds"

definition dec_digits :: "string \<Rightarrow> bool" where
  "dec_digits ds \<longleftrightarrow> ds \<noteq> [] \<and> (\<forall>c\<in>set ds. is_digit c)"

lemma print_octet_digits:
  assumes "n < 256"
  shows "dec_digits (print_octet n)" "dec_value (print_octet n) = n" "length (print_octet n) \<le> 3"
proof -
  have "n div 100 < 10" "n mod 100 div 10 < 10" "n mod 100 mod 10 < 10" "n < 100 \<Longrightarrow> n div 10 < 10" using assms by auto
  note d = ndigit[OF this(1)] ndigit[OF this(2)] ndigit[OF this(3)] ndigit[OF this(4)] ndigit[of "n mod 10"] ndigit[of n]
  show "dec_digits (print_octet n)" using d by (auto simp: print_octet_cases dec_digits_def)
  have "n div 100 * 100 + n mod 100 div 10 * 10 + n mod 100 mod 10 = n" by presburger
  then show "dec_value (print_octet n) = n" using d by (auto simp: print_octet_cases dec_value_def algebra_simps)
  show "length (print_octet n) \<le> 3" by (simp add: print_octet_cases)
qed

lemma foldl_dec_mono: "v \<le> foldl (\<lambda>n c. n * 10 + digit_of c) v ds"
proof (induction ds arbitrary: v)
  case (Cons d ds)
  have "v \<le> v * 10 + digit_of d" by simp
  also have "\<dots> \<le> foldl (\<lambda>n c. n * 10 + digit_of c) (v * 10 + digit_of d) ds" by (rule Cons.IH)
  finally show ?case by simp
qed simp

lemma pton4_digits:
  assumes "\<forall>c\<in>set ds. is_digit c" and "foldl (\<lambda>n c. n * 10 + digit_of c) v ds \<le> 255"
  shows "pton4_loop (ds @ rest) True oct (tmp @ [v]) = pton4_loop rest True oct (tmp @ [foldl (\<lambda>n c. n * 10 + digit_of c) v ds])"
  using assms
proof (induction ds arbitrary: v)
  case (Cons d ds)
  have "v * 10 + digit_of d \<le> 255" using Cons.prems(2) foldl_dec_mono[of "v * 10 + digit_of d" ds] by simp
  then show ?case using Cons by simp
qed simp

lemma pton4_octet:
  assumes "dec_digits ds" and "dec_value ds \<le> 255" and "oct < 4"
  shows "pton4_loop (ds @ rest) False oct (tmp @ [0]) = pton4_loop rest True (Suc oct) (tmp @ [dec_value ds])"
proof (cases ds)
  case (Cons d ds')
  have "digit_of d \<le> 255" using assms(2) foldl_dec_mono[of "digit_of d" ds'] Cons by (simp add: dec_value_def)
  then show ?thesis
    using assms Cons pton4_digits[of ds' "digit_of d" rest "Suc oct" tmp] by (auto simp: dec_digits_def dec_value_def)
qed (use assms(1) in \<open>simp add: dec_digits_def\<close>)

lemma not_digit_dot [simp]: "\<not> is_digit (CHR ''.'')"
  by (simp add: is_digit_def)

lemma pton4_dot:
  "oct < 4 \<Longrightarrow> length tmp < 4 \<Longrightarrow> pton4_loop (CHR ''.'' # rest) True oct tmp = pton4_loop rest False oct (tmp @ [0])"
  by simp

definition dotted :: "string \<Rightarrow> string \<Rightarrow> string \<Rightarrow> string \<Rightarrow> string" where
  "dotted a b c d = a @ CHR ''.'' # b @ CHR ''.'' # c @ CHR ''.'' # d"

lemma pton4_dotted:
  assumes "dec_digits a" "dec_digits b" "dec_digits c" "dec_digits d"
    and "dec_value a \<le> 255" "dec_value b \<le> 255" "dec_value c \<le> 255" "dec_value d \<le> 255"
  shows "socket_inet_pton4 (dotted a b c d) = Inr (Some (map of_nat [dec_value a, dec_value b, dec_value c, dec_value d]))"
proof -
  note o = pton4_octet[OF assms(1,5), of 0 _ "[]"] pton4_octet[OF assms(2,6), of "Suc 0" _ "[dec_value a]"]
    pton4_octet[OF assms(3,7), of "Suc (Suc 0)" _ "[dec_value a, dec_value b]"]
    pton4_octet[OF assms(4,8), of "Suc (Suc (Suc 0))" "[]" "[dec_value a, dec_value b, dec_value c]"]
  show ?thesis using o by (simp add: socket_inet_pton4_def dotted_def)
qed

lemma byte_high_bit: "8 \<le> n \<Longrightarrow> \<not> bit (b :: byte) n"
  using bit_imp_le_length[of b n] by auto

lemma byte_small: "unat (b :: byte) < 256"
  using unsigned_less[of b] by simp

lemma octet_of_ntohl:
  assumes "i < 4"
  shows "unat (drop_bit (24 - i * 8) (ntohl bs) AND 0xFF) = unat (bs ! i)"
proof -
  have m: "(0xFF :: u32) = mask 8" by (simp add: mask_eq_decr_exp)
  have "bit (drop_bit (24 - i * 8) (ntohl bs) AND 0xFF) n = bit (ucast (bs ! i) :: u32) n" if n: "n < 32" for n
  proof (cases "n < 8")
    case True
    consider "i = 0" | "i = 1" | "i = 2" | "i = 3" using assms by linarith
    then show ?thesis
      using True by cases (simp_all add: m ntohl_def bit_simps byte_high_bit)
  next
    case False
    then show ?thesis by (simp add: m bit_simps byte_high_bit)
  qed
  then have "drop_bit (24 - i * 8) (ntohl bs) AND 0xFF = ucast (bs ! i)" by (intro bit_word_eqI) simp
  moreover have "unat (ucast (bs ! i) :: u32) = unat (bs ! i)"
    using byte_small[of "bs ! i"] by (simp add: unsigned_ucast_eq take_bit_nat_eq_self)
  ultimately show ?thesis by simp
qed

lemma ntop4_text:
  assumes "length bs = 4"
  shows "ntop4_loop (ntohl bs) [0, 1, 2, 3] =
    dotted (print_octet (unat (bs ! 0))) (print_octet (unat (bs ! 1))) (print_octet (unat (bs ! 2))) (print_octet (unat (bs ! 3)))"
  using octet_of_ntohl[of 0 bs] octet_of_ntohl[of 1 bs] octet_of_ntohl[of 2 bs] octet_of_ntohl[of 3 bs]
  by (simp add: dotted_def)

lemma pton4_ntop4:
  assumes "length bs = 4"
  shows "socket_inet_pton4 (ntop4_loop (ntohl bs) [0, 1, 2, 3]) = Inr (Some bs)" "length (ntop4_loop (ntohl bs) [0, 1, 2, 3]) \<le> 15"
proof -
  obtain a b c d where bs: "bs = [a, b, c, d]"
    using assms by (auto simp: length_Suc_conv numeral_eq_Suc)
  note o = print_octet_digits[OF byte_small]
  have le: "dec_value (print_octet (unat x)) \<le> 255" for x :: byte using o(2)[of x] byte_small[of x] by linarith
  show "socket_inet_pton4 (ntop4_loop (ntohl bs) [0, 1, 2, 3]) = Inr (Some bs)"
    unfolding ntop4_text[OF assms] using pton4_dotted[OF o(1) o(1) o(1) o(1) le le le le, of a b c d] by (simp add: bs o(2))
  show "length (ntop4_loop (ntohl bs) [0, 1, 2, 3]) \<le> 15"
    unfolding ntop4_text[OF assms] dotted_def using o(3)[of a] o(3)[of b] o(3)[of c] o(3)[of d] by (simp add: bs)
qed

section \<open>What \<open>socket_inet_pton4\<close> accepts\<close>

text \<open>
  A loop state in the middle of the string: \<open>tmp\<close> are the complete octets and \<open>v\<close> the value of the current one.
  If the loop accepts, the rest is the remainder of this octet followed by the missing ones.
\<close>

definition tail_of :: "string list \<Rightarrow> string" where
  "tail_of ds = concat (map (Cons (CHR ''.'')) ds)"

definition rest_of :: "nat list \<Rightarrow> nat \<Rightarrow> bool \<Rightarrow> string \<Rightarrow> byte list \<Rightarrow> bool" where
  "rest_of tmp v saw s bs \<longleftrightarrow> (\<exists>ds rest. s = ds @ tail_of rest \<and> (\<forall>c\<in>set ds. is_digit c) \<and> (saw \<or> ds \<noteq> [])
      \<and> list_all dec_digits rest \<and> length tmp + 1 + length rest = 4
      \<and> foldl (\<lambda>n c. n * 10 + digit_of c) v ds \<le> 255 \<and> list_all (\<lambda>d. dec_value d \<le> 255) rest
      \<and> bs = map of_nat (tmp @ foldl (\<lambda>n c. n * 10 + digit_of c) v ds # map dec_value rest))"

lemma rest_of_digit:
  assumes "rest_of tmp (v * 10 + digit_of ch) True s bs" and "is_digit ch"
  shows "rest_of tmp v saw (ch # s) bs"
proof -
  from assms(1) obtain ds rest where "s = ds @ tail_of rest" "\<forall>c\<in>set ds. is_digit c"
    "list_all dec_digits rest" "length tmp + 1 + length rest = 4"
    "foldl (\<lambda>n c. n * 10 + digit_of c) (v * 10 + digit_of ch) ds \<le> 255" "list_all (\<lambda>d. dec_value d \<le> 255) rest"
    "bs = map of_nat (tmp @ foldl (\<lambda>n c. n * 10 + digit_of c) (v * 10 + digit_of ch) ds # map dec_value rest)"
    unfolding rest_of_def by blast
  then show ?thesis using assms(2) unfolding rest_of_def by (intro exI[of _ "ch # ds"] exI[of _ rest]) simp
qed

lemma rest_of_dot:
  assumes "rest_of (tmp @ [v]) 0 False s bs" and "v \<le> 255"
  shows "rest_of tmp v True (CHR ''.'' # s) bs"
proof -
  from assms(1) obtain ds rest where r: "s = ds @ tail_of rest" "\<forall>c\<in>set ds. is_digit c" "ds \<noteq> []"
    "list_all dec_digits rest" "length (tmp @ [v]) + 1 + length rest = 4"
    "foldl (\<lambda>n c. n * 10 + digit_of c) 0 ds \<le> 255" "list_all (\<lambda>d. dec_value d \<le> 255) rest"
    "bs = map of_nat ((tmp @ [v]) @ foldl (\<lambda>n c. n * 10 + digit_of c) 0 ds # map dec_value rest)"
    unfolding rest_of_def by blast
  then show ?thesis using assms(2) unfolding rest_of_def
    by (intro exI[of _ "[]"] exI[of _ "ds # rest"]) (simp add: tail_of_def dec_digits_def dec_value_def)
qed

lemma pton4_accepts:
  assumes "oct = (if saw then Suc (length tmp) else length tmp)" and "oct \<le> 4" and "v \<le> 255"
    and "\<not> saw \<Longrightarrow> v = 0 \<and> oct < 4"
  shows "\<exists>x. pton4_loop s saw oct (tmp @ [v]) = Inr x \<and> (\<forall>bs. x = Some bs \<longrightarrow> rest_of tmp v saw s bs)"
  using assms
proof (induction s arbitrary: saw oct tmp v)
  case Nil
  show ?case
  proof (cases "oct < 4")
    case False
    then have "saw" "length tmp = 3" "oct = 4" using Nil by (auto split: if_splits)
    moreover have "rest_of tmp v True [] (map of_nat (tmp @ [v]))"
      unfolding rest_of_def using \<open>length tmp = 3\<close> Nil.prems(3) by (intro exI[of _ "[]"]) (simp add: tail_of_def)
    ultimately show ?thesis by simp
  qed simp
next
  case (Cons ch s)
  consider (digit) "is_digit ch" | (dot) "ch = CHR ''.''" "saw" | (other) "\<not> is_digit ch" "\<not> (ch = CHR ''.'' \<and> saw)" by blast
  then show ?case
  proof cases
    case digit
    show ?thesis
    proof (cases "v * 10 + digit_of ch > 255")
      case False
      let ?oct = "if saw then oct else Suc oct"
      have "\<exists>x. pton4_loop s True ?oct (tmp @ [v * 10 + digit_of ch]) = Inr x
          \<and> (\<forall>bs. x = Some bs \<longrightarrow> rest_of tmp (v * 10 + digit_of ch) True s bs)"
        by (rule Cons.IH) (use Cons.prems False in \<open>auto split: if_splits\<close>)
      then show ?thesis using digit False Cons.prems rest_of_digit[OF _ digit] by (auto simp: Let_def)
    qed (use digit in simp)
  next
    case dot
    show ?thesis
    proof (cases "oct = 4")
      case False
      have "\<exists>x. pton4_loop s False oct ((tmp @ [v]) @ [0]) = Inr x \<and> (\<forall>bs. x = Some bs \<longrightarrow> rest_of (tmp @ [v]) 0 False s bs)"
        by (rule Cons.IH) (use Cons.prems False dot in auto)
      then show ?thesis using dot False Cons.prems rest_of_dot by auto
    qed (use dot in simp)
  next
    case other
    then show ?thesis by auto
  qed
qed

lemma pton4_iff:
  "\<exists>x. socket_inet_pton4 s = Inr x \<and> (\<forall>bs. x = Some bs \<longleftrightarrow> (\<exists>a b c d. s = dotted a b c d
      \<and> list_all (\<lambda>e. dec_digits e \<and> dec_value e \<le> 255) [a, b, c, d] \<and> bs = map (of_nat \<circ> dec_value) [a, b, c, d]))"
proof -
  obtain x where x: "socket_inet_pton4 s = Inr x" "\<forall>bs. x = Some bs \<longrightarrow> rest_of [] 0 False s bs"
    using pton4_accepts[of 0 False "[]" 0 s] by (auto simp: socket_inet_pton4_def)
  have "\<exists>a b c d. s = dotted a b c d \<and> list_all (\<lambda>e. dec_digits e \<and> dec_value e \<le> 255) [a, b, c, d]
      \<and> bs = map (of_nat \<circ> dec_value) [a, b, c, d]" if "x = Some bs" for bs
  proof -
    have "rest_of [] 0 False s bs" using x(2) that by simp
    then obtain a rest where r: "s = a @ tail_of rest" "\<forall>c\<in>set a. is_digit c" "a \<noteq> []" "list_all dec_digits rest"
      "length rest = 3" "dec_value a \<le> 255" "list_all (\<lambda>d. dec_value d \<le> 255) rest" "bs = map of_nat (dec_value a # map dec_value rest)"
      unfolding rest_of_def dec_value_def[symmetric] by auto
    then obtain b c d where "rest = [b, c, d]" by (auto simp: length_Suc_conv numeral_eq_Suc)
    then show ?thesis using r by (intro exI[of _ a] exI[of _ b] exI[of _ c] exI[of _ d]) (simp add: dotted_def tail_of_def dec_digits_def)
  qed
  moreover have "x = Some bs" if "\<exists>a b c d. s = dotted a b c d \<and> list_all (\<lambda>e. dec_digits e \<and> dec_value e \<le> 255) [a, b, c, d]
      \<and> bs = map (of_nat \<circ> dec_value) [a, b, c, d]" for bs
    using that x(1) pton4_dotted by auto
  ultimately show ?thesis using x(1) by blast
qed

section \<open>IPv6: hexadecimal groups\<close>

lemma less16_cases: "n < (16::nat) \<Longrightarrow> n \<in> {0, 1, 2, 3, 4, 5, 6, 7, 8, 9, 10, 11, 12, 13, 14, 15}"
  unfolding insert_iff empty_iff by presburger

lemma xdigit_char: "n < 16 \<Longrightarrow> is_xdigit (xdigit_char n) \<and> xdigit_of (xdigit_char n) = n"
  by (drule less16_cases) (auto simp: xdigit_char_def is_xdigit_def is_digit_def xdigit_of_def)

lemma hex_string_xdigits: "hex_string n \<noteq> [] \<and> (\<forall>c\<in>set (hex_string n). is_xdigit c)"
proof (induction n rule: hex_string.induct)
  case (1 n)
  then show ?case by (cases "n < 16") (auto simp: hex_string.simps[of n] xdigit_char)
qed

lemma hex_string_value: "foldl (\<lambda>n c. n * 16 + xdigit_of c) 0 (hex_string n) = n"
proof (induction n rule: hex_string.induct)
  case (1 n)
  then show ?case by (cases "n < 16") (simp_all add: hex_string.simps[of n] xdigit_char)
qed

lemma hex_string_length:
  assumes "n < 65536"
  shows "length (hex_string n) \<le> 4"
proof -
  have "n div 16 div 16 div 16 < 16" using assms by simp
  then show ?thesis by (simp add: hex_string.simps)
qed

lemma not_xdigit [simp]:
  "\<not> is_xdigit (CHR '':'')" "\<not> is_xdigit (CHR ''.'')" "\<not> is_xdigit (CHR ''x'')" "\<not> is_xdigit (CHR ''X'')"
  "\<not> is_xdigit (CHR ''-'')" "\<not> is_xdigit (CHR ''+'')"
  by (simp_all add: is_xdigit_def is_digit_def)

lemma xdigit_not_space: "is_xdigit c \<Longrightarrow> \<not> is_space c"
  by (auto simp: is_xdigit_def is_digit_def is_space_def)

definition stops :: "string \<Rightarrow> bool" where
  "stops rest \<longleftrightarrow> rest = [] \<or> hd rest = CHR '':''"

lemma scan_hex:
  assumes "stops rest" and "n < 65536"
  shows "scan_hx ovf (hex_string n @ rest) = Some (of_nat n, length (hex_string n))"
proof -
  obtain c cs where h: "hex_string n = c # cs" "is_xdigit c" "\<forall>x\<in>set cs. is_xdigit x"
    using hex_string_xdigits[of n] by (cases "hex_string n") auto
  have tw: "takeWhile is_xdigit (hex_string n @ rest) = hex_string n"
    using assms(1) hex_string_xdigits[of n] by (cases rest) (auto simp: stops_def)
  have sp: "\<not> is_space c" by (rule xdigit_not_space[OF h(2)])
  have "(cs @ rest) ! 0 \<noteq> CHR ''x'' \<and> (cs @ rest) ! 0 \<noteq> CHR ''X''" if "cs @ rest \<noteq> []"
    using that h(3) assms(1) by (cases cs) (auto simp: stops_def hd_conv_nth)
  then have s3: "skip_0x (hex_string n @ rest) = hex_string n @ rest" by (cases "cs @ rest = []") (auto simp: skip_0x_def h(1))
  have "c \<noteq> CHR ''-''" "c \<noteq> CHR ''+''" using h(2) by auto
  then have s1: "dropWhile is_space (hex_string n @ rest) = hex_string n @ rest" "skip_sign (hex_string n @ rest) = hex_string n @ rest"
    "hd (hex_string n @ rest) \<noteq> CHR ''-''" using sp by (simp_all add: h(1) skip_sign_def)
  show ?thesis
    unfolding scan_hx_def Let_def s1(1,2) s3 tw hex_string_value using s1(3) h(1) assms(2) by simp
qed

section \<open>IPv6: tokens\<close>

text \<open>
  The printed text is a sequence of groups and colons. Both the printer and the parser depend
  on the values of the groups only through the positions of the zeros, so they can be followed
  on tokens, for all patterns of zeros.
\<close>

datatype tok = Hex nat | Colon

definition render :: "(nat \<Rightarrow> 16 word) \<Rightarrow> tok list \<Rightarrow> string" where
  "render g ts = concat (map (\<lambda>t. case t of Hex i \<Rightarrow> hex_string (unat (g i)) | Colon \<Rightarrow> '':'') ts)"

lemma render_simps [simp]:
  "render g [] = []" "render g (Hex i # ts) = hex_string (unat (g i)) @ render g ts" "render g (Colon # ts) = CHR '':'' # render g ts"
  "render g (ts @ us) = render g ts @ render g us"
  by (simp_all add: render_def)

fun tok_loop :: "tok list \<Rightarrow> int \<Rightarrow> bool \<Rightarrow> nat option list \<Rightarrow> nat option list option" where
  "tok_loop [] c seen asg = (if c < 8 then None else Some asg)"
| "tok_loop [Colon] c seen asg = (if c < 8 then tok_loop [] c seen asg else None)"
| "tok_loop (Colon # Colon # ts) c seen asg =
     (if seen \<or> 8 \<le> c then None
      else if ts = [] then tok_loop [] 8 seen asg
      else tok_loop ts (8 - (int (length (filter ((=) Colon) ts)) + 1)) True asg)"
| "tok_loop (Colon # Hex i # ts) c seen asg = (if c < 8 then tok_loop (Hex i # ts) c seen asg else None)"
| "tok_loop [Hex i] c seen asg = (if 0 \<le> c \<and> c < 8 \<and> i < 8 then tok_loop [] (c + 1) seen (asg[nat c := Some i]) else None)"
| "tok_loop (Hex i # Colon # ts) c seen asg =
     (if 0 \<le> c \<and> c < 8 \<and> i < 8 then tok_loop (Colon # ts) (c + 1) seen (asg[nat c := Some i]) else None)"
| "tok_loop (Hex i # Hex j # ts) c seen asg = None"

definition bytes_of :: "byte list \<Rightarrow> nat option list \<Rightarrow> byte list" where
  "bytes_of src asg = concat (map (\<lambda>a. case a of None \<Rightarrow> [0, 0] | Some i \<Rightarrow> [src ! (2 * i), src ! (2 * i + 1)]) asg)"

lemma bytes_of_simps [simp]:
  "bytes_of src [] = []" "bytes_of src (None # asg) = 0 # 0 # bytes_of src asg"
  "bytes_of src (Some i # asg) = src ! (2 * i) # src ! Suc (2 * i) # bytes_of src asg"
  by (simp_all add: bytes_of_def)

lemma length_bytes_of: "length (bytes_of src asg) = 2 * length asg"
proof (induction asg)
  case (Cons a asg)
  then show ?case by (cases a) simp_all
qed simp

lemma bytes_of_update:
  "k < length asg \<Longrightarrow> (bytes_of src asg)[2 * k := src ! (2 * i), Suc (2 * k) := src ! Suc (2 * i)] = bytes_of src (asg[k := Some i])"
proof (induction asg arbitrary: k)
  case (Cons a asg)
  then show ?case by (cases k; cases a) simp_all
qed simp

definition group_at :: "byte list \<Rightarrow> nat \<Rightarrow> 16 word" where
  "group_at src i = ntohs (short_at src i)"

lemma group_at_bytes: "ucast (drop_bit 8 (group_at src i)) = src ! (2 * i)" "ucast (group_at src i) = src ! (2 * i + 1)"
proof -
  have hi: "bit (group_at src i) n = (if n < 8 then bit (src ! (2 * i + 1)) n else n < 16 \<and> bit (src ! (2 * i)) (n - 8))" for n
    by (auto simp: group_at_def ntohs_def short_at_def bit_simps byte_high_bit)
  show "ucast (drop_bit 8 (group_at src i)) = src ! (2 * i)" "ucast (group_at src i) = src ! (2 * i + 1)"
    by (rule bit_word_eqI, simp add: bit_simps hi)+
qed

lemma put_group_bytes:
  assumes "0 \<le> c" "c < 8" "length asg = 8"
  shows "put_group c (group_at src i) (bytes_of src asg) = Inr (bytes_of src (asg[nat c := Some i]))"
  using assms bytes_of_update[of "nat c" asg src i] group_at_bytes[of src i]
  by (simp add: put_group_def length_bytes_of)

lemma render_stops: "stops (render g ts) \<longleftrightarrow> ts = [] \<or> hd ts = Colon"
proof (cases ts)
  case (Cons t ts')
  then show ?thesis
  proof (cases t)
    case (Hex i)
    then show ?thesis using Cons hex_string_xdigits[of "unat (g i)"] by (cases "hex_string (unat (g i))") (auto simp: stops_def)
  qed (simp add: stops_def)
qed (simp add: stops_def)

lemma render_Nil: "render g ts = [] \<longleftrightarrow> ts = []"
proof (cases ts)
  case (Cons t ts')
  then show ?thesis using hex_string_xdigits by (cases t) simp_all
qed simp

lemma render_colons: "count_colons (render g ts) = length (filter ((=) Colon) ts)"
proof (induction ts)
  case (Cons t ts)
  have "filter ((=) (CHR '':'')) (hex_string n) = []" for n using hex_string_xdigits[of n] by (auto simp: filter_empty_conv)
  then show ?case using Cons by (cases t) (simp_all add: count_colons_def)
qed (simp add: count_colons_def)

lemma unat16: "unat (w :: 16 word) < 65536"
  using unsigned_less[of w] by simp

lemma loop_hex:
  assumes "0 \<le> c" "c < 8" "length asg = 8" "ts = [] \<or> hd ts = Colon"
  shows "pton6_loop ovf (render (group_at src) (Hex i # ts)) c seen (bytes_of src asg)
    = pton6_loop ovf (render (group_at src) ts) (c + 1) seen (bytes_of src (asg[nat c := Some i]))"
proof -
  let ?h = "hex_string (unat (group_at src i))"
  have "?h \<noteq> []" "hd (?h @ render (group_at src) ts) \<noteq> CHR '':''" using hex_string_xdigits[of "unat (group_at src i)"]
    by (cases ?h; auto)+
  moreover have "stops (render (group_at src) ts)" using assms(4) by (simp add: render_stops)
  ultimately show ?thesis
    using assms put_group_bytes[OF assms(1-3), of src i] scan_hex[OF _ unat16, of "render (group_at src) ts" ovf "group_at src i"]
    by (subst pton6_loop.simps) (auto simp: stops_def)
qed

lemma loop_colon:
  assumes "c < 8" "ts = [] \<or> hd ts \<noteq> Colon"
  shows "pton6_loop ovf (render g (Colon # ts)) c seen addr = pton6_loop ovf (render g ts) c seen addr"
proof -
  have "render g ts = [] \<or> hd (render g ts) \<noteq> CHR '':''" using assms(2) render_stops[of g ts] by (auto simp: stops_def)
  then show ?thesis using assms(1) by (subst pton6_loop.simps) auto
qed

lemma loop_compress:
  assumes "c < 8" "\<not> seen"
  shows "pton6_loop ovf (render g (Colon # Colon # ts)) c seen addr =
    (if ts = [] then pton6_loop ovf [] 8 seen addr
     else pton6_loop ovf (render g ts) (8 - (int (length (filter ((=) Colon) ts)) + 1)) True addr)"
  using assms by (subst pton6_loop.simps) (simp add: render_Nil render_colons)

lemma tok_loop_sound:
  "tok_loop ts c seen asg = Some r \<Longrightarrow> length asg = 8 \<Longrightarrow>
     pton6_loop ovf (render (group_at src) ts) c seen (bytes_of src asg) = Inr (Some (bytes_of src r))"
proof (induction ts c seen asg rule: tok_loop.induct)
  case (1 c seen asg)
  then show ?case by (subst pton6_loop.simps) (auto split: if_splits)
next
  case (2 c seen asg)
  then show ?case using loop_colon[of c "[]" ovf "group_at src" seen "bytes_of src asg"] by (auto split: if_splits)
next
  case (3 ts c seen asg)
  then show ?case
    using loop_compress[of c seen ovf "group_at src" ts "bytes_of src asg"] by (auto simp del: tok_loop.simps(1) render_simps(3) split: if_splits)
next
  case (4 i ts c seen asg)
  then show ?case using loop_colon[of c "Hex i # ts" ovf "group_at src" seen "bytes_of src asg"] by (auto split: if_splits)
next
  case (5 i c seen asg)
  then show ?case using loop_hex[of c asg "[]" ovf src i seen] by (auto split: if_splits)
next
  case (6 i ts c seen asg)
  then show ?case using loop_hex[of c asg "Colon # ts" ovf src i seen] by (auto split: if_splits)
qed simp

function tok_print :: "int list \<Rightarrow> int \<Rightarrow> nat \<Rightarrow> tok list" where
  "tok_print runpos mx i =
     (if i < 8 then
        if runpos ! i = - 1 then
          Hex i # (if i \<noteq> 7 \<and> runpos ! (i + 1) \<noteq> 1 then [Colon] else []) @ tok_print runpos mx (i + 1)
        else if runpos ! i = 1 then Colon # Colon # tok_print runpos mx (i + nat (mx - 1) + 1)
        else tok_print runpos mx (i + 1)
      else [])"
  by pat_completeness auto
termination by (relation "measure (\<lambda>(runpos, mx, i). 8 - i)") auto

declare tok_print.simps [simp del]

definition width :: "tok list \<Rightarrow> nat" where
  "width ts = sum_list (map (\<lambda>t. case t of Hex i \<Rightarrow> 4 | Colon \<Rightarrow> 1) ts)"

lemma width_simps [simp]:
  "width [] = 0" "width (Hex i # ts) = 4 + width ts" "width (Colon # ts) = Suc (width ts)" "width (ts @ us) = width ts + width us"
  by (simp_all add: width_def)

lemma emit_ok: "length out + length t + 1 \<le> cap \<Longrightarrow> emit cap zero t out = Inr (out @ t, zero)"
  by (simp add: emit_def)

lemma print_groups_tokens:
  assumes "length out + width (tok_print runpos mx i) + 1 \<le> cap"
  shows "\<exists>z'. print_groups cap (map (short_at src) [0..<8]) runpos mx i (out, z)
    = Inr (out @ render (group_at src) (tok_print runpos mx i), z')"
  using assms
proof (induction "8 - i" arbitrary: i out z rule: less_induct)
  case less
  let ?S = "map (short_at src) [0..<8]"
  note P = print_groups.simps[of cap ?S runpos mx i "(out, z)"] and T = tok_print.simps[of runpos mx i]
  show ?case
  proof (cases "i < 8")
    case True
    note IH = less.hyps[of "i + 1"] less.hyps[of "i + nat (mx - 1) + 1"]
    let ?h = "hex_string (unat (group_at src i))"
    have h: "length ?h \<le> 4" by (rule hex_string_length[OF unat16])
    have s: "hex_string (unat (ntohs (?S ! i))) = ?h" using True by (simp add: group_at_def)
    consider (group) "runpos ! i = - 1" | (run) "runpos ! i = 1" | (skip) "runpos ! i \<noteq> - 1" "runpos ! i \<noteq> 1" by blast
    then show ?thesis
    proof cases
      case group
      define sep where "sep = (if i \<noteq> 7 \<and> runpos ! (i + 1) \<noteq> 1 then [Colon] else [])"
      have w: "length (out @ ?h @ render (group_at src) sep) + width (tok_print runpos mx (i + 1)) + 1 \<le> cap"
        using less.prems group True h unfolding T by (auto simp: sep_def)
      have "length out + length ?h + 1 \<le> cap" using w by simp
      moreover have "length (out @ ?h) + length '':'' + 1 \<le> cap" if "i \<noteq> 7 \<and> runpos ! (i + 1) \<noteq> 1"
        using w that by (simp add: sep_def)
      ultimately have "\<exists>z'. print_groups cap ?S runpos mx i (out, z)
          = print_groups cap ?S runpos mx (i + 1) (out @ ?h @ render (group_at src) sep, z')"
        unfolding P s using True group by (auto simp: emit_ok sep_def)
      then obtain z' where e: "print_groups cap ?S runpos mx i (out, z)
          = print_groups cap ?S runpos mx (i + 1) (out @ ?h @ render (group_at src) sep, z')" by blast
      have t: "tok_print runpos mx i = Hex i # sep @ tok_print runpos mx (i + 1)" using True group by (simp add: T sep_def)
      show ?thesis unfolding e t using IH(1)[OF _ w, of z'] True by simp
    next
      case run
      have w: "length (out @ ''::'') + width (tok_print runpos mx (i + nat (mx - 1) + 1)) + 1 \<le> cap"
        using less.prems run True by (simp add: T)
      then have "print_groups cap ?S runpos mx i (out, z) = print_groups cap ?S runpos mx (i + nat (mx - 1) + 1) (out @ ''::'', False)"
        unfolding P using True run by (simp add: emit_ok)
      then show ?thesis using IH(2)[OF _ w] True run by (simp add: T)
    next
      case skip
      then show ?thesis using IH(1)[of out z] less.prems True by (simp add: P T)
    qed
  qed (simp add: P T)
qed

lemma mark_runs_zeros: "mark_runs xs i c m p = mark_runs (map (\<lambda>x. of_bool (x \<noteq> 0)) xs) i c m p"
  by (induction xs arbitrary: i c m p) simp_all

definition adjacent_zeros :: "16 word list \<Rightarrow> bool" where
  "adjacent_zeros xs \<longleftrightarrow> list_ex (\<lambda>(a, b). a = 0 \<and> b = 0) (zip xs (tl xs))"

definition unambiguous :: "16 word list \<Rightarrow> bool" where
  "unambiguous xs \<longleftrightarrow> adjacent_zeros xs \<or> length (filter ((=) 0) xs) \<le> 1"

definition restores :: "16 word list \<Rightarrow> nat option list \<Rightarrow> bool" where
  "restores zs asg \<longleftrightarrow> length asg = 8 \<and> list_all (\<lambda>k. asg ! k = Some k \<or> asg ! k = None \<and> zs ! k = 0) [0..<8]"

definition pattern_ok :: "16 word list \<Rightarrow> bool" where
  "pattern_ok zs =
     (let (runpos, mx, maxpos) = mark_runs zs 0 1 1 (- 1);
          runpos = (if mx > 1 then keep_longest 8 maxpos runpos else runpos);
          ts = tok_print runpos mx 0
      in width ts + 1 \<le> 46
         \<and> (unambiguous zs \<longrightarrow> (case tok_loop ts 0 False (replicate 8 None) of None \<Rightarrow> False | Some asg \<Rightarrow> restores zs asg))
         \<and> (runpos ! 0 = 1 \<and> maxpos = 5 \<longrightarrow> take 6 zs = replicate 6 0)
         \<and> (runpos ! 0 = 1 \<and> maxpos = 4 \<longrightarrow> take 5 zs = replicate 5 0))"

lemma patterns_ok: "list_all pattern_ok (List.n_lists 8 [0, 1])"
  by code_simp

section \<open>IPv6 round trip\<close>

lemma render_chars: "c \<in> set (render g ts) \<Longrightarrow> is_xdigit c \<or> c = CHR '':''"
proof (induction ts)
  case (Cons t ts)
  then show ?case using hex_string_xdigits by (cases t) auto
qed simp

lemma bytes_of_nth:
  "k < length asg \<Longrightarrow> bytes_of src asg ! (2 * k) = (case asg ! k of None \<Rightarrow> 0 | Some i \<Rightarrow> src ! (2 * i))
     \<and> bytes_of src asg ! Suc (2 * k) = (case asg ! k of None \<Rightarrow> 0 | Some i \<Rightarrow> src ! Suc (2 * i))"
proof (induction asg arbitrary: k)
  case (Cons a asg)
  then show ?case by (cases k; cases a) simp_all
qed simp

lemma zero_group:
  assumes "short_at src k = 0"
  shows "src ! (2 * k) = 0" "src ! Suc (2 * k) = 0"
  using group_at_bytes[of src k] assms by (simp_all add: group_at_def ntohs_def)

lemma restores_bytes:
  assumes "length src = 16" and "restores (map (\<lambda>x. of_bool (x \<noteq> 0)) (map (short_at src) [0..<8])) asg"
  shows "bytes_of src asg = src"
proof (rule nth_equalityI)
  have len: "length asg = 8" using assms(2) by (simp add: restores_def)
  then show "length (bytes_of src asg) = length src" using assms(1) by (simp add: length_bytes_of)
  fix j assume "j < length (bytes_of src asg)"
  then have k: "j div 2 < 8" using len by (simp add: length_bytes_of)
  then have "asg ! (j div 2) = Some (j div 2) \<or> asg ! (j div 2) = None \<and> short_at src (j div 2) = 0"
    using assms(2) by (auto simp: restores_def list_all_iff)
  then have "bytes_of src asg ! (2 * (j div 2)) = src ! (2 * (j div 2)) \<and> bytes_of src asg ! Suc (2 * (j div 2)) = src ! Suc (2 * (j div 2))"
    using bytes_of_nth[of "j div 2" asg src] zero_group[of src "j div 2"] k len by auto
  moreover have "j = 2 * (j div 2) \<or> j = Suc (2 * (j div 2))" by presburger
  ultimately show "bytes_of src asg ! j = src ! j" by metis
qed

lemma unambiguous_zeros: "unambiguous (map (\<lambda>x. of_bool (x \<noteq> 0)) xs) = unambiguous xs"
proof -
  have "zip (map f ys) (map f zs) = map (\<lambda>(a, b). (f a, f b)) (zip ys zs)" for f :: "16 word \<Rightarrow> 16 word" and ys zs
    by (simp add: zip_map_map)
  then have "adjacent_zeros (map (\<lambda>x. of_bool (x \<noteq> 0)) xs) = adjacent_zeros xs"
    unfolding adjacent_zeros_def map_tl[symmetric] by (simp add: list_ex_iff split_def)
  moreover have "length (filter ((=) 0) (map (\<lambda>x. of_bool (x \<noteq> 0) :: 16 word) xs)) = length (filter ((=) 0) xs)"
    by (induction xs) auto
  ultimately show ?thesis by (simp add: unambiguous_def)
qed

text \<open>What the first two passes compute for an address, and what the enumeration says about it.\<close>

lemma passes:
  fixes src :: "byte list"
  defines "shorts \<equiv> map (short_at src) [0..<8]"
  shows "\<exists>runpos mx maxpos. (case mark_runs shorts 0 1 1 (- 1) of (runpos, mx, maxpos) \<Rightarrow>
      (if mx > 1 then keep_longest 8 maxpos runpos else runpos, mx, maxpos)) = (runpos, mx, maxpos)
    \<and> width (tok_print runpos mx 0) + 1 \<le> 46
    \<and> (unambiguous shorts \<longrightarrow> (\<exists>asg. tok_loop (tok_print runpos mx 0) 0 False (replicate 8 None) = Some asg
      \<and> restores (map (\<lambda>x. of_bool (x \<noteq> 0)) shorts) asg))
    \<and> (runpos ! 0 = 1 \<longrightarrow> maxpos = 5 \<longrightarrow> (\<forall>k<6. short_at src k = 0))
    \<and> (runpos ! 0 = 1 \<longrightarrow> maxpos = 4 \<longrightarrow> (\<forall>k<5. short_at src k = 0))"
proof -
  define zs :: "16 word list" where "zs = map (\<lambda>x. of_bool (x \<noteq> 0)) shorts"
  obtain runpos mx maxpos where m: "(case mark_runs shorts 0 1 1 (- 1) of (runpos, mx, maxpos) \<Rightarrow>
      (if mx > 1 then keep_longest 8 maxpos runpos else runpos, mx, maxpos)) = (runpos, mx, maxpos)"
    using prod_cases3 by blast
  have "zs \<in> set (List.n_lists 8 [0, 1])" unfolding set_n_lists by (simp add: zs_def shorts_def image_subset_iff)
  then have ok: "pattern_ok zs" using patterns_ok by (simp add: list_all_iff)
  have una: "unambiguous zs = unambiguous shorts"
    unfolding zs_def by (rule unambiguous_zeros)
  have zk: "take n zs = replicate n 0 \<Longrightarrow> n \<le> 8 \<Longrightarrow> \<forall>k<n. short_at src k = 0" for n
  proof (intro allI impI)
    fix k assume z: "take n zs = replicate n 0" "n \<le> 8" "k < n"
    have "zs ! k = (take n zs) ! k" using z(3) by simp
    also have "\<dots> = 0" unfolding z(1) using z(3) by simp
    finally show "short_at src k = 0" using z(2,3) by (simp add: zs_def shorts_def split: if_splits)
  qed
  have "(case mark_runs zs 0 1 1 (- 1) of (runpos, mx, maxpos) \<Rightarrow>
      (if mx > 1 then keep_longest 8 maxpos runpos else runpos, mx, maxpos)) = (runpos, mx, maxpos)"
    using m mark_runs_zeros[of shorts 0 1 1 "- 1"] by (simp add: zs_def)
  then have p: "width (tok_print runpos mx 0) + 1 \<le> 46"
    "unambiguous zs \<longrightarrow> (case tok_loop (tok_print runpos mx 0) 0 False (replicate 8 None) of None \<Rightarrow> False | Some asg \<Rightarrow> restores zs asg)"
    "runpos ! 0 = 1 \<and> maxpos = 5 \<longrightarrow> take 6 zs = replicate 6 0" "runpos ! 0 = 1 \<and> maxpos = 4 \<longrightarrow> take 5 zs = replicate 5 0"
    using ok unfolding pattern_ok_def Let_def by (auto split: prod.splits)
  have "\<exists>asg. tok_loop (tok_print runpos mx 0) 0 False (replicate 8 None) = Some asg \<and> restores (map (\<lambda>x. of_bool (x \<noteq> 0)) shorts) asg"
    if "unambiguous shorts" using p(2) that una by (auto simp: zs_def split: option.splits)
  then show ?thesis using p(3,4) zk[of 6] zk[of 5]
    by (intro exI[of _ runpos] exI[of _ mx] exI[of _ maxpos] conjI impI m p(1)) auto
qed

lemma dotted_chars: "length bs = 4 \<Longrightarrow> c \<in> set (ntop4_loop (ntohl bs) [0, 1, 2, 3]) \<Longrightarrow> is_digit c \<or> c = CHR ''.''"
  unfolding ntop4_text dotted_def
  using print_octet_digits(1)[OF byte_small] by (auto simp: dec_digits_def)

lemma dotted_dot: "length bs = 4 \<Longrightarrow> CHR ''.'' \<in> set (ntop4_loop (ntohl bs) [0, 1, 2, 3])"
  unfolding ntop4_text dotted_def by simp

text \<open>The two dotted forms.\<close>

lemma print_dotted_text:
  assumes "length src = 16" and "46 \<le> cap"
  shows "print_dotted cap src maxpos =
    Inr (''::'' @ (if maxpos = 4 then ''ffff:'' else []) @ ntop4_loop (ntohl (drop 12 src)) [0, 1, 2, 3], True)"
  using assms pton4_ntop4(2)[of "drop 12 src"]
  by (simp add: print_dotted_def emit_ok inet_ntop_v4_def del: ntop4_loop.simps)

lemma pton6_dotted_text:
  assumes "length v4 = 4" and t: "t = ntop4_loop (ntohl v4) [0, 1, 2, 3]"
  shows "socket_inet_pton6 ovf (''::'' @ t) = Inr (Some (replicate 12 0 @ v4))"
    "socket_inet_pton6 ovf (''::ffff:'' @ t) = Inr (Some (replicate 10 0 @ [0xFF, 0xFF] @ v4))"
proof -
  have p: "socket_inet_pton4 t = Inr (Some v4)" using pton4_ntop4(1)[OF assms(1)] t by simp
  have c: "CHR '':'' \<notin> set t" "CHR ''x'' \<notin> set t" "CHR ''.'' \<in> set t"
    using dotted_chars[OF assms(1), of "CHR '':''"] dotted_chars[OF assms(1), of "CHR ''x''"] dotted_dot[OF assms(1)]
    by (auto simp: t is_digit_def simp del: ntop4_loop.simps)
  then have "t \<noteq> []" by auto
  then have "socket_inet_pton6 ovf (''::'' @ t) = pton6_dotted ovf t" using c by (simp add: socket_inet_pton6_def)
  then show "socket_inet_pton6 ovf (''::'' @ t) = Inr (Some (replicate 12 0 @ v4))"
    using c p by (simp add: pton6_dotted_def)
  have "hex_string 65535 = ''ffff''" by (simp add: hex_string.simps xdigit_char_def)
  then have s: "scan_hx ovf (''ffff:'' @ t) = Some (0xFFFF, 4)"
    using scan_hex[of "CHR '':'' # t" 65535 ovf] by (simp add: stops_def)
  have f: "take 12 ((replicate 16 (0::byte))[10 := 0xFF, 11 := 0xFF]) = replicate 10 0 @ [0xFF, 0xFF]" by code_simp
  have "socket_inet_pton6 ovf (''::ffff:'' @ t) = pton6_dotted ovf (''ffff:'' @ t)" using c by (simp add: socket_inet_pton6_def)
  also have "\<dots> = bindE (socket_inet_pton4 t) (\<lambda>v4. Inr (map_option (\<lambda>v4. take 12 ((replicate 16 (0::byte))[10 := 0xFF, 11 := 0xFF]) @ v4) v4))"
    unfolding pton6_dotted_def s Let_def by simp
  finally show "socket_inet_pton6 ovf (''::ffff:'' @ t) = Inr (Some (replicate 10 0 @ [0xFF, 0xFF] @ v4))"
    unfolding p f by simp
qed

lemma leading_zeros:
  assumes "length src = 16" and "\<forall>k<n. short_at src k = 0" and "2 * n \<le> 16"
  shows "take (2 * n) src = replicate (2 * n) 0"
proof (rule nth_equalityI)
  fix j assume "j < length (take (2 * n) src)"
  then have j: "j div 2 < n" "j < 2 * n" by auto
  have "j = 2 * (j div 2) \<or> j = Suc (2 * (j div 2))" by presburger
  then have "src ! j = 0" using zero_group[of src "j div 2"] assms(2) j(1) by metis
  then show "take (2 * n) src ! j = replicate (2 * n) 0 ! j" using j(2) by simp
qed (use assms in simp)

lemma group5_ffff:
  assumes "short_at src 5 = 0xFFFF"
  shows "src ! 10 = 0xFF" "src ! 11 = 0xFF"
proof -
  have "group_at src 5 = 0xFFFF" using assms by (simp add: group_at_def ntohs_def)
  then show "src ! 10 = 0xFF" "src ! 11 = 0xFF" using group_at_bytes[of src 5] by simp_all
qed

lemma pton6_rendered: "socket_inet_pton6 ovf (render g ts) = pton6_loop ovf (render g ts) 0 False (replicate 16 0)"
proof -
  have "CHR ''x'' \<notin> set (render g ts)" "CHR ''.'' \<notin> set (drop 2 (render g ts))"
    using render_chars[of "CHR ''x''" g ts] render_chars[of "CHR ''.''" g ts] set_drop_subset[of 2 "render g ts"] by auto
  then show ?thesis by (simp add: socket_inet_pton6_def)
qed

lemma ntop6_pton6:
  assumes "length src = 16" and "46 \<le> cap" and "int cap \<le> len" and "unambiguous (map (short_at src) [0..<8])"
  shows "\<exists>text z. inet_ntop_v6 cap src len = Inr (Some (text, z)) \<and> length text < cap
    \<and> socket_inet_pton6 ovf text = Inr (Some src)"
proof -
  define shorts where "shorts = map (short_at src) [0..<8]"
  obtain runpos mx maxpos where p: "(case mark_runs shorts 0 1 1 (- 1) of (runpos, mx, maxpos) \<Rightarrow>
      (if mx > 1 then keep_longest 8 maxpos runpos else runpos, mx, maxpos)) = (runpos, mx, maxpos)"
    "width (tok_print runpos mx 0) + 1 \<le> 46"
    "unambiguous shorts \<longrightarrow> (\<exists>asg. tok_loop (tok_print runpos mx 0) 0 False (replicate 8 None) = Some asg
      \<and> restores (map (\<lambda>x. of_bool (x \<noteq> 0)) shorts) asg)"
    "runpos ! 0 = 1 \<longrightarrow> maxpos = 5 \<longrightarrow> (\<forall>k<6. short_at src k = 0)" "runpos ! 0 = 1 \<longrightarrow> maxpos = 4 \<longrightarrow> (\<forall>k<5. short_at src k = 0)"
    using passes[of src, folded shorts_def] by (elim exE conjE)
  define dot where "dot \<longleftrightarrow> runpos ! 0 = 1 \<and> (maxpos = 5 \<or> maxpos = 4 \<and> shorts ! 5 = 0xFFFF)"
  have eq: "inet_ntop_v6 cap src len = bindE (if dot then print_dotted cap src maxpos else print_groups cap shorts runpos mx 0 ([], False))
      (\<lambda>out. Inr (Some out))"
    using p(1) assms(3) unfolding inet_ntop_v6_def shorts_def[symmetric] Let_def dot_def by (auto split: prod.splits)
  show ?thesis
  proof (cases dot)
    case True
    let ?v = "drop 12 src"
    have v: "length ?v = 4" using assms(1) by simp
    have src: "src = (if maxpos = 4 then replicate 10 0 @ [0xFF, 0xFF] else replicate 12 0) @ ?v"
    proof (cases "maxpos = 4")
      case m: True
      then have "take 10 src = replicate 10 0" "src ! 10 = 0xFF" "src ! 11 = 0xFF"
        using True p(5) leading_zeros[OF assms(1), of 5] group5_ffff[of src] by (simp_all add: dot_def shorts_def)
      moreover have "src = take 10 src @ [src ! 10, src ! 11] @ ?v"
        using assms(1) id_take_nth_drop[of 10 src] Cons_nth_drop_Suc[of 11 src] by simp
      ultimately show ?thesis using m by simp
    next
      case m: False
      then have "take 12 src = replicate 12 0" using True p(4) leading_zeros[OF assms(1), of 6] by (simp add: dot_def)
      then show ?thesis using m append_take_drop_id[of 12 src] by simp
    qed
    define txt6 where "txt6 = ''::'' @ (if maxpos = 4 then ''ffff:'' else []) @ ntop4_loop (ntohl ?v) [0, 1, 2, 3]"
    have "inet_ntop_v6 cap src len = Inr (Some (txt6, True))"
      unfolding eq txt6_def using True print_dotted_text[OF assms(1,2), of maxpos] by (simp del: ntop4_loop.simps)
    moreover have "length txt6 < cap" unfolding txt6_def using pton4_ntop4(2)[OF v] assms(2) by (simp del: ntop4_loop.simps)
    moreover have "socket_inet_pton6 ovf txt6 = Inr (Some src)"
    proof (cases "maxpos = 4")
      case m: True
      have "txt6 = ''::ffff:'' @ ntop4_loop (ntohl ?v) [0, 1, 2, 3]" by (simp add: txt6_def m del: ntop4_loop.simps)
      then show ?thesis using pton6_dotted_text(2)[OF v refl, of ovf] src m by (simp only: if_True append.assoc refl)
    next
      case m: False
      have "txt6 = ''::'' @ ntop4_loop (ntohl ?v) [0, 1, 2, 3]" by (simp add: txt6_def m del: ntop4_loop.simps)
      then show ?thesis using pton6_dotted_text(1)[OF v refl, of ovf] src m by (simp only: if_False)
    qed
    ultimately show ?thesis by blast
  next
    case False
    obtain asg where a: "tok_loop (tok_print runpos mx 0) 0 False (replicate 8 None) = Some asg"
      "restores (map (\<lambda>x. of_bool (x \<noteq> 0)) shorts) asg" using p(3) assms(4) unfolding shorts_def by blast
    obtain z where z: "print_groups cap shorts runpos mx 0 ([], False) = Inr (render (group_at src) (tok_print runpos mx 0), z)"
      using print_groups_tokens[of "[]" runpos mx 0 cap src False] p(2) assms(2) by (auto simp: shorts_def)
    have "bytes_of src (replicate 8 None) = replicate 16 0" by (simp add: numeral_eq_Suc)
    then have "socket_inet_pton6 ovf (render (group_at src) (tok_print runpos mx 0)) = Inr (Some src)"
      using tok_loop_sound[OF a(1), of ovf src] restores_bytes[OF assms(1)] a(2) by (simp add: pton6_rendered shorts_def)
    moreover have "length (render (group_at src) ts) \<le> width ts" for ts
    proof (induction ts)
      case (Cons t ts)
      then show ?case using hex_string_length[OF unat16] by (cases t) (auto intro: add_mono)
    qed simp
    then have "length (render (group_at src) (tok_print runpos mx 0)) < cap"
      using p(2) assms(2) by (meson add_le_same_cancel1 le_trans less_le_trans not_less not_one_le_zero)
    ultimately show ?thesis using False z by (simp add: eq)
  qed
qed

section \<open>Properties\<close>

text \<open>
  C34: \<open>socket_inet_pton\<close> never leaves its buffer on IPv4 text, and accepts exactly the dotted quads:
  four non-empty decimal numbers up to 255, separated by single periods; the bytes are the values of
  the four numbers in order.
\<close>

theorem socket_inet_pton4_exact:
  "\<exists>x. socket_inet_pton ovf AF_INET s = Inr x \<and> (\<forall>bs. x = Some bs \<longleftrightarrow> (\<exists>a b c d. s = dotted a b c d
      \<and> list_all (\<lambda>e. dec_digits e \<and> dec_value e \<le> 255) [a, b, c, d] \<and> bs = map (of_nat \<circ> dec_value) [a, b, c, d]))"
  unfolding socket_inet_pton.simps by (rule pton4_iff)



lemmas parse_defs = socket_inet_pton6_def pton6_loop.simps scan_hx_def skip_sign_def skip_0x_def is_space_def is_xdigit_def
  is_digit_def xdigit_of_def put_group_def count_colons_def Let_def

text \<open>
  Three defects of the IPv6 conversions. Several isolated zero groups are each printed as a double
  colon, a text that \<open>socket_inet_pton\<close> rejects; a text that ends in a double colon is not terminated.
\<close>

theorem isolated_zeros_not_readable:
  "socket_inet_ntop 46 AF_INET6 [0, 1, 0, 0, 0, 2, 0, 0, 0, 3, 0, 4, 0, 5, 0, 6] 46 = Inr (Some (''1::2::3:4:5:6'', True))
   \<and> socket_inet_pton (\<lambda>_ _. 0) AF_INET6 ''1::2::3:4:5:6'' = Inr None"
proof
  show "socket_inet_ntop 46 AF_INET6 [0, 1, 0, 0, 0, 2, 0, 0, 0, 3, 0, 4, 0, 5, 0, 6] 46 = Inr (Some (''1::2::3:4:5:6'', True))"
    by code_simp
qed (simp add: parse_defs)

theorem trailing_run_unterminated:
  "socket_inet_ntop 46 AF_INET6 [0, 1, 0, 0, 0, 0, 0, 0, 0, 0, 0, 0, 0, 0, 0, 0] 46 = Inr (Some (''1::'', False))"
  by code_simp

text \<open>
  With a double colon and more than seven further colons the cursor is set in front of the address and
  the next group is written there; nine groups around a double colon are accepted.
\<close>

theorem many_groups_underrun:
  "socket_inet_pton (\<lambda>_ _. 0) AF_INET6 ''::1:2:3:4:5:6:7:8:9'' = Inl MemFault"
  by (simp add: parse_defs)

theorem nine_groups_accepted:
  "socket_inet_pton (\<lambda>_ _. 0) AF_INET6 ''1:2:3:4:5::6:7:8:9'' = Inr (Some [0, 1, 0, 2, 0, 3, 0, 4, 0, 6, 0, 7, 0, 8, 0, 9])"
proof -
  have "replicate 16 (0 :: byte) = [0, 0, 0, 0, 0, 0, 0, 0, 0, 0, 0, 0, 0, 0, 0, 0]" by (simp add: numeral_eq_Suc)
  then show ?thesis by (simp add: parse_defs)
qed

end
