(* ===== verification/SocketAddress.thy ===== *)
theory SocketAddress
  imports InetAddr
begin

text \<open>
  Model of \<open>network/socket_address.cc\<close>, \<open>network/socket_address.h\<close> and \<open>network/ipv6_address_utils.h\<close>: a value class for IPv4
  and IPv6 endpoints with their text forms. The conversions \<open>socket_inet_pton\<close> and \<open>socket_inet_ntop\<close> are
  arguments, since on POSIX they are those of the C library; the locale \<open>inet_conv\<close> states what the class
  needs of them, and the functions of \<open>InetAddr\<close> provide it. A \<open>sockaddr\<close> has the port as it is in memory
  (a little-endian read of network order) and the bytes of the address; other fields are not used. The text buffers are
  zeroed before use, so texts are strings. \<open>sscanf\<close> follows the C standard; \<open>ovf\<close> is what \<open>%hu\<close> stores
  for a number that does not fit.
\<close>

section \<open>State\<close>

datatype sockaddr = SaIn "16 word" "byte list" | SaIn6 "16 word" "byte list" | SaUnspec

record socket_address =
  sa_addr :: sockaddr
  sa_ip :: string
  sa_url :: string

type_synonym pton = "family \<Rightarrow> string \<Rightarrow> byte list option cres"
type_synonym ntop = "family \<Rightarrow> byte list \<Rightarrow> int \<Rightarrow> (string \<times> bool) option cres"

definition htons :: "16 word \<Rightarrow> 16 word" where
  "htons w = ntohs w"

definition kWellKnownNat64Prefix :: string where
  "kWellKnownNat64Prefix = ''64:ff9b::''"

definition IN6_IS_ADDR_NAT64 :: "byte list \<Rightarrow> bool" where
  "IN6_IS_ADDR_NAT64 a6 \<longleftrightarrow> take 4 a6 = [0, 0x64, 0xFF, 0x9B]"

definition IN6_IS_ADDR_V4MAPPED :: "byte list \<Rightarrow> bool" where
  "IN6_IS_ADDR_V4MAPPED a6 \<longleftrightarrow> take 12 a6 = [0, 0, 0, 0, 0, 0, 0, 0, 0, 0, 0xFF, 0xFF]"

definition IN6_SET_ADDR_V4MAPPED :: "byte list \<Rightarrow> byte list" where
  "IN6_SET_ADDR_V4MAPPED a4 = [0, 0, 0, 0, 0, 0, 0, 0, 0, 0, 0xFF, 0xFF] @ a4"

definition IN6_SET_ADDR_NAT64 :: "byte list \<Rightarrow> byte list" where
  "IN6_SET_ADDR_NAT64 a4 = [0, 0x64, 0xFF, 0x9B, 0, 0, 0, 0, 0, 0, 0, 0] @ a4"

section \<open>Operations\<close>

definition addr_port :: "sockaddr \<Rightarrow> 16 word" where
  "addr_port a = (case a of SaIn p _ \<Rightarrow> ntohs p | SaIn6 p _ \<Rightarrow> ntohs p | SaUnspec \<Rightarrow> 0)"

text \<open>\<open>%u\<close>\<close>

fun dec_string :: "nat \<Rightarrow> string" where
  "dec_string n = (if n < 10 then [ndigit n] else dec_string (n div 10) @ [ndigit (n mod 10)])"

declare dec_string.simps [simp del]

text \<open>What a conversion leaves in a zeroed buffer.\<close>

definition text_of :: "(string \<times> bool) option cres \<Rightarrow> string cres" where
  "text_of r = bindE r (\<lambda>r. Inr (case r of None \<Rightarrow> [] | Some (t, _) \<Rightarrow> t))"

text \<open>\<open>ip_\<close> has 64 bytes; \<open>snprintf\<close> stores at most 127 characters in \<open>url_\<close>.\<close>

definition sa_init :: "ntop \<Rightarrow> sockaddr \<Rightarrow> socket_address cres" where
  "sa_init ntop a =
     (case a of
        SaIn p q \<Rightarrow>
          bindE (text_of (ntop AF_INET q 64)) (\<lambda>ip.
            Inr \<lparr>sa_addr = a, sa_ip = ip, sa_url = take 127 (ip @ '':'' @ dec_string (unat (addr_port a)))\<rparr>)
      | SaIn6 p q \<Rightarrow>
          bindE (if IN6_IS_ADDR_NAT64 q
                 then bindE (text_of (ntop AF_INET (drop 12 q) 55)) (\<lambda>t. Inr (kWellKnownNat64Prefix @ t))
                 else text_of (ntop AF_INET6 q 64)) (\<lambda>ip.
            Inr \<lparr>sa_addr = a, sa_ip = ip, sa_url = take 127 (''['' @ ip @ '']:'' @ dec_string (unat (addr_port a)))\<rparr>)
      | SaUnspec \<Rightarrow> Inr \<lparr>sa_addr = SaUnspec, sa_ip = [], sa_url = []\<rparr>)"

definition sa_new_ip :: "pton \<Rightarrow> ntop \<Rightarrow> string \<Rightarrow> 16 word \<Rightarrow> socket_address cres" where
  "sa_new_ip pton ntop ip port =
     bindE (pton AF_INET ip) (\<lambda>r4.
       case r4 of
         Some addr4 \<Rightarrow> sa_init ntop (SaIn (htons port) addr4)
       | None \<Rightarrow>
           bindE (pton AF_INET6 ip) (\<lambda>r6.
             case r6 of Some addr6 \<Rightarrow> sa_init ntop (SaIn6 (htons port) addr6) | None \<Rightarrow> sa_init ntop SaUnspec))"

definition sa_new_in_addr :: "ntop \<Rightarrow> byte list \<Rightarrow> socket_address cres" where
  "sa_new_in_addr ntop q = sa_init ntop (SaIn 0 q)"

definition sa_new_in6_addr :: "ntop \<Rightarrow> byte list \<Rightarrow> socket_address cres" where
  "sa_new_in6_addr ntop q = sa_init ntop (SaIn6 0 q)"

text \<open>The conversions of \<open>sscanf\<close>: \<open>%n[set]\<close> and \<open>%8hu\<close>.\<close>

definition scan_set :: "(char \<Rightarrow> bool) \<Rightarrow> nat \<Rightarrow> string \<Rightarrow> string" where
  "scan_set P n s = takeWhile P (take n s)"

definition scan_hu :: "(bool \<Rightarrow> nat \<Rightarrow> 16 word) \<Rightarrow> string \<Rightarrow> 16 word option" where
  "scan_hu ovf s =
     (let t = take 8 (dropWhile is_space s);
          neg = (t \<noteq> [] \<and> hd t = CHR ''-'');
          ds = takeWhile is_digit (skip_sign t);
          v = foldl (\<lambda>n c. n * 10 + digit_of c) 0 ds
      in if ds = [] then None else Some (if v \<ge> 65536 \<or> neg \<and> v \<noteq> 0 then ovf neg v else of_nat v))"

text \<open>The rest of a format after the address: a literal text and the port, which stays 0 if they do not match.\<close>

definition scan_port :: "(bool \<Rightarrow> nat \<Rightarrow> 16 word) \<Rightarrow> string \<Rightarrow> string \<Rightarrow> 16 word" where
  "scan_port ovf lit rest =
     (if take (length lit) rest = lit
      then (case scan_hu ovf (drop (length lit) rest) of Some p \<Rightarrow> p | None \<Rightarrow> 0) else 0)"

definition is_v4_char :: "char \<Rightarrow> bool" where
  "is_v4_char c \<longleftrightarrow> is_digit c \<or> c = CHR ''.''"

definition is_v6_char :: "char \<Rightarrow> bool" where
  "is_v6_char c \<longleftrightarrow> is_xdigit c \<or> c = CHR '':'' \<or> c = CHR ''.''"

text \<open>The result of \<open>socket_inet_pton\<close> is not tested; a failure leaves the zeroed address.\<close>

definition pton_or_zero :: "pton \<Rightarrow> family \<Rightarrow> nat \<Rightarrow> string \<Rightarrow> byte list cres" where
  "pton_or_zero pton fam n ip = bindE (pton fam ip) (\<lambda>r. Inr (case r of Some q \<Rightarrow> q | None \<Rightarrow> replicate n 0))"

text \<open>\<open>ip_s\<close> has 40 bytes: 40 characters and the terminating zero do not fit.\<close>

definition sa_new_v6_text :: "pton \<Rightarrow> ntop \<Rightarrow> string \<Rightarrow> 16 word \<Rightarrow> socket_address cres" where
  "sa_new_v6_text pton ntop ip_s port =
     (if length ip_s \<ge> 40 then Inl MemFault
      else bindE (pton_or_zero pton AF_INET6 16 ip_s) (\<lambda>q. sa_init ntop (SaIn6 (htons port) q)))"

definition sa_new_url :: "pton \<Rightarrow> ntop \<Rightarrow> (bool \<Rightarrow> nat \<Rightarrow> 16 word) \<Rightarrow> string \<Rightarrow> socket_address cres" where
  "sa_new_url pton ntop ovf url =
     (let v4 = scan_set is_v4_char 15 url;
          v6b = (if url \<noteq> [] \<and> hd url = CHR ''['' then scan_set is_v6_char 40 (tl url) else []);
          v6 = scan_set is_v6_char 40 url
      in if v4 \<noteq> [] then
           bindE (pton_or_zero pton AF_INET 4 v4) (\<lambda>q.
             sa_init ntop (SaIn (htons (scan_port ovf '':'' (drop (length v4) url))) q))
         else if v6b \<noteq> [] then sa_new_v6_text pton ntop v6b (scan_port ovf '']:'' (drop (Suc (length v6b)) url))
         else if v6 \<noteq> [] then sa_new_v6_text pton ntop v6 0
         else sa_init ntop SaUnspec)"

definition address_length :: "socket_address \<Rightarrow> nat" where
  "address_length s = (case sa_addr s of SaIn _ _ \<Rightarrow> 16 | SaIn6 _ _ \<Rightarrow> 28 | SaUnspec \<Rightarrow> 0)"

text \<open>\<open>strncasecmp\<close> on C strings.\<close>

definition lower :: "char \<Rightarrow> nat" where
  "lower c = (let n = of_char c in if 65 \<le> n \<and> n \<le> 90 then n + 32 else n)"

definition same_prefix :: "nat \<Rightarrow> string \<Rightarrow> string \<Rightarrow> bool" where
  "same_prefix n a b \<longleftrightarrow> map lower (take n a) = map lower (take n b)"

definition sa_ip_text :: "socket_address \<Rightarrow> string" where
  "sa_ip_text s =
     (case sa_addr s of
        SaIn _ _ \<Rightarrow> sa_ip s
      | SaIn6 _ _ \<Rightarrow>
          if same_prefix 7 ''::FFFF:'' (sa_ip s) then drop 7 (sa_ip s)
          else if same_prefix 9 kWellKnownNat64Prefix (sa_ip s) then drop 9 (sa_ip s)
          else sa_ip s
      | SaUnspec \<Rightarrow> [])"

definition sa_port :: "socket_address \<Rightarrow> 16 word" where
  "sa_port s = addr_port (sa_addr s)"

definition sa_valid :: "socket_address \<Rightarrow> bool" where
  "sa_valid s = (case sa_addr s of SaIn _ _ \<Rightarrow> True | SaIn6 _ _ \<Rightarrow> True | SaUnspec \<Rightarrow> False)"

definition INADDR_ANY :: u32 where "INADDR_ANY = 0"
definition INADDR_BROADCAST :: u32 where "INADDR_BROADCAST = 0xFFFFFFFF"
definition INADDR_NONE :: u32 where "INADDR_NONE = 0xFFFFFFFF"
definition INADDR_LOOPBACK :: u32 where "INADDR_LOOPBACK = 0x7F000001"

definition server_host :: "bool \<Rightarrow> 16 word \<Rightarrow> u32 \<Rightarrow> bool" where
  "server_host allowloopback port hostip \<longleftrightarrow> 0 \<noteq> port \<and> hostip \<noteq> INADDR_ANY \<and> hostip \<noteq> INADDR_BROADCAST
     \<and> hostip \<noteq> INADDR_NONE \<and> (if allowloopback then True else hostip \<noteq> INADDR_LOOPBACK)"

definition valid_server_address :: "bool \<Rightarrow> socket_address \<Rightarrow> bool" where
  "valid_server_address allowloopback s =
     (case sa_addr s of
        SaIn p q \<Rightarrow> server_host allowloopback p (ntohl q)
      | SaIn6 p q \<Rightarrow> if IN6_IS_ADDR_V4MAPPED q then server_host allowloopback p (ntohl (drop 12 q)) else True
      | SaUnspec \<Rightarrow> False)"

definition valid_bind_address :: "socket_address \<Rightarrow> bool" where
  "valid_bind_address s = (case sa_addr s of SaIn p q \<Rightarrow> ntohl q \<noteq> INADDR_BROADCAST | _ \<Rightarrow> False)"

definition valid_broadcast_address :: "socket_address \<Rightarrow> bool" where
  "valid_broadcast_address s = (case sa_addr s of SaIn p q \<Rightarrow> 0 \<noteq> p \<and> INADDR_BROADCAST = ntohl q | _ \<Rightarrow> False)"

definition valid_loopback_ip :: "socket_address \<Rightarrow> bool" where
  "valid_loopback_ip s = (case sa_addr s of SaIn p q \<Rightarrow> INADDR_LOOPBACK = ntohl q | _ \<Rightarrow> False)"

definition valid_broadcast_ip :: "socket_address \<Rightarrow> bool" where
  "valid_broadcast_ip s = (case sa_addr s of SaIn p q \<Rightarrow> INADDR_BROADCAST = ntohl q | _ \<Rightarrow> False)"

definition isv4mapped_address :: "socket_address \<Rightarrow> bool" where
  "isv4mapped_address s = (case sa_addr s of SaIn6 p q \<Rightarrow> IN6_IS_ADDR_V4MAPPED q | _ \<Rightarrow> False)"

definition v4tov4mapped_address :: "ntop \<Rightarrow> socket_address \<Rightarrow> socket_address cres" where
  "v4tov4mapped_address ntop s = (case sa_addr s of SaIn p q \<Rightarrow> sa_init ntop (SaIn6 p (IN6_SET_ADDR_V4MAPPED q)) | _ \<Rightarrow> Inr s)"

text \<open>\<open>fix_current_nat64_addr\<close>, whose work is commented out, and \<open>address_fix\<close> change nothing.\<close>

definition fix_current_nat64_addr :: "socket_address \<Rightarrow> bool \<times> socket_address" where
  "fix_current_nat64_addr s = (False, s)"

definition address_fix :: "socket_address \<Rightarrow> socket_address" where
  "address_fix s = (case sa_addr s of SaIn6 _ _ \<Rightarrow> snd (fix_current_nat64_addr s) | _ \<Rightarrow> s)"

definition v4tonat64_address :: "ntop \<Rightarrow> socket_address \<Rightarrow> socket_address cres" where
  "v4tonat64_address ntop s =
     bindE (case sa_addr s of SaIn p q \<Rightarrow> sa_init ntop (SaIn6 p (IN6_SET_ADDR_NAT64 q)) | _ \<Rightarrow> Inr s) (\<lambda>s. Inr (address_fix s))"

definition v4tov6_address :: "ntop \<Rightarrow> bool \<Rightarrow> socket_address \<Rightarrow> socket_address cres" where
  "v4tov6_address ntop nat64 s = (if nat64 then v4tonat64_address ntop s else v4tov4mapped_address ntop s)"

definition is_ipport_equal :: "socket_address \<Rightarrow> socket_address \<Rightarrow> bool" where
  "is_ipport_equal s t \<longleftrightarrow> take 64 (sa_ip_text s) = take 64 (sa_ip_text t) \<and> sa_port s = sa_port t"

text \<open>\<open>getsockname\<close> and \<open>getpeername\<close>; \<open>r\<close> is what the system call stores, if it succeeds.\<close>

definition sa_getsockname :: "pton \<Rightarrow> ntop \<Rightarrow> sockaddr option \<Rightarrow> socket_address cres" where
  "sa_getsockname pton ntop r =
     (case r of
        Some (SaIn p q) \<Rightarrow> sa_init ntop (SaIn p q)
      | Some (SaIn6 p q) \<Rightarrow> sa_init ntop (SaIn6 p q)
      | _ \<Rightarrow> sa_new_ip pton ntop ''0.0.0.0'' 0)"

definition sa_getpeername :: "pton \<Rightarrow> ntop \<Rightarrow> sockaddr option \<Rightarrow> socket_address cres" where
  "sa_getpeername pton ntop r =
     (case r of
        Some (SaIn p q) \<Rightarrow> sa_init ntop (SaIn p q)
      | Some (SaIn6 p q) \<Rightarrow> sa_init ntop (SaIn6 p q)
      | _ \<Rightarrow> sa_new_ip pton ntop ''0.0.0.0'' 0)"

section \<open>What the class needs of the conversions\<close>

text \<open>The dotted decimal text of an IPv4 address.\<close>

definition quad_text :: "byte list \<Rightarrow> string" where
  "quad_text q = ntop4_loop (ntohl q) [0, 1, 2, 3]"

lemma quad_text_facts:
  assumes "length q = 4"
  shows "\<forall>c\<in>set (quad_text q). is_v4_char c" "length (quad_text q) \<le> 15" "quad_text q \<noteq> []"
  using dotted_chars[OF assms] pton4_ntop4(2)[OF assms] dotted_dot[OF assms]
  by (auto simp: quad_text_def is_v4_char_def simp del: ntop4_loop.simps)

lemma ntohs_ntohs [simp]: "ntohs (ntohs w) = w"
  by (rule bit_eqI) (auto simp: ntohs_def bit_or_iff bit_push_bit_iff bit_drop_bit_eq)

lemma is_digit_ndigit: "n < 10 \<Longrightarrow> is_digit (ndigit n) \<and> digit_of (ndigit n) = n"
  using ndigit[of n] by simp

lemma dec_string_digits: "dec_digits (dec_string n) \<and> dec_value (dec_string n) = n"
proof (induction n rule: dec_string.induct)
  case (1 n)
  show ?case
  proof (cases "n < 10")
    case True
    then show ?thesis using is_digit_ndigit[of n] by (simp add: dec_string.simps[of n] dec_digits_def dec_value_def)
  next
    case False
    then have "dec_string n = dec_string (n div 10) @ [ndigit (n mod 10)]" by (simp add: dec_string.simps[of n])
    moreover have "n div 10 * 10 + n mod 10 = n" by simp
    ultimately show ?thesis
      using 1[OF False] is_digit_ndigit[of "n mod 10"] by (simp add: dec_digits_def dec_value_def)
  qed
qed

lemma length_dec_string: "n < 10 ^ Suc k \<Longrightarrow> length (dec_string n) \<le> Suc k"
proof (induction k arbitrary: n)
  case 0
  then show ?case by (simp add: dec_string.simps[of n])
next
  case (Suc k)
  show ?case
  proof (cases "n < 10")
    case False
    have "n div 10 < 10 ^ Suc k" using Suc.prems by (simp add: less_mult_imp_div_less mult.commute)
    from Suc.IH[OF this] show ?thesis using False by (simp add: dec_string.simps[of n])
  qed (simp add: dec_string.simps[of n])
qed

lemma digit_plain: "is_digit c \<Longrightarrow> \<not> is_space c \<and> c \<noteq> CHR ''-'' \<and> c \<noteq> CHR ''+''"
  by (auto simp: is_digit_def is_space_def)

lemma scan_hu_decimal:
  assumes "n < 65536"
  shows "scan_hu ovf (dec_string n) = Some (of_nat n)"
proof -
  have d: "dec_digits (dec_string n)" "dec_value (dec_string n) = n" using dec_string_digits by simp_all
  have len: "length (dec_string n) \<le> 5" using length_dec_string[of n 4] assms by simp
  obtain c cs where c: "dec_string n = c # cs" "is_digit c" using d(1) by (cases "dec_string n") (auto simp: dec_digits_def)
  have hd: "dec_string n \<noteq> []" "hd (dec_string n) \<noteq> CHR ''-''" using digit_plain[OF c(2)] c(1) by simp_all
  have a: "dropWhile is_space (dec_string n) = dec_string n" using digit_plain[OF c(2)] c(1) by simp
  have b: "skip_sign (dec_string n) = dec_string n" using digit_plain[OF c(2)] c(1) by (simp add: skip_sign_def)
  have e: "takeWhile is_digit (dec_string n) = dec_string n" using d(1) by (auto simp: dec_digits_def takeWhile_eq_all_conv)
  have t: "take 8 (dec_string n) = dec_string n" using len by simp
  show ?thesis unfolding scan_hu_def Let_def a t b e dec_value_def[symmetric] d(2) using assms hd by simp
qed

lemma scan_set_text:
  assumes "\<forall>c\<in>set t. P c" and "length t \<le> n" and "rest = [] \<or> \<not> P (hd rest)"
  shows "scan_set P n (t @ rest) = t"
proof -
  have "takeWhile P (t @ take (n - length t) rest) = t"
    using assms by (cases rest; cases "n - length t") (auto simp: takeWhile_append)
  then show ?thesis using assms(2) by (simp add: scan_set_def)
qed

locale inet_conv =
  fixes pton :: pton and ntop :: ntop
  assumes ntop_quad: "length q = 4 \<Longrightarrow> 16 \<le> n \<Longrightarrow> ntop AF_INET q n = Inr (Some (quad_text q, True))"
    and pton_quad: "length q = 4 \<Longrightarrow> pton AF_INET (quad_text q) = Inr (Some q)"
    and ntop_mapped: "length q = 4 \<Longrightarrow> 46 \<le> n \<Longrightarrow> ntop AF_INET6 (IN6_SET_ADDR_V4MAPPED q) n = Inr (Some (''::ffff:'' @ quad_text q, True))"
begin

lemma init_quad:
  assumes "length q = 4"
  shows "sa_init ntop (SaIn p q) = Inr \<lparr>sa_addr = SaIn p q, sa_ip = quad_text q,
    sa_url = take 127 (quad_text q @ '':'' @ dec_string (unat (ntohs p)))\<rparr>"
  using ntop_quad[OF assms, of 64] by (simp add: sa_init_def text_of_def addr_port_def)

text \<open>An IPv4 endpoint survives printing as a URL and reading it.\<close>

lemma url_quad:
  assumes "length q = 4" and "sa_init ntop (SaIn p q) = Inr s"
  shows "sa_new_url pton ntop ovf (sa_url s) = Inr s"
proof -
  define u where "u = unat (ntohs p)"
  have u: "u < 65536" using unsigned_less[of "ntohs p"] by (simp add: u_def)
  note t = quad_text_facts[OF assms(1)]
  have len: "length (quad_text q @ CHR '':'' # dec_string u) \<le> 127" using t(2) length_dec_string[of u 4] u by simp
  have url: "sa_url s = quad_text q @ CHR '':'' # dec_string u"
    using assms(2) init_quad[OF assms(1), of p] len by (auto simp: u_def)
  have "\<not> is_v4_char (CHR '':'')" by (simp add: is_v4_char_def is_digit_def)
  then have scan: "scan_set is_v4_char 15 (sa_url s) = quad_text q" using scan_set_text[OF t(1,2)] by (simp add: url)
  have port: "scan_port ovf '':'' (drop (length (quad_text q)) (sa_url s)) = ntohs p"
    using scan_hu_decimal[OF u] by (simp add: url scan_port_def u_def)
  have "sa_new_url pton ntop ovf (sa_url s) = sa_init ntop (SaIn (htons (ntohs p)) q)"
    using t(3) pton_quad[OF assms(1)] by (simp add: sa_new_url_def Let_def scan port pton_or_zero_def)
  then show ?thesis using assms(2) by (simp add: htons_def)
qed

lemma new_ip_quad: "length q = 4 \<Longrightarrow> sa_new_ip pton ntop (quad_text q) port = sa_init ntop (SaIn (htons port) q)"
  by (simp add: sa_new_ip_def pton_quad)

text \<open>The two embeddings into IPv6 show the same endpoint.\<close>

lemma embed_quad:
  assumes "length q = 4" and "sa_init ntop (SaIn p q) = Inr s"
  shows "\<exists>t. v4tov6_address ntop nat64 s = Inr t \<and> is_ipport_equal t s \<and> address_length t = 28
    \<and> (isv4mapped_address t \<longleftrightarrow> \<not> nat64)
    \<and> (valid_server_address lo t \<longleftrightarrow> nat64 \<or> valid_server_address lo s)"
proof -
  have s: "s = \<lparr>sa_addr = SaIn p q, sa_ip = quad_text q, sa_url = take 127 (quad_text q @ '':'' @ dec_string (unat (ntohs p)))\<rparr>"
    using assms(2) init_quad[OF assms(1), of p] by simp
  have "\<not> IN6_IS_ADDR_NAT64 (IN6_SET_ADDR_V4MAPPED q)"
    by (simp add: IN6_IS_ADDR_NAT64_def IN6_SET_ADDR_V4MAPPED_def)
  moreover have "IN6_IS_ADDR_NAT64 (IN6_SET_ADDR_NAT64 q)" "drop 12 (IN6_SET_ADDR_NAT64 q) = q"
    by (simp_all add: IN6_IS_ADDR_NAT64_def IN6_SET_ADDR_NAT64_def)
  moreover have "IN6_IS_ADDR_V4MAPPED (IN6_SET_ADDR_V4MAPPED q)" by (simp add: IN6_IS_ADDR_V4MAPPED_def IN6_SET_ADDR_V4MAPPED_def)
  moreover have "\<not> IN6_IS_ADDR_V4MAPPED (IN6_SET_ADDR_NAT64 q)"
    by (simp add: IN6_IS_ADDR_V4MAPPED_def IN6_SET_ADDR_NAT64_def)
  moreover have "drop 12 (IN6_SET_ADDR_V4MAPPED q) = q" by (simp add: IN6_SET_ADDR_V4MAPPED_def)
  ultimately show ?thesis
    using ntop_quad[OF assms(1), of 55] ntop_mapped[OF assms(1), of 64]
    by (cases nat64)
      (auto simp: s v4tov6_address_def v4tonat64_address_def v4tov4mapped_address_def sa_init_def text_of_def sa_ip_text_def sa_port_def addr_port_def
        address_fix_def fix_current_nat64_addr_def isv4mapped_address_def same_prefix_def lower_def kWellKnownNat64Prefix_def
        is_ipport_equal_def address_length_def valid_server_address_def)
qed

end

section \<open>The conversions of the repository\<close>

lemma short_at_mapped:
  assumes "length q = 4"
  shows "map (short_at (IN6_SET_ADDR_V4MAPPED q)) [0..<8] = [0, 0, 0, 0, 0, 0xFFFF, short_at q 0, short_at q 1]"
proof -
  obtain a b c d where q: "q = [a, b, c, d]" using assms by (auto simp: length_Suc_conv numeral_eq_Suc)
  show ?thesis unfolding q IN6_SET_ADDR_V4MAPPED_def short_at_def by (simp add: upt_rec push_bit_eq_mult)
qed

lemma ntop6_mapped:
  assumes "length q = 4" and "46 \<le> n"
  shows "inet_ntop_v6 46 (IN6_SET_ADDR_V4MAPPED q) n = Inr (Some (''::ffff:'' @ quad_text q, True))"
proof -
  let ?S = "[0, 0, 0, 0, 0, 0xFFFF, short_at q 0, short_at q 1]"
  have k: "keep_longest 8 4 [1, 2, 3, 4, 5, - 1, x, y] ! 0 = 1" for x y by (simp add: numeral_eq_Suc)
  have runs: "\<exists>r. mark_runs ?S 0 1 1 (- 1) = (r, 5, 4) \<and> keep_longest 8 4 r ! 0 = 1"
    using k by (cases "short_at q 0 = 0"; cases "short_at q 1 = 0") simp_all
  then obtain r where r: "mark_runs ?S 0 1 1 (- 1) = (r, 5, 4)" "keep_longest 8 4 r ! 0 = 1" by blast
  have l: "length (IN6_SET_ADDR_V4MAPPED q) = 16" and d: "drop 12 (IN6_SET_ADDR_V4MAPPED q) = q"
    using assms(1) by (simp_all add: IN6_SET_ADDR_V4MAPPED_def)
  show ?thesis
    unfolding inet_ntop_v6_def Let_def short_at_mapped[OF assms(1)] r(1)
    using r(2) assms(2) print_dotted_text[OF l, of 46 4] by (simp add: d quad_text_def del: ntop4_loop.simps)
qed

interpretation inet: inet_conv "socket_inet_pton ovf" "socket_inet_ntop 46"
  by unfold_locales (auto simp: quad_text_def inet_ntop_v4_def ntop6_mapped pton4_ntop4[unfolded One_nat_def] simp del: ntop4_loop.simps)

section \<open>Properties\<close>

text \<open>
  C20: printing an IPv4 endpoint as a URL and reading the URL back gives the same object: same address
  bytes, same port, same texts; so does the constructor from the text and the port. The endpoint is
  valid. The conversions are those of the repository, and the result does not depend on how the C library
  stores a number that is too large.
\<close>

theorem socket_address_url_roundtrip:
  assumes "length q = 4"
  shows "\<exists>s. sa_init (socket_inet_ntop 46) (SaIn p q) = Inr s \<and> sa_valid s
    \<and> sa_new_url (socket_inet_pton ovf) (socket_inet_ntop 46) ovf' (sa_url s) = Inr s
    \<and> sa_new_ip (socket_inet_pton ovf) (socket_inet_ntop 46) (sa_ip_text s) (sa_port s) = Inr s"
proof -
  note s = inet.init_quad[OF assms, of p]
  show ?thesis
    using s inet.url_quad[OF assms s] inet.new_ip_quad[OF assms, of ovf "ntohs p"]
    by (simp add: sa_valid_def sa_ip_text_def sa_port_def addr_port_def htons_def)
qed

theorem socket_address_url_roundtrip_witness:
  "length [10, 0, 2, 15::byte] = 4 \<and> (\<exists>s. sa_init (socket_inet_ntop 46) (SaIn 0x901F [10, 0, 2, 15]) = Inr s \<and> sa_valid s
    \<and> sa_new_url (socket_inet_pton (\<lambda>_ _. 0)) (socket_inet_ntop 46) (\<lambda>_ _. 0) (sa_url s) = Inr s
    \<and> sa_new_ip (socket_inet_pton (\<lambda>_ _. 0)) (socket_inet_ntop 46) (sa_ip_text s) (sa_port s) = Inr s)"
  using socket_address_url_roundtrip[of "[10, 0, 2, 15]" "0x901F" "\<lambda>_ _. 0" "\<lambda>_ _. 0"] by simp



text \<open>An IPv6 text that starts with a decimal digit is read as an IPv4 address, and that fails.\<close>

theorem url_v6_taken_as_v4:
  "sa_new_url (socket_inet_pton ovf) (socket_inet_ntop 46) ovf' ''2001:db8::1'' = sa_init (socket_inet_ntop 46) (SaIn (htons 0) [0, 0, 0, 0])"
proof -
  have "socket_inet_pton4 ''2001'' = Inr None" by code_simp
  moreover have "scan_port ovf' '':'' '':db8::1'' = 0"
    by (simp add: scan_port_def scan_hu_def is_digit_def is_space_def skip_sign_def)
  moreover have "scan_set is_v4_char 15 ''2001:db8::1'' = ''2001''" by code_simp
  ultimately show ?thesis by (simp add: sa_new_url_def Let_def pton_or_zero_def numeral_eq_Suc)
qed

text \<open>A text of 40 IPv6 characters runs past the buffer.\<close>

theorem url_v6_overrun:
  assumes "\<forall>c\<in>set t. is_v6_char c" and "length t = 40"
  shows "sa_new_url pton ntop ovf ('']'' @ rest) = sa_init ntop SaUnspec" "sa_new_url pton ntop ovf (''['' @ t @ rest) = Inl MemFault"
proof -
  have "scan_set is_v6_char 40 (t @ rest) = t" using assms by (auto simp: scan_set_def takeWhile_eq_all_conv)
  moreover have "scan_set is_v4_char 15 (CHR ''['' # t @ rest) = []" by (simp add: scan_set_def is_v4_char_def is_digit_def take_Cons')
  moreover have "t \<noteq> []" using assms(2) by auto
  ultimately show "sa_new_url pton ntop ovf (''['' @ t @ rest) = Inl MemFault"
    using assms(2) by (simp add: sa_new_url_def sa_new_v6_text_def)
qed (simp add: sa_new_url_def scan_set_def is_v4_char_def is_v6_char_def is_digit_def is_xdigit_def numeral_eq_Suc)

text \<open>A text that is no address gives the zero address, which counts as valid.\<close>

theorem url_bad_address_valid:
  "\<exists>s. sa_new_url (socket_inet_pton ovf) (socket_inet_ntop 46) ovf' ''999.1.1.1'' = Inr s \<and> sa_valid s \<and> sa_ip_text s = ''0.0.0.0''"
proof -
  have a: "socket_inet_pton4 ''999.1.1.1'' = Inr None" by code_simp
  have b: "scan_set is_v4_char 15 ''999.1.1.1'' = ''999.1.1.1''" by code_simp
  have z: "replicate 4 (0::byte) = [0, 0, 0, 0]" by code_simp
  have c: "quad_text [0, 0, 0, 0] = ''0.0.0.0''" by code_simp
  show ?thesis using inet.init_quad[of "[0, 0, 0, 0]"] a
    by (simp add: sa_new_url_def Let_def b pton_or_zero_def z sa_valid_def sa_ip_text_def c)
qed

end
