(* ===== verification/Udp.thy ===== *)
theory Udp
  imports SocketAddress TcpClientFsm
begin

text \<open>
  Model of \<open>network/udpclient.cc\<close> and \<open>network/udpserver.cc\<close>: datagrams are queued by any thread and sent by a
  thread of the object, which reads while the queue is empty. The two classes have the same loop. What it shares is the
  record \<open>udp\<close>, where \<open>'a\<close> is what a queued datagram carries besides its bytes (the server: its destination; the client: nothing,
  the destination is a member). The loop is cut where other threads can come in between: after the lock
  is released, and after \<open>__DoSelect\<close>. A \<open>Break\<close> that falls between the \<open>poll\<close> of a \<open>Select\<close> and its \<open>Clear\<close> is a \<open>Break\<close>
  before the step whose \<open>poll\<close> does not report it. The locale \<open>udp_class\<close> is what the loop needs of
  \<open>__DoSelect\<close>. Allocation of the read buffer is left out. Parameter \<open>sk\<close>: a failed \<open>skassert2\<close> traps.
\<close>

section \<open>State\<close>

text \<open>
  Positions of the thread; \<open>UpSelect\<close> carries the local variables \<open>bWriteSet\<close>, \<open>buf\<close>, \<open>len\<close> and \<open>addr\<close> (\<open>buf\<close> points
  to a block of the queue that only this thread removes, or to the read buffer), \<open>UpAfter\<close> \<open>bWriteSet\<close>, \<open>ret\<close> and \<open>err\<close>.
\<close>

datatype 'a udp_pc =
  UpIdle
| UpStart
| UpTop
| UpSelect bool "byte list option" nat "'a option"
| UpAfter bool int int
| UpEnding

record 'a udp =
  ud_socket :: int
  ud_event :: bool
  ud_breaker :: SocketSelectBreaker
  ud_selector :: SocketSelect
  ud_list_buffer :: "(AutoBuffer \<times> 'a) list"
  ud_pc :: "'a udp_pc"

type_synonym UdpServer = "sockaddr udp"

record UdpClient = "unit udp" +
  uc_addr :: sockaddr

datatype 'a udp_event =
  UOpen int
| UBind int
| UClose int
| Queued 'a "byte list"
| SentTo sockaddr "byte list"
| UOnDataSent
| UOnDataGramRead "sockaddr option" "byte list"
| UOnError int

text \<open>The answers of the system during a step of the thread.\<close>

record udp_io =
  ui_poll :: "pollfd list \<Rightarrow> int \<Rightarrow> int \<times> pollfd list \<times> int"
  ui_rd :: int
  ui_errno :: int
  ui_sendto :: "nat \<Rightarrow> int"
  ui_recvfrom :: "nat \<Rightarrow> int \<times> byte list \<times> sockaddr"

definition MAX_DATAGRAM :: nat where "MAX_DATAGRAM = 65536"

definition IPV4_BROADCAST_IP :: string where "IPV4_BROADCAST_IP = ''255.255.255.255''"

text \<open>The conversion of \<open>ssize_t\<close> to \<open>int\<close>.\<close>

definition c_int :: "int \<Rightarrow> int" where
  "c_int x = sint (word_of_int x :: u32)"

text \<open>
  \<open>*(struct sockaddr_in* )&addr\<close>: of an IPv6 address the first 16 bytes, that is half of the address, with the family
  kept.
\<close>

definition as_sockaddr_in :: "sockaddr \<Rightarrow> sockaddr" where
  "as_sockaddr_in a = (case a of SaIn p q \<Rightarrow> SaIn p q | SaIn6 p q \<Rightarrow> SaIn6 p (take 8 q) | SaUnspec \<Rightarrow> SaUnspec)"

definition addr_of_ip :: "pton \<Rightarrow> ntop \<Rightarrow> string \<Rightarrow> 16 word \<Rightarrow> sockaddr cres" where
  "addr_of_ip pton ntop ip port = bindE (sa_new_ip pton ntop ip port) (\<lambda>s. Inr (as_sockaddr_in (sa_addr s)))"

section \<open>The queue\<close>

text \<open>
  The end of \<open>SendAsync\<close>, under the lock; \<open>ret\<close> is the result of \<open>thread_->start()\<close> if the thread is not running,
  \<open>wr\<close> that of the \<open>write\<close> of \<open>Break\<close>.
\<close>

definition udp_push ::
  "bool \<Rightarrow> (nat \<Rightarrow> bool) \<Rightarrow> int \<Rightarrow> int \<Rightarrow> 'a \<Rightarrow> byte list \<Rightarrow> ('a, 'm) udp_scheme \<Rightarrow> (('a, 'm) udp_scheme \<times> 'a udp_event list) cres" where
  "udp_push ae mem_ok ret wr a buf u =
     bindE (ab_Write ae mem_ok (Some buf) (length buf) (AutoBuffer_new 128)) (\<lambda>b.
     let u = u\<lparr>ud_list_buffer := ud_list_buffer u @ [(b, a)]\<rparr>;
         u = (if ud_pc u = UpIdle \<and> ret = 0 then u\<lparr>ud_pc := UpStart\<rparr> else u);
         u = u\<lparr>ud_breaker := snd (Break wr (ud_breaker u))\<rparr>
     in Inr (u, [Queued a buf]))"

definition UdpServer_SendAsync ::
  "bool \<Rightarrow> bool \<Rightarrow> (nat \<Rightarrow> bool) \<Rightarrow> int \<Rightarrow> int \<Rightarrow> sockaddr \<Rightarrow> byte list \<Rightarrow> UdpServer \<Rightarrow> (UdpServer \<times> sockaddr udp_event list) cres" where
  "UdpServer_SendAsync sk ae mem_ok ret wr addr buf u =
     ASSERT sk (ud_socket u \<noteq> INVALID_SOCKET \<and> ud_event u)
       (if ud_socket u = INVALID_SOCKET \<or> \<not> ud_event u then Inr (u, []) else udp_push ae mem_ok ret wr addr buf u)"

text \<open>\<open>__SetBroadcastOpt\<close>; \<open>opt\<close> is the result of \<open>setsockopt\<close>.\<close>

definition SetBroadcastOpt :: "int \<Rightarrow> bool" where
  "SetBroadcastOpt opt \<longleftrightarrow> \<not> opt \<noteq> 0"

definition UdpServer_SendBroadcast ::
  "pton \<Rightarrow> ntop \<Rightarrow> bool \<Rightarrow> bool \<Rightarrow> (nat \<Rightarrow> bool) \<Rightarrow> int \<Rightarrow> int \<Rightarrow> int \<Rightarrow> 16 word \<Rightarrow> byte list \<Rightarrow> UdpServer
    \<Rightarrow> (UdpServer \<times> sockaddr udp_event list) cres" where
  "UdpServer_SendBroadcast pton ntop sk ae mem_ok ret wr opt port buf u =
     bindE (addr_of_ip pton ntop IPV4_BROADCAST_IP port) (\<lambda>dstAddr.
       if \<not> SetBroadcastOpt opt then Inr (u, []) else UdpServer_SendAsync sk ae mem_ok ret wr dstAddr buf u)"

definition UdpServer_SendAsync_ip ::
  "pton \<Rightarrow> ntop \<Rightarrow> bool \<Rightarrow> bool \<Rightarrow> (nat \<Rightarrow> bool) \<Rightarrow> int \<Rightarrow> int \<Rightarrow> int \<Rightarrow> string \<Rightarrow> 16 word \<Rightarrow> byte list \<Rightarrow> UdpServer
    \<Rightarrow> (UdpServer \<times> sockaddr udp_event list) cres" where
  "UdpServer_SendAsync_ip pton ntop sk ae mem_ok ret wr opt ip port buf u =
     bindE (addr_of_ip pton ntop ip port) (\<lambda>dstAddr.
       if IPV4_BROADCAST_IP = ip \<and> \<not> SetBroadcastOpt opt then Inr (u, [])
       else UdpServer_SendAsync sk ae mem_ok ret wr dstAddr buf u)"

definition UdpClient_SendAsync ::
  "bool \<Rightarrow> bool \<Rightarrow> (nat \<Rightarrow> bool) \<Rightarrow> int \<Rightarrow> int \<Rightarrow> byte list \<Rightarrow> UdpClient \<Rightarrow> (UdpClient \<times> unit udp_event list) cres" where
  "UdpClient_SendAsync sk ae mem_ok ret wr buf u =
     ASSERT sk (ud_socket u \<noteq> INVALID_SOCKET \<and> ud_event u)
       (if ud_socket u = INVALID_SOCKET \<or> \<not> ud_event u then Inr (u, []) else udp_push ae mem_ok ret wr () buf u)"

definition HasBufferToSend :: "UdpClient \<Rightarrow> bool" where
  "HasBufferToSend u \<longleftrightarrow> \<not> ud_list_buffer u = []"

definition SetIpPort :: "pton \<Rightarrow> ntop \<Rightarrow> string \<Rightarrow> 16 word \<Rightarrow> UdpClient \<Rightarrow> UdpClient cres" where
  "SetIpPort pton ntop ip port u = bindE (addr_of_ip pton ntop ip port) (\<lambda>a. Inr (u\<lparr>uc_addr := a\<rparr>))"

section \<open>Select and transfer\<close>

definition UdpServer_DoSelect ::
  "bool \<Rightarrow> udp_io \<Rightarrow> bool \<Rightarrow> bool \<Rightarrow> byte list option \<Rightarrow> nat \<Rightarrow> sockaddr option \<Rightarrow> UdpServer
    \<Rightarrow> (int \<times> int \<times> UdpServer \<times> sockaddr udp_event list) cres" where
  "UdpServer_DoSelect sk io rset wset buf len addr u =
     ASSERT sk (\<not> (rset \<and> wset) \<and> (rset \<or> wset))
      (let fd = ud_socket u;
           s = PreSelect (ud_breaker u) (ud_selector u);
           s = (if wset then Write_FD_SET fd s else s);
           s = (if rset then Read_FD_SET fd s else s);
           s = Exception_FD_SET fd s
       in bindE (Select_forever (ui_poll io) (ui_rd io) (ud_breaker u) s) (\<lambda>(ret, b, s).
       let u = u\<lparr>ud_breaker := b, ud_selector := s\<rparr>
       in if ret < 0 then Inr (-1, Errno s, u, [])
          else if IsException b s then Inr (-1, Errno s, u, [])
          else if IsBreak b s then Inr (-2, 0, u, [])
          else if Exception_FD_ISSET fd s \<noteq> 0 then Inr (-1, ui_errno io, u, [])
          else if Write_FD_ISSET fd s \<noteq> 0 then
            bindE (block_read buf 0 len) (\<lambda>bytes.
            let ret = c_int (ui_sendto io len)
            in if ret = -1 then Inr (-1, ui_errno io, u, [])
               else Inr (ret, 0, u, [SentTo (case addr of Some a \<Rightarrow> a | None \<Rightarrow> SaUnspec) (take (nat ret) bytes)]))
          else if Read_FD_ISSET fd s \<noteq> 0 then
            (case ui_recvfrom io len of (n, data, from) \<Rightarrow>
             let ret = c_int n
             in if ret = -1 then Inr (-1, ui_errno io, u, [])
                else Inr (ret, 0, u, if ud_event u then [UOnDataGramRead (Some from) (take (nat ret) data)] else []))
          else Inr (-1, 0, u, [])))"

definition UdpClient_DoSelect ::
  "int \<Rightarrow> bool \<Rightarrow> udp_io \<Rightarrow> bool \<Rightarrow> bool \<Rightarrow> byte list option \<Rightarrow> nat \<Rightarrow> unit option \<Rightarrow> UdpClient
    \<Rightarrow> (int \<times> int \<times> UdpClient \<times> unit udp_event list) cres" where
  "UdpClient_DoSelect timeoutMs sk io rset wset buf len _ u =
     ASSERT sk (\<not> (rset \<and> wset) \<and> (rset \<or> wset))
      (let fd = ud_socket u;
           s = PreSelect (ud_breaker u) (ud_selector u);
           s = (if wset then Write_FD_SET fd s else if rset then Read_FD_SET fd s else s);
           s = Exception_FD_SET fd s
       in bindE (if timeoutMs = -1 then Select_forever (ui_poll io) (ui_rd io) (ud_breaker u) s
                 else Select (ui_poll io) (ui_rd io) timeoutMs (ud_breaker u) s) (\<lambda>(ret, b, s).
       let u = u\<lparr>ud_breaker := b, ud_selector := s\<rparr>
       in if ret < 0 then Inr (-1, Errno s, u, [])
          else if ret = 0 then Inr (0, 0, u, [])
          else if IsException b s then Inr (-1, Errno s, u, [])
          else if IsBreak b s then Inr (-2, 0, u, [])
          else if Exception_FD_ISSET fd s \<noteq> 0 then Inr (-1, ui_errno io, u, [])
          else if Write_FD_ISSET fd s \<noteq> 0 then
            bindE (block_read buf 0 len) (\<lambda>bytes.
            let ret = c_int (ui_sendto io len)
            in if ret = -1 then Inr (-1, ui_errno io, u, [])
               else Inr (ret, 0, u, SentTo (uc_addr u) (take (nat ret) bytes) # (if ud_event u then [UOnDataSent] else [])))
          else if Read_FD_ISSET fd s \<noteq> 0 then
            (case ui_recvfrom io len of (n, data, from) \<Rightarrow>
             let ret = c_int n
             in if ret = -1 then Inr (-1, ui_errno io, u, [])
                else Inr (ret, 0, u, if ud_event u then [UOnDataGramRead None (take (nat ret) data)] else []))
          else Inr (-1, 0, u, [])))"

text \<open>The blocking calls of a client without callbacks; the time limit of \<open>ReadBlock\<close> is not used.\<close>

definition SendBlock :: "bool \<Rightarrow> udp_io \<Rightarrow> byte list \<Rightarrow> UdpClient \<Rightarrow> (int \<times> UdpClient \<times> unit udp_event list) cres" where
  "SendBlock sk io buf u =
     ASSERT sk (ud_socket u \<noteq> INVALID_SOCKET \<and> \<not> ud_event u)
       (if ud_socket u = INVALID_SOCKET \<or> ud_event u then Inr (-1, u, [])
        else bindE (UdpClient_DoSelect (-1) sk io False True (Some buf) (length buf) None u) (\<lambda>(ret, _, u, evs). Inr (ret, u, evs)))"

definition ReadBlock :: "bool \<Rightarrow> udp_io \<Rightarrow> byte list \<Rightarrow> int \<Rightarrow> UdpClient \<Rightarrow> (int \<times> UdpClient \<times> unit udp_event list) cres" where
  "ReadBlock sk io buf timeOutMs u =
     ASSERT sk (ud_socket u \<noteq> INVALID_SOCKET \<and> \<not> ud_event u)
       (if ud_socket u = INVALID_SOCKET \<or> ud_event u then Inr (-1, u, [])
        else bindE (UdpClient_DoSelect (-1) sk io True False (Some buf) (length buf) None u) (\<lambda>(ret, _, u, evs). Inr (ret, u, evs)))"

section \<open>The loop\<close>

text \<open>The top of the loop, under the lock.\<close>

definition udp_top :: "('a, 'm) udp_scheme \<Rightarrow> ('a, 'm) udp_scheme" where
  "udp_top u =
     u\<lparr>ud_pc := (case ud_list_buffer u of
         (b, a) # _ \<Rightarrow> UpSelect True (ab_parray b) (ab_Length b) (Some a)
       | [] \<Rightarrow> UpSelect False (Some (replicate MAX_DATAGRAM 0)) (MAX_DATAGRAM - 1) None)\<rparr>"

text \<open>The rest of the loop; \<open>pop_front\<close> of an empty list is outside the list.\<close>

definition udp_after :: "bool \<Rightarrow> int \<Rightarrow> int \<Rightarrow> ('a, 'm) udp_scheme \<Rightarrow> (('a, 'm) udp_scheme \<times> 'a udp_event list) cres" where
  "udp_after bWriteSet ret err u =
     (if ret = -1 then Inr (u\<lparr>ud_pc := UpEnding\<rparr>, if ud_event u then [UOnError err] else [])
      else if ret = -2 \<and> \<not> ud_event u then Inr (u\<lparr>ud_pc := UpEnding\<rparr>, [])
      else if ret = -2 then Inr (u\<lparr>ud_pc := UpTop\<rparr>, [])
      else if bWriteSet then
        (case ud_list_buffer u of [] \<Rightarrow> Inl MemFault | _ # bs \<Rightarrow> Inr (u\<lparr>ud_list_buffer := bs, ud_pc := UpTop\<rparr>, []))
      else Inr (u\<lparr>ud_pc := UpTop\<rparr>, []))"

definition udp_start :: "bool \<Rightarrow> ('a, 'm) udp_scheme \<Rightarrow> ('a, 'm) udp_scheme cres" where
  "udp_start sk u =
     ASSERT sk (ud_socket u \<noteq> INVALID_SOCKET)
       (Inr (if ud_socket u = INVALID_SOCKET then u\<lparr>ud_pc := UpEnding\<rparr> else u\<lparr>ud_pc := UpTop\<rparr>))"

text \<open>A step of the thread; \<open>UpEnding\<close> is the way out of the loop, after which \<open>isruning()\<close> is false.\<close>

definition udp_step ::
  "(udp_io \<Rightarrow> bool \<Rightarrow> bool \<Rightarrow> byte list option \<Rightarrow> nat \<Rightarrow> 'a option \<Rightarrow> ('a, 'm) udp_scheme \<Rightarrow> (int \<times> int \<times> ('a, 'm) udp_scheme \<times> 'a udp_event list) cres)
    \<Rightarrow> bool \<Rightarrow> udp_io \<Rightarrow> ('a, 'm) udp_scheme \<Rightarrow> (('a, 'm) udp_scheme \<times> 'a udp_event list) cres" where
  "udp_step dosel sk io u =
     (case ud_pc u of
        UpIdle \<Rightarrow> Inr (u, [])
      | UpStart \<Rightarrow> bindE (udp_start sk u) (\<lambda>u. Inr (u, []))
      | UpTop \<Rightarrow> Inr (udp_top u, [])
      | UpSelect bWriteSet buf len addr \<Rightarrow>
          bindE (dosel io (\<not> bWriteSet) bWriteSet buf len addr u) (\<lambda>(ret, err, u, evs). Inr (u\<lparr>ud_pc := UpAfter bWriteSet ret err\<rparr>, evs))
      | UpAfter bWriteSet ret err \<Rightarrow> udp_after bWriteSet ret err u
      | UpEnding \<Rightarrow> Inr (u\<lparr>ud_pc := UpIdle\<rparr>, []))"

definition UdpServer_RunLoop :: "bool \<Rightarrow> udp_io \<Rightarrow> UdpServer \<Rightarrow> (UdpServer \<times> sockaddr udp_event list) cres" where
  "UdpServer_RunLoop sk = udp_step (UdpServer_DoSelect sk) sk"

definition UdpClient_RunLoop :: "bool \<Rightarrow> udp_io \<Rightarrow> UdpClient \<Rightarrow> (UdpClient \<times> unit udp_event list) cres" where
  "UdpClient_RunLoop sk = udp_step (UdpClient_DoSelect (-1) sk) sk"

section \<open>Construction and destruction\<close>

text \<open>\<open>__InitSocket\<close> of the server: a failed \<open>bind\<close> is only logged.\<close>

definition UdpServer_InitSocket :: "int \<Rightarrow> int \<Rightarrow> UdpServer \<Rightarrow> UdpServer \<times> sockaddr udp_event list" where
  "UdpServer_InitSocket sock bnd u =
     (let u = u\<lparr>ud_socket := sock\<rparr>
      in if ud_socket u = INVALID_SOCKET then (u, []) else (u, [UOpen sock, UBind bnd]))"

definition UdpServer_new :: "int \<Rightarrow> int \<Rightarrow> int \<Rightarrow> bool \<Rightarrow> SocketSelectBreaker \<Rightarrow> UdpServer \<times> sockaddr udp_event list" where
  "UdpServer_new sock bnd ret event brk =
     (case UdpServer_InitSocket sock bnd
        \<lparr>ud_socket = INVALID_SOCKET, ud_event = event, ud_breaker = brk, ud_selector = SocketSelect_new True, ud_list_buffer = [], ud_pc = UpIdle\<rparr> of
        (u, evs) \<Rightarrow> (if ret = 0 then u\<lparr>ud_pc := UpStart\<rparr> else u, evs))"

text \<open>\<open>__InitSocket\<close> of the client: the option for broadcasts is set but a failure is only logged.\<close>

definition UdpClient_InitSocket ::
  "pton \<Rightarrow> ntop \<Rightarrow> int \<Rightarrow> string \<Rightarrow> 16 word \<Rightarrow> UdpClient \<Rightarrow> (UdpClient \<times> unit udp_event list) cres" where
  "UdpClient_InitSocket pton ntop sock ip port u =
     bindE (addr_of_ip pton ntop ip port) (\<lambda>a.
     let u = u\<lparr>uc_addr := a, ud_socket := sock\<rparr>
     in Inr (if ud_socket u = INVALID_SOCKET then (u, []) else (u, [UOpen sock])))"

definition UdpClient_new ::
  "pton \<Rightarrow> ntop \<Rightarrow> int \<Rightarrow> string \<Rightarrow> 16 word \<Rightarrow> bool \<Rightarrow> SocketSelectBreaker \<Rightarrow> (UdpClient \<times> unit udp_event list) cres" where
  "UdpClient_new pton ntop sock ip port event brk =
     UdpClient_InitSocket pton ntop sock ip port
       \<lparr>ud_socket = INVALID_SOCKET, ud_event = event, ud_breaker = brk, ud_selector = SocketSelect_new True, ud_list_buffer = [],
        ud_pc = UpIdle, uc_addr = SaUnspec\<rparr>"

text \<open>The destructors up to the \<open>join\<close>, and after it.\<close>

definition udp_stop :: "int \<Rightarrow> ('a, 'm) udp_scheme \<Rightarrow> ('a, 'm) udp_scheme" where
  "udp_stop wr u = (if ud_pc u \<noteq> UpIdle then u\<lparr>ud_event := False, ud_breaker := snd (Break wr (ud_breaker u))\<rparr> else u)"

definition udp_free :: "int \<Rightarrow> ('a, 'm) udp_scheme \<Rightarrow> ('a, 'm) udp_scheme \<times> 'a udp_event list" where
  "udp_free wr u =
     (u\<lparr>ud_breaker := snd (Break wr (ud_breaker u)), ud_list_buffer := []\<rparr>,
      if ud_socket u \<noteq> INVALID_SOCKET then [UClose (ud_socket u)] else [])"

text \<open>Calls of any thread and steps of the object's thread, in any order.\<close>

datatype server_op =
  SrvSend int int sockaddr "byte list"
| SrvSendIp int int int string "16 word" "byte list"
| SrvBroadcast int int int "16 word" "byte list"
| SrvStop int
| SrvRun udp_io

fun server_exec :: "pton \<Rightarrow> ntop \<Rightarrow> bool \<Rightarrow> (nat \<Rightarrow> bool) \<Rightarrow> server_op \<Rightarrow> UdpServer \<Rightarrow> (UdpServer \<times> sockaddr udp_event list) cres" where
  "server_exec pton ntop ae mem_ok (SrvSend ret wr addr buf) u = UdpServer_SendAsync False ae mem_ok ret wr addr buf u"
| "server_exec pton ntop ae mem_ok (SrvSendIp ret wr opt ip port buf) u = UdpServer_SendAsync_ip pton ntop False ae mem_ok ret wr opt ip port buf u"
| "server_exec pton ntop ae mem_ok (SrvBroadcast ret wr opt port buf) u = UdpServer_SendBroadcast pton ntop False ae mem_ok ret wr opt port buf u"
| "server_exec pton ntop ae mem_ok (SrvStop wr) u = Inr (udp_stop wr u, [])"
| "server_exec pton ntop ae mem_ok (SrvRun io) u = UdpServer_RunLoop False io u"

fun server_run :: "pton \<Rightarrow> ntop \<Rightarrow> bool \<Rightarrow> (nat \<Rightarrow> bool) \<Rightarrow> server_op list \<Rightarrow> UdpServer \<Rightarrow> (UdpServer \<times> sockaddr udp_event list) cres" where
  "server_run pton ntop ae mem_ok [] u = Inr (u, [])"
| "server_run pton ntop ae mem_ok (op # ops) u =
     bindE (server_exec pton ntop ae mem_ok op u) (\<lambda>(u, evs1).
     bindE (server_run pton ntop ae mem_ok ops u) (\<lambda>(u, evs2). Inr (u, evs1 @ evs2)))"

datatype udp_client_op =
  CliSend int int "byte list"
| CliSetIpPort string "16 word"
| CliStop int
| CliRun udp_io

fun udp_client_exec :: "pton \<Rightarrow> ntop \<Rightarrow> bool \<Rightarrow> (nat \<Rightarrow> bool) \<Rightarrow> udp_client_op \<Rightarrow> UdpClient \<Rightarrow> (UdpClient \<times> unit udp_event list) cres" where
  "udp_client_exec pton ntop ae mem_ok (CliSend ret wr buf) u = UdpClient_SendAsync False ae mem_ok ret wr buf u"
| "udp_client_exec pton ntop ae mem_ok (CliSetIpPort ip port) u = bindE (SetIpPort pton ntop ip port u) (\<lambda>u. Inr (u, []))"
| "udp_client_exec pton ntop ae mem_ok (CliStop wr) u = Inr (udp_stop wr u, [])"
| "udp_client_exec pton ntop ae mem_ok (CliRun io) u = UdpClient_RunLoop False io u"

fun udp_client_run :: "pton \<Rightarrow> ntop \<Rightarrow> bool \<Rightarrow> (nat \<Rightarrow> bool) \<Rightarrow> udp_client_op list \<Rightarrow> UdpClient \<Rightarrow> (UdpClient \<times> unit udp_event list) cres" where
  "udp_client_run pton ntop ae mem_ok [] u = Inr (u, [])"
| "udp_client_run pton ntop ae mem_ok (op # ops) u =
     bindE (udp_client_exec pton ntop ae mem_ok op u) (\<lambda>(u, evs1).
     bindE (udp_client_run pton ntop ae mem_ok ops u) (\<lambda>(u, evs2). Inr (u, evs1 @ evs2)))"

section \<open>Views of a trace\<close>

fun queued :: "'a udp_event list \<Rightarrow> ('a \<times> byte list) list" where
  "queued [] = []"
| "queued (Queued a bs # evs) = (a, bs) # queued evs"
| "queued (_ # evs) = queued evs"

fun sents :: "'a udp_event list \<Rightarrow> (sockaddr \<times> byte list) list" where
  "sents [] = []"
| "sents (SentTo d bs # evs) = (d, bs) # sents evs"
| "sents (_ # evs) = sents evs"

lemma queued_append [simp]: "queued (xs @ ys) = queued xs @ queued ys" by (induction xs rule: queued.induct) simp_all
lemma sents_append [simp]: "sents (xs @ ys) = sents xs @ sents ys" by (induction xs rule: sents.induct) simp_all

section \<open>What the system promises\<close>

text \<open>Both descriptors are valid and different.\<close>

definition udp_fds :: "('a, 'm) udp_scheme \<Rightarrow> bool" where
  "udp_fds u \<longleftrightarrow> 0 \<le> ud_socket u \<and> 0 \<le> BreakerFD (ud_breaker u) \<and> ud_socket u \<noteq> BreakerFD (ud_breaker u)"

text \<open>
  \<open>poll\<close> without a time limit does not time out and answers what is ready; a datagram socket that was not shut down does
  not hang up; \<open>sendto\<close> sends a datagram as a whole or not at all; \<open>recvfrom\<close> stores at most what it may.
\<close>

definition udp_io_ok :: "udp_io \<Rightarrow> int \<Rightarrow> bool" where
  "udp_io_ok io sock \<longleftrightarrow>
     (\<forall>v. case ui_poll io v (-1) of (ret, v', en) \<Rightarrow> 0 \<le> ret \<longrightarrow> ret \<noteq> 0 \<and> (\<exists>rdy. v' = poll_fds rdy v \<and> \<not> bit (rdy sock) 4))
     \<and> (\<forall>n. ui_sendto io n = -1 \<or> ui_sendto io n = int n)
     \<and> (\<forall>n. case ui_recvfrom io n of (r, data, from) \<Rightarrow> -1 \<le> r \<and> r \<le> int n \<and> length data = nat r)"

lemma c_int_id: "- 2147483648 \<le> x \<Longrightarrow> x < 2147483648 \<Longrightarrow> c_int x = x"
proof -
  assume x: "- 2147483648 \<le> x" "x < 2147483648"
  have "c_int x = signed_take_bit 31 x" unfolding c_int_def by (subst sint_sbintrunc') simp
  also have "\<dots> = x" using x by (intro signed_take_bit_int_eq_self) auto
  finally show "c_int x = x" .
qed

lemma length_block_read: "block_read arr off n = Inr bytes \<Longrightarrow> length bytes = n"
  by (auto simp: block_read_def get_at_def split: if_splits option.splits)

definition udp_frame :: "('a, 'm) udp_scheme \<Rightarrow> ('a, 'm) udp_scheme \<Rightarrow> bool" where
  "udp_frame u u' \<longleftrightarrow> (\<exists>b s. u' = u\<lparr>ud_breaker := b, ud_selector := s\<rparr> \<and> BreakerFD b = BreakerFD (ud_breaker u))"

text \<open>The selector of \<open>__DoSelect\<close> and what \<open>Select\<close> leaves of it.\<close>

definition udp_reqs :: "bool \<Rightarrow> int \<Rightarrow> fd_request list" where
  "udp_reqs w fd = [if w then ReqWrite fd else ReqRead fd, ReqException fd]"

lemma Clear_fd [simp]: "BreakerFD (snd (Clear rd b)) = BreakerFD b"
  by (simp add: Clear_def BreakerFD_def)

lemma Break_fd [simp]: "BreakerFD (snd (Break wr b)) = BreakerFD b"
  by (simp add: Break_def BreakerFD_def Let_def)

lemma Select_result:
  assumes "poll (ss_vfds (fold fd_set rs (PreSelect b s))) ms = (ret, v', en)"
  obtains b' s' where "Select poll rd ms b (fold fd_set rs (PreSelect b s)) = Inr (ret, b', s')"
    "ss_vfds s' = v'" "BreakerFD b' = BreakerFD b"
proof -
  have "ss_vfds (fold fd_set rs (PreSelect b s)) \<noteq> []" using fold_fd_set_nonempty[of "PreSelect b s" rs] by (simp add: PreSelect_def)
  then show ?thesis using assms that by (simp add: Select_def)
qed

lemma udp_events:
  assumes "fd \<noteq> BreakerFD b"
  shows "events_of fd (ss_vfds (fold fd_set (udp_reqs w fd) (PreSelect b s))) = Some ((if w then POLLOUT OR POLLERR else POLLIN OR POLLERR) OR POLLERR)"
  using assms
  by (cases w) (simp_all add: udp_reqs_def find_add_events Exception_FD_SET_def Write_FD_SET_def Read_FD_SET_def PreSelect_def
    breaker_item_def events_of_def BreakerFD_def)

text \<open>In a direction that was not asked for, the socket is not ready.\<close>

lemma udp_isset:
  assumes "ss_vfds s' = poll_fds rdy (ss_vfds (fold fd_set (udp_reqs w fd) (PreSelect b s)))" and "0 \<le> fd" and "fd \<noteq> BreakerFD b"
  shows "Write_FD_ISSET fd s' \<noteq> 0 \<longleftrightarrow> w \<and> bit (rdy fd) 2" "Read_FD_ISSET fd s' \<noteq> 0 \<longleftrightarrow> \<not> w \<and> bit (rdy fd) 0 \<or> bit (rdy fd) 4"
    "Exception_FD_ISSET fd s' \<noteq> 0 \<longleftrightarrow> bit (rdy fd) 3 \<or> bit (rdy fd) 5"
  unfolding Write_FD_ISSET_def Read_FD_ISSET_def Exception_FD_ISSET_def isset_poll[OF assms(1,2)] udp_events[OF assms(3)]
  by (auto simp: and_nonzero_iff bit_and_iff bit_or_iff)

section \<open>What the loop needs of \<open>__DoSelect\<close>\<close>

text \<open>
  \<open>dest a d\<close>: \<open>d\<close> is a right destination for a datagram queued with \<open>a\<close>. Asked to write, a call that does not fail sends
  exactly the datagram; asked to read, it sends nothing; a break is reported as such; a datagram goes out if
  the socket takes it.
\<close>

locale udp_class =
  fixes dosel :: "udp_io \<Rightarrow> bool \<Rightarrow> bool \<Rightarrow> byte list option \<Rightarrow> nat \<Rightarrow> 'a option \<Rightarrow> ('a, 'm) udp_scheme
      \<Rightarrow> (int \<times> int \<times> ('a, 'm) udp_scheme \<times> 'a udp_event list) cres"
    and dest :: "'a \<Rightarrow> sockaddr \<Rightarrow> bool"
  assumes write_law: "udp_fds u \<Longrightarrow> udp_io_ok io (ud_socket u) \<Longrightarrow> block_read buf 0 len = Inr bytes \<Longrightarrow> len < 2147483648 \<Longrightarrow>
      \<exists>ret err u' evs. dosel io False True buf len (Some a) u = Inr (ret, err, u', evs) \<and> udp_frame u u' \<and> queued evs = [] \<and> -2 \<le> ret
        \<and> (if 0 \<le> ret then \<exists>d. dest a d \<and> sents evs = [(d, bytes)] else sents evs = [])"
    and read_law: "udp_fds u \<Longrightarrow> udp_io_ok io (ud_socket u) \<Longrightarrow> len < 2147483648 \<Longrightarrow>
      \<exists>ret err u' evs. dosel io True False buf len None u = Inr (ret, err, u', evs) \<and> udp_frame u u' \<and> queued evs = [] \<and> sents evs = []"
    and break_law: "udp_fds u \<Longrightarrow> ui_poll io = poll_ready rdy \<Longrightarrow> rdy (BreakerFD (ud_breaker u)) = pipe_ready 1 \<Longrightarrow>
      \<exists>u'. dosel io (\<not> w) w buf len x u = Inr (-2, 0, u', []) \<and> udp_frame u u'"
    and accept_law: "udp_fds u \<Longrightarrow> ui_poll io = poll_ready rdy \<Longrightarrow> rdy (BreakerFD (ud_breaker u)) = pipe_ready 0 \<Longrightarrow> rdy (ud_socket u) = POLLOUT \<Longrightarrow>
      ui_sendto io len = int len \<Longrightarrow> block_read buf 0 len = Inr bytes \<Longrightarrow> len < 2147483648 \<Longrightarrow>
      \<exists>u' evs d. dosel io False True buf len (Some a) u = Inr (int len, 0, u', evs) \<and> udp_frame u u' \<and> dest a d \<and> sents evs = [(d, bytes)]"

text \<open>What is still to be sent, and the datagrams as (address, bytes).\<close>

definition udp_pending :: "('a, 'm) udp_scheme \<Rightarrow> (AutoBuffer \<times> 'a) list" where
  "udp_pending u = (case ud_pc u of UpAfter True ret err \<Rightarrow> if 0 \<le> ret then tl (ud_list_buffer u) else ud_list_buffer u | _ \<Rightarrow> ud_list_buffer u)"

definition grams :: "(AutoBuffer \<times> 'a) list \<Rightarrow> ('a \<times> byte list) list" where
  "grams = map (\<lambda>(b, a). (a, ab_contents b))"

definition delivered :: "('a \<Rightarrow> sockaddr \<Rightarrow> bool) \<Rightarrow> ('a \<times> byte list) list \<Rightarrow> (sockaddr \<times> byte list) list \<Rightarrow> bool" where
  "delivered dest = list_all2 (\<lambda>(a, bs) (d, bs'). dest a d \<and> bs = bs')"

definition udp_pc_ok :: "('a, 'm) udp_scheme \<Rightarrow> bool" where
  "udp_pc_ok u =
     (case ud_pc u of
        UpSelect True buf len addr \<Rightarrow> (\<exists>b a bs. ud_list_buffer u = (b, a) # bs \<and> buf = ab_parray b \<and> len = ab_Length b \<and> addr = Some a)
      | UpSelect False buf len addr \<Rightarrow> len < 2147483648 \<and> addr = None
      | UpAfter True ret err \<Rightarrow> ud_list_buffer u \<noteq> [] \<and> -2 \<le> ret
      | _ \<Rightarrow> True)"

definition gram_ok :: "AutoBuffer \<times> 'a \<Rightarrow> bool" where
  "gram_ok x \<longleftrightarrow> ab_inv (fst x) \<and> ab_length (fst x) < 2147483648"

definition udp_inv :: "('a \<Rightarrow> sockaddr \<Rightarrow> bool) \<Rightarrow> ('a, 'm) udp_scheme \<Rightarrow> 'a udp_event list \<Rightarrow> bool" where
  "udp_inv dest u tr \<longleftrightarrow> udp_fds u \<and> list_all gram_ok (ud_list_buffer u) \<and> udp_pc_ok u
     \<and> (\<exists>ds. queued tr = ds @ grams (udp_pending u) \<and> delivered dest ds (sents tr))"

lemma udp_frame_inv:
  assumes "udp_frame u u'" and "udp_fds u"
  shows "udp_fds u'" "ud_list_buffer u' = ud_list_buffer u" "ud_pc u' = ud_pc u" "ud_socket u' = ud_socket u" "ud_event u' = ud_event u"
    "BreakerFD (ud_breaker u') = BreakerFD (ud_breaker u)"
  using assms by (auto simp: udp_frame_def udp_fds_def)

lemma gram_read: "gram_ok (b, a) \<Longrightarrow> block_read (ab_parray b) 0 (ab_Length b) = Inr (ab_contents b) \<and> ab_Length b < 2147483648"
  using block_read_contents[of b 0 "ab_length b"] ab_inv_sizes(5)[of b] by (simp add: gram_ok_def ab_Length_def get_at_def)

lemma udp_push_inv:
  assumes "udp_inv dest u tr" and "fits mem_ok (length buf) (AutoBuffer_new 128)"
  shows "\<exists>u'. udp_push ae mem_ok ret wr a buf u = Inr (u', [Queued a buf]) \<and> udp_inv dest u' (tr @ [Queued a buf])"
proof -
  have new: "ab_inv (AutoBuffer_new 128)" "ab_contents (AutoBuffer_new 128) = []" "ab_pos (AutoBuffer_new 128) = 0"
    by (simp_all add: AutoBuffer_new_def ab_inv_def ab_contents_def)
  obtain b where b: "ab_Write ae mem_ok (Some buf) (length buf) (AutoBuffer_new 128) = Inr b" "ab_inv b" "ab_contents b = buf"
    by (rule Write_ok[OF new(1), of mem_ok buf ae]) (use assms(2) new in \<open>auto simp: put_at_def\<close>)
  have "gram_ok (b, a)" using b(2,3) ab_inv_sizes(5)[OF b(2)] assms(2) by (simp add: gram_ok_def fits_def)
  with b assms(1) show ?thesis
    by (auto simp: udp_push_def Let_def udp_inv_def udp_fds_def udp_pc_ok_def udp_pending_def grams_def split: udp_pc.splits bool.splits)
qed

lemma udp_stop_inv: "udp_inv dest u tr \<Longrightarrow> udp_inv dest (udp_stop wr u) tr"
  by (cases "ud_pc u") (auto simp: udp_stop_def udp_inv_def udp_fds_def udp_pc_ok_def udp_pending_def split: bool.splits)

text \<open>Several steps of the thread with the same answers of the system.\<close>

fun udp_steps ::
  "(udp_io \<Rightarrow> bool \<Rightarrow> bool \<Rightarrow> byte list option \<Rightarrow> nat \<Rightarrow> 'a option \<Rightarrow> ('a, 'm) udp_scheme \<Rightarrow> (int \<times> int \<times> ('a, 'm) udp_scheme \<times> 'a udp_event list) cres)
    \<Rightarrow> bool \<Rightarrow> udp_io \<Rightarrow> nat \<Rightarrow> ('a, 'm) udp_scheme \<Rightarrow> (('a, 'm) udp_scheme \<times> 'a udp_event list) cres" where
  "udp_steps dosel sk io 0 u = Inr (u, [])"
| "udp_steps dosel sk io (Suc n) u =
     bindE (udp_step dosel sk io u) (\<lambda>(u, evs1). bindE (udp_steps dosel sk io n u) (\<lambda>(u, evs2). Inr (u, evs1 @ evs2)))"

lemma udp_steps_add:
  "udp_steps dosel sk io (m + n) u = bindE (udp_steps dosel sk io m u) (\<lambda>(u, evs1). bindE (udp_steps dosel sk io n u) (\<lambda>(u, evs2). Inr (u, evs1 @ evs2)))"
proof (induction m arbitrary: u)
  case 0
  show ?case by (cases "udp_steps dosel sk io n u") auto
next
  case (Suc m)
  then show ?case by (cases "udp_step dosel sk io u") (auto simp: bindE_def split: sum.splits prod.splits)
qed

text \<open>The socket can be written to and takes every datagram; the pipe of the breaker is empty.\<close>

definition takes :: "udp_io \<Rightarrow> ('a, 'm) udp_scheme \<Rightarrow> bool" where
  "takes io u \<longleftrightarrow> (\<exists>rdy. ui_poll io = poll_ready rdy \<and> rdy (BreakerFD (ud_breaker u)) = pipe_ready 0 \<and> rdy (ud_socket u) = POLLOUT
     \<and> (\<forall>n. ui_sendto io n = int n))"

lemma udp_steps_first: "udp_step dosel sk io u = Inr (u1, []) \<Longrightarrow> udp_steps dosel sk io (Suc n) u = udp_steps dosel sk io n u1"
  by (cases "udp_steps dosel sk io n u1") auto

context udp_class
begin

lemma select_inv:
  assumes "udp_inv dest u tr" and "udp_io_ok io (ud_socket u)" and "ud_pc u = UpSelect w buf len addr"
  shows "\<exists>u' evs. udp_step dosel sk io u = Inr (u', evs) \<and> udp_inv dest u' (tr @ evs)"
proof -
  have fds: "udp_fds u" and ok: "list_all gram_ok (ud_list_buffer u)" and pc: "udp_pc_ok u" using assms(1) by (simp_all add: udp_inv_def)
  obtain ds where ds: "queued tr = ds @ grams (udp_pending u)" "delivered dest ds (sents tr)" using assms(1) by (auto simp: udp_inv_def)
  show ?thesis
  proof (cases w)
    case True
    obtain b a bs where q: "ud_list_buffer u = (b, a) # bs" "buf = ab_parray b" "len = ab_Length b" "addr = Some a"
      using pc assms(3) True by (auto simp: udp_pc_ok_def)
    note rd = gram_read[of b a]
    obtain ret err u' evs where d: "dosel io False True buf len addr u = Inr (ret, err, u', evs)" "udp_frame u u'" "queued evs = []" "-2 \<le> ret"
      "if 0 \<le> ret then \<exists>d. dest a d \<and> sents evs = [(d, ab_contents b)] else sents evs = []"
      using write_law[OF fds assms(2), of buf len "ab_contents b" a] rd ok q by auto
    note f = udp_frame_inv[OF d(2) fds]
    have "udp_inv dest (u'\<lparr>ud_pc := UpAfter True ret err\<rparr>) (tr @ evs)"
    proof (cases "0 \<le> ret")
      case r: True
      then obtain d where "dest a d" "sents evs = [(d, ab_contents b)]" using d(5) by auto
      then show ?thesis using r f ok ds q True assms(3) d(3)
        by (auto simp: udp_inv_def udp_pc_ok_def udp_pending_def udp_fds_def grams_def delivered_def intro!: exI[of _ "ds @ [(a, ab_contents b)]"] list_all2_appendI)
    next
      case r: False
      then show ?thesis using d f ok ds q True assms(3) by (auto simp: udp_inv_def udp_pc_ok_def udp_pending_def udp_fds_def)
    qed
    then show ?thesis using d(1) assms(3) True by (simp add: udp_step_def)
  next
    case False
    then have l: "len < 2147483648" "addr = None" using pc assms(3) by (simp_all add: udp_pc_ok_def)
    obtain ret err u' evs where d: "dosel io True False buf len addr u = Inr (ret, err, u', evs)" "udp_frame u u'" "queued evs = []" "sents evs = []"
      using read_law[OF fds assms(2) l(1), of buf] l(2) by auto
    note f = udp_frame_inv[OF d(2) fds]
    have "udp_inv dest (u'\<lparr>ud_pc := UpAfter False ret err\<rparr>) (tr @ evs)"
      using d f ok ds False assms(3) by (auto simp: udp_inv_def udp_pc_ok_def udp_pending_def udp_fds_def)
    then show ?thesis using d(1) assms(3) False by (simp add: udp_step_def)
  qed
qed

lemma after_inv:
  assumes "udp_inv dest u tr" and "ud_pc u = UpAfter w ret err"
  shows "\<exists>u' evs. udp_after w ret err u = Inr (u', evs) \<and> udp_inv dest u' (tr @ evs)"
  using assms by (cases w; cases "ud_list_buffer u")
    (auto simp: udp_after_def udp_inv_def udp_pc_ok_def udp_pending_def udp_fds_def split: if_splits)

lemma top_inv: "udp_inv dest u tr \<Longrightarrow> ud_pc u = UpTop \<Longrightarrow> udp_inv dest (udp_top u) tr"
  by (auto simp: udp_top_def udp_inv_def udp_pc_ok_def udp_pending_def udp_fds_def MAX_DATAGRAM_def split: list.splits)

text \<open>Every step of the thread succeeds and keeps the invariant.\<close>

lemma step_inv:
  assumes "udp_inv dest u tr" and "udp_io_ok io (ud_socket u)"
  shows "\<exists>u' evs. udp_step dosel sk io u = Inr (u', evs) \<and> udp_inv dest u' (tr @ evs)"
proof (cases "ud_pc u")
  case (UpSelect w buf len addr)
  then show ?thesis using select_inv[OF assms] by blast
next
  case (UpAfter w ret err)
  then show ?thesis using after_inv[OF assms(1)] by (simp add: udp_step_def)
next
  case UpTop
  then show ?thesis using top_inv[OF assms(1)] by (simp add: udp_step_def)
qed (use assms in \<open>auto simp: udp_step_def udp_start_def udp_inv_def udp_pc_ok_def udp_pending_def udp_fds_def\<close>)
text \<open>
  A thread that was told to stop is idle after five steps, counted from any position, if \<open>poll\<close> sees the break; it calls nobody
  back.
\<close>

lemma after_stopped:
  assumes "udp_inv dest u tr" and "\<not> ud_event u" and "ud_pc u = UpAfter w ret err"
  shows "\<exists>u'. udp_after w ret err u = Inr (u', []) \<and> udp_fds u' \<and> \<not> ud_event u' \<and> (ud_pc u' = UpEnding \<or> ud_pc u' = UpTop) \<and> ud_breaker u' = ud_breaker u"
  using assms by (cases w; cases "ud_list_buffer u") (auto simp: udp_after_def udp_inv_def udp_pc_ok_def udp_fds_def)

lemma stop_from_select:
  assumes "udp_fds u" and "\<not> ud_event u" and "ui_poll io = poll_ready rdy" and "rdy (BreakerFD (ud_breaker u)) = pipe_ready 1" and "ud_pc u = UpSelect w buf len addr"
  shows "\<exists>u'. udp_steps dosel sk io 3 u = Inr (u', []) \<and> ud_pc u' = UpIdle"
proof -
  obtain u' where d: "dosel io (\<not> w) w buf len addr u = Inr (-2, 0, u', [])" "udp_frame u u'" using break_law[OF assms(1,3,4)] by blast
  then show ?thesis using assms(2,5) udp_frame_inv(5)[OF d(2) assms(1)] by (simp add: numeral_eq_Suc udp_step_def udp_after_def)
qed

lemma stop_from_top:
  assumes "udp_fds u" and "\<not> ud_event u" and "ui_poll io = poll_ready rdy" and "rdy (BreakerFD (ud_breaker u)) = pipe_ready 1" and "ud_pc u = UpTop"
  shows "\<exists>u'. udp_steps dosel sk io 4 u = Inr (u', []) \<and> ud_pc u' = UpIdle"
proof -
  obtain w buf len addr where "ud_pc (udp_top u) = UpSelect w buf len addr" by (cases "ud_list_buffer u") (auto simp: udp_top_def)
  note sel = stop_from_select[OF _ _ assms(3) _ this, of sk]
  have "udp_fds (udp_top u)" "ud_event (udp_top u) = ud_event u" "ud_breaker (udp_top u) = ud_breaker u"
    using assms(1) by (simp_all add: udp_fds_def udp_top_def)
  moreover have "udp_steps dosel sk io (Suc 3) u = udp_steps dosel sk io 3 (udp_top u)" using assms(5) by (intro udp_steps_first) (simp add: udp_step_def)
  ultimately show ?thesis using sel assms(2,4) by simp
qed

lemma idle_stays: "ud_pc u = UpIdle \<Longrightarrow> udp_steps dosel sk io n u = Inr (u, [])"
  by (induction n) (simp_all add: udp_step_def)

lemma stop_ends:
  assumes "udp_inv dest u tr" and "\<not> ud_event u" and "ui_poll io = poll_ready rdy" and "rdy (BreakerFD (ud_breaker u)) = pipe_ready 1"
  shows "\<exists>u'. udp_steps dosel sk io 5 u = Inr (u', []) \<and> ud_pc u' = UpIdle"
proof -
  have fds: "udp_fds u" using assms(1) by (simp add: udp_inv_def)
  note top = stop_from_top[OF _ _ assms(3), of _ sk]
  have first: "udp_steps dosel sk io 5 u = udp_steps dosel sk io 4 u1" if "udp_step dosel sk io u = Inr (u1, [])" for u1
    using udp_steps_first[OF that, of 4] by (simp del: udp_steps.simps)
  show ?thesis
  proof (cases "ud_pc u")
    case UpStart
    then have "udp_step dosel sk io u = Inr (u\<lparr>ud_pc := UpTop\<rparr>, [])" using fds by (simp add: udp_step_def udp_start_def udp_fds_def)
    then show ?thesis using first top[of "u\<lparr>ud_pc := UpTop\<rparr>"] assms(2,4) fds by (simp add: udp_fds_def)
  next
    case UpTop
    then show ?thesis using top[OF fds assms(2,4)] idle_stays[of _ sk io 1] udp_steps_add[of dosel sk io 4 1 u] by auto
  next
    case (UpSelect w buf len addr)
    then show ?thesis using stop_from_select[OF fds assms(2-4), of w buf len addr sk] idle_stays[of _ sk io 2] udp_steps_add[of dosel sk io 3 2 u] by auto
  next
    case (UpAfter w ret err)
    then obtain u' where u': "udp_after w ret err u = Inr (u', [])" "udp_fds u'" "\<not> ud_event u'" "ud_pc u' = UpEnding \<or> ud_pc u' = UpTop"
      "ud_breaker u' = ud_breaker u" using after_stopped[OF assms(1,2)] by blast
    have "udp_steps dosel sk io 5 u = udp_steps dosel sk io 4 u'" using u'(1) UpAfter by (intro first) (simp add: udp_step_def)
    moreover have "udp_steps dosel sk io 4 u' = Inr (u'\<lparr>ud_pc := UpIdle\<rparr>, [])" if "ud_pc u' = UpEnding"
      using udp_steps_first[of dosel sk io u' "u'\<lparr>ud_pc := UpIdle\<rparr>" 3] idle_stays[of "u'\<lparr>ud_pc := UpIdle\<rparr>" sk io 3] that
      by (simp add: udp_step_def del: udp_steps.simps)
    ultimately show ?thesis using top[OF u'(2,3)] u'(4,5) assms(4) by auto
  next
    case UpEnding
    then have "udp_step dosel sk io u = Inr (u\<lparr>ud_pc := UpIdle\<rparr>, [])" by (simp add: udp_step_def)
    then show ?thesis using first idle_stays[of "u\<lparr>ud_pc := UpIdle\<rparr>" sk io 4] by simp
  qed (use idle_stays in blast)
qed

text \<open>If the socket takes datagrams and nobody breaks the thread, it sends one in three steps.\<close>

lemma drain_one:
  assumes "udp_fds u" and "gram_ok (b, a)" and "ud_list_buffer u = (b, a) # xs" and "ud_pc u = UpTop" and "takes io u"
  shows "\<exists>u' evs d. udp_steps dosel sk io 3 u = Inr (u', evs) \<and> udp_fds u' \<and> ud_pc u' = UpTop \<and> ud_list_buffer u' = xs \<and> takes io u'
    \<and> dest a d \<and> sents evs = [(d, ab_contents b)]"
proof -
  let ?u = "u\<lparr>ud_pc := UpSelect True (ab_parray b) (ab_Length b) (Some a)\<rparr>"
  have fds: "udp_fds ?u" using assms(1) by (simp add: udp_fds_def)
  obtain rdy where r: "ui_poll io = poll_ready rdy" "rdy (BreakerFD (ud_breaker u)) = pipe_ready 0" "rdy (ud_socket u) = POLLOUT" "\<forall>n. ui_sendto io n = int n"
    using assms(5) by (auto simp: takes_def)
  obtain u1 evs d where d: "dosel io False True (ab_parray b) (ab_Length b) (Some a) ?u = Inr (int (ab_Length b), 0, u1, evs)" "udp_frame ?u u1"
    "dest a d" "sents evs = [(d, ab_contents b)]"
    using accept_law[OF fds r(1), of "ab_Length b" "ab_parray b" "ab_contents b" a] r gram_read[OF assms(2)] by auto
  note f = udp_frame_inv[OF d(2) fds]
  have step: "udp_step dosel sk io u = Inr (?u, [])" using assms(3,4) by (simp add: udp_step_def udp_top_def)
  let ?u' = "u1\<lparr>ud_list_buffer := xs, ud_pc := UpTop\<rparr>"
  have "udp_steps dosel sk io 2 ?u = Inr (?u', evs)"
    using d(1) f(2) assms(3) by (simp add: numeral_2_eq_2 udp_step_def udp_after_def)
  then have "udp_steps dosel sk io 3 u = Inr (?u', evs)" using udp_steps_first[OF step, of 2] by (simp del: udp_steps.simps)
  moreover have "takes io ?u'" using f(4,6) r by (auto simp: takes_def)
  ultimately show ?thesis using d(3,4) f(1) by (auto simp: udp_fds_def)
qed

lemma queue_drains:
  assumes "udp_fds u" and "list_all gram_ok (ud_list_buffer u)" and "ud_pc u = UpTop" and "takes io u"
  shows "\<exists>u' evs. udp_steps dosel sk io (3 * length (ud_list_buffer u)) u = Inr (u', evs) \<and> ud_list_buffer u' = []
    \<and> delivered dest (grams (ud_list_buffer u)) (sents evs)"
  using assms
proof (induction "ud_list_buffer u" arbitrary: u)
  case Nil
  then show ?case by (simp add: grams_def delivered_def)
next
  case (Cons x xs)
  obtain b a where x: "x = (b, a)" by force
  obtain u1 evs1 d where 1: "udp_steps dosel sk io 3 u = Inr (u1, evs1)" "udp_fds u1" "ud_pc u1 = UpTop" "ud_list_buffer u1 = xs" "takes io u1"
    "dest a d" "sents evs1 = [(d, ab_contents b)]"
    using drain_one[of u b a xs io sk] Cons.prems Cons.hyps(2)[symmetric] x by auto
  obtain u2 evs2 where 2: "udp_steps dosel sk io (3 * length xs) u1 = Inr (u2, evs2)" "ud_list_buffer u2 = []" "delivered dest (grams xs) (sents evs2)"
    using Cons.hyps(1)[of u1] 1 Cons.prems(2) Cons.hyps(2)[symmetric] by auto
  have "udp_steps dosel sk io (3 + 3 * length xs) u = Inr (u2, evs1 @ evs2)" unfolding udp_steps_add using 1(1) 2(1) by simp
  then show ?case using 1 2 Cons.hyps(2)[symmetric] x by (auto simp: grams_def delivered_def)
qed

end

text \<open>Both calls of \<open>Select\<close> in terms of requests.\<close>

lemma udp_select:
  assumes "udp_fds u" and "ui_poll io (ss_vfds (fold fd_set (udp_reqs w (ud_socket u)) (PreSelect (ud_breaker u) (ud_selector u)))) (-1) = (ret, v', en)"
  obtains b s where
    "Select_forever (ui_poll io) (ui_rd io) (ud_breaker u)
       (Exception_FD_SET (ud_socket u) (if w then Write_FD_SET (ud_socket u) (PreSelect (ud_breaker u) (ud_selector u))
         else Read_FD_SET (ud_socket u) (PreSelect (ud_breaker u) (ud_selector u)))) = Inr (ret, b, s)"
    "ss_vfds s = v'" "BreakerFD b = BreakerFD (ud_breaker u)" "udp_frame u (u\<lparr>ud_breaker := b, ud_selector := s\<rparr>)"
proof -
  obtain b s where *: "Select (ui_poll io) (ui_rd io) (-1) (ud_breaker u) (fold fd_set (udp_reqs w (ud_socket u)) (PreSelect (ud_breaker u) (ud_selector u)))
      = Inr (ret, b, s)" "ss_vfds s = v'" "BreakerFD b = BreakerFD (ud_breaker u)"
    by (rule Select_result[of "ui_poll io" "udp_reqs w (ud_socket u)" "ud_breaker u" "ud_selector u" "-1" ret v' en "ui_rd io"]) (use assms in auto)
  show ?thesis
    by (rule that[of b s]) (use * in \<open>auto simp: Select_forever_def udp_reqs_def udp_frame_def split: if_splits\<close>)
qed

abbreviation udp_sel :: "bool \<Rightarrow> ('a, 'm) udp_scheme \<Rightarrow> SocketSelect" where
  "udp_sel w u \<equiv> Exception_FD_SET (ud_socket u) (if w then Write_FD_SET (ud_socket u) (PreSelect (ud_breaker u) (ud_selector u))
         else Read_FD_SET (ud_socket u) (PreSelect (ud_breaker u) (ud_selector u)))"

lemma udp_select_ok:
  assumes "udp_fds u" and "udp_io_ok io (ud_socket u)"
  obtains ret b s where "Select_forever (ui_poll io) (ui_rd io) (ud_breaker u) (udp_sel w u) = Inr (ret, b, s)"
    "udp_frame u (u\<lparr>ud_breaker := b, ud_selector := s\<rparr>)" "ret \<noteq> 0"
    "0 \<le> ret \<Longrightarrow> Write_FD_ISSET (ud_socket u) s \<noteq> 0 \<Longrightarrow> w" "0 \<le> ret \<Longrightarrow> Read_FD_ISSET (ud_socket u) s \<noteq> 0 \<Longrightarrow> \<not> w"
proof -
  let ?v = "ss_vfds (fold fd_set (udp_reqs w (ud_socket u)) (PreSelect (ud_breaker u) (ud_selector u)))"
  obtain ret v' en where p: "ui_poll io ?v (-1) = (ret, v', en)" using prod_cases3 by blast
  obtain b s where s: "Select_forever (ui_poll io) (ui_rd io) (ud_breaker u) (udp_sel w u) = Inr (ret, b, s)"
    "ss_vfds s = v'" "udp_frame u (u\<lparr>ud_breaker := b, ud_selector := s\<rparr>)"
    using udp_select[OF assms(1) p] by blast
  have ready: "0 \<le> ret \<longrightarrow> ret \<noteq> 0 \<and> (\<exists>rdy. v' = poll_fds rdy ?v \<and> \<not> bit (rdy (ud_socket u)) 4)"
    using conjunct1[OF assms(2)[unfolded udp_io_ok_def], rule_format, of ?v] p by simp
  have bits: "(Write_FD_ISSET (ud_socket u) s \<noteq> 0 \<longrightarrow> w) \<and> (Read_FD_ISSET (ud_socket u) s \<noteq> 0 \<longrightarrow> \<not> w)" if r: "0 \<le> ret"
  proof -
    obtain rdy where "v' = poll_fds rdy ?v" "\<not> bit (rdy (ud_socket u)) 4" using ready r by blast
    then show ?thesis using udp_isset[of s rdy w "ud_socket u" "ud_breaker u" "ud_selector u"] s(2) assms(1) by (auto simp: udp_fds_def)
  qed
  show ?thesis by (rule that[OF s(1,3)]) (use ready bits in auto)
qed

lemma udp_select_ready:
  assumes "udp_fds u" and "ui_poll io = poll_ready rdy"
  obtains ret b s where "Select_forever (ui_poll io) (ui_rd io) (ud_breaker u) (udp_sel w u) = Inr (ret, b, s)"
    "udp_frame u (u\<lparr>ud_breaker := b, ud_selector := s\<rparr>)" "0 \<le> ret"
    "IsBreak b s \<or> Write_FD_ISSET (ud_socket u) s \<noteq> 0 \<Longrightarrow> ret \<noteq> 0"
    "IsBreak b s \<longleftrightarrow> bit (rdy (BreakerFD (ud_breaker u))) 0"
    "IsException b s \<longleftrightarrow> bit (rdy (BreakerFD (ud_breaker u))) 3 \<or> bit (rdy (BreakerFD (ud_breaker u))) 5"
    "Write_FD_ISSET (ud_socket u) s \<noteq> 0 \<longleftrightarrow> w \<and> bit (rdy (ud_socket u)) 2"
    "Exception_FD_ISSET (ud_socket u) s \<noteq> 0 \<longleftrightarrow> bit (rdy (ud_socket u)) 3 \<or> bit (rdy (ud_socket u)) 5"
proof -
  let ?v = "ss_vfds (fold fd_set (udp_reqs w (ud_socket u)) (PreSelect (ud_breaker u) (ud_selector u)))"
  let ?n = "int (length (filter (\<lambda>x. prevents x \<noteq> 0) (poll_fds rdy ?v)))"
  have p: "ui_poll io ?v (-1) = (?n, poll_fds rdy ?v, 0)" using assms(2) by (simp add: poll_ready_def)
  obtain b s where s: "Select_forever (ui_poll io) (ui_rd io) (ud_breaker u) (udp_sel w u) = Inr (?n, b, s)"
    "ss_vfds s = poll_fds rdy ?v" "BreakerFD b = BreakerFD (ud_breaker u)" "udp_frame u (u\<lparr>ud_breaker := b, ud_selector := s\<rparr>)"
    using udp_select[OF assms(1) p] by blast
  have pos: "?n \<noteq> 0" if "isset m fd s \<noteq> 0" for m fd
    using isset_quiet[of s m fd] that unfolding s(2) by (auto simp: filter_empty_conv)
  have ev: "events_of (BreakerFD b) ?v = Some (POLLIN OR POLLPRI OR POLLERR)"
    using assms(1) s(3) by (cases w) (simp_all add: udp_fds_def udp_reqs_def find_add_events Exception_FD_SET_def Write_FD_SET_def Read_FD_SET_def
      PreSelect_def breaker_item_def events_of_def)
  have f: "0 \<le> BreakerFD b" "0 \<le> ud_socket u" "ud_socket u \<noteq> BreakerFD (ud_breaker u)" using assms(1) s(3) by (simp_all add: udp_fds_def)
  have brk: "IsBreak b s \<longleftrightarrow> bit (rdy (BreakerFD (ud_breaker u))) 0"
    "IsException b s \<longleftrightarrow> bit (rdy (BreakerFD (ud_breaker u))) 3 \<or> bit (rdy (BreakerFD (ud_breaker u))) 5"
    unfolding IsBreak_def IsException_def Exception_FD_ISSET_def isset_poll[OF s(2) f(1)] ev s(3)[symmetric]
    by (auto simp: and_nonzero_iff bit_and_iff bit_or_iff)
  have n: "IsBreak b s \<or> Write_FD_ISSET (ud_socket u) s \<noteq> 0 \<Longrightarrow> ?n \<noteq> 0" "0 \<le> ?n"
    unfolding IsBreak_def Write_FD_ISSET_def by (use pos in auto)
  note sock = udp_isset[OF s(2) f(2,3)]
  show ?thesis by (rule that[OF s(1,4) n(2,1) brk sock(1,3)])
qed

lemma sendto_result:
  assumes "udp_io_ok io sock" and "block_read buf 0 len = Inr bytes" and "len < 2147483648"
  shows "c_int (ui_sendto io len) = -1 \<or> c_int (ui_sendto io len) = int len \<and> take (nat (int len)) bytes = bytes"
proof -
  have "ui_sendto io len = -1 \<or> ui_sendto io len = int len" using assms(1) unfolding udp_io_ok_def by blast
  then show ?thesis using c_int_id[of "ui_sendto io len"] length_block_read[OF assms(2)] assms(3) by auto
qed

lemma server_write:
  assumes "udp_fds u" and "udp_io_ok io (ud_socket u)" and "block_read buf 0 len = Inr bytes" and "len < 2147483648"
  shows "\<exists>ret err u' evs. UdpServer_DoSelect sk io False True buf len (Some a) u = Inr (ret, err, u', evs) \<and> udp_frame u u'
      \<and> queued evs = [] \<and> -2 \<le> ret \<and> (if 0 \<le> ret then \<exists>d. a = d \<and> sents evs = [(d, bytes)] else sents evs = [])"
proof -
  obtain ret b s where s: "Select_forever (ui_poll io) (ui_rd io) (ud_breaker u) (udp_sel True u) = Inr (ret, b, s)"
    "udp_frame u (u\<lparr>ud_breaker := b, ud_selector := s\<rparr>)" "0 \<le> ret \<Longrightarrow> Read_FD_ISSET (ud_socket u) s \<noteq> 0 \<Longrightarrow> \<not> True"
    by (rule udp_select_ok[OF assms(1,2), of True]) blast
  then show ?thesis using sendto_result[OF assms(2-4)] assms(3) unfolding UdpServer_DoSelect_def by (auto simp: Let_def)
qed

lemma client_write:
  assumes "udp_fds u" and "udp_io_ok io (ud_socket u)" and "block_read buf 0 len = Inr bytes" and "len < 2147483648"
  shows "\<exists>ret err u' evs. UdpClient_DoSelect (-1) sk io False True buf len (Some a) u = Inr (ret, err, u', evs) \<and> udp_frame u u'
      \<and> queued evs = [] \<and> -2 \<le> ret \<and> (if 0 \<le> ret then \<exists>d. True \<and> sents evs = [(d, bytes)] else sents evs = [])"
proof -
  obtain ret b s where s: "Select_forever (ui_poll io) (ui_rd io) (ud_breaker u) (udp_sel True u) = Inr (ret, b, s)"
    "udp_frame u (u\<lparr>ud_breaker := b, ud_selector := s\<rparr>)" "ret \<noteq> 0" "0 \<le> ret \<Longrightarrow> Read_FD_ISSET (ud_socket u) s \<noteq> 0 \<Longrightarrow> \<not> True"
    by (rule udp_select_ok[OF assms(1,2), of True]) blast
  then show ?thesis using sendto_result[OF assms(2-4)] assms(3) unfolding UdpClient_DoSelect_def by (auto simp: Let_def)
qed

lemma server_read:
  assumes "udp_fds u" and "udp_io_ok io (ud_socket u)" and "len < 2147483648"
  shows "\<exists>ret err u' evs. UdpServer_DoSelect sk io True False buf len None u = Inr (ret, err, u', evs) \<and> udp_frame u u' \<and> queued evs = [] \<and> sents evs = []"
proof -
  obtain ret b s where s: "Select_forever (ui_poll io) (ui_rd io) (ud_breaker u) (udp_sel False u) = Inr (ret, b, s)"
    "udp_frame u (u\<lparr>ud_breaker := b, ud_selector := s\<rparr>)" "ret \<noteq> 0" "0 \<le> ret \<Longrightarrow> Write_FD_ISSET (ud_socket u) s \<noteq> 0 \<Longrightarrow> False"
    by (rule udp_select_ok[OF assms(1,2), of False]) blast
  then show ?thesis unfolding UdpServer_DoSelect_def by (auto simp: Let_def split: prod.splits)
qed

lemma server_break:
  assumes "udp_fds u" and "ui_poll io = poll_ready rdy" and "rdy (BreakerFD (ud_breaker u)) = pipe_ready 1"
  shows "\<exists>u'. UdpServer_DoSelect sk io (\<not> w) w buf len x u = Inr (-2, 0, u', []) \<and> udp_frame u u'"
proof -
  obtain ret b s where s: "Select_forever (ui_poll io) (ui_rd io) (ud_breaker u) (udp_sel w u) = Inr (ret, b, s)"
    "udp_frame u (u\<lparr>ud_breaker := b, ud_selector := s\<rparr>)" "0 \<le> ret" "ret \<noteq> 0" "IsBreak b s" "\<not> IsException b s"
    by (rule udp_select_ready[OF assms(1,2), of w]) (use assms(3) in \<open>auto simp: pipe_ready_def\<close>)
  then show ?thesis unfolding UdpServer_DoSelect_def by (cases w) (auto simp: Let_def)
qed

lemma server_accept:
  assumes "udp_fds u" and "ui_poll io = poll_ready rdy" and "rdy (BreakerFD (ud_breaker u)) = pipe_ready 0" and "rdy (ud_socket u) = POLLOUT"
    and "ui_sendto io len = int len" and "block_read buf 0 len = Inr bytes" and "len < 2147483648"
  shows "\<exists>u' evs d. UdpServer_DoSelect sk io False True buf len (Some a) u = Inr (int len, 0, u', evs) \<and> udp_frame u u' \<and> a = d \<and> sents evs = [(d, bytes)]"
proof -
  obtain ret b s where s: "Select_forever (ui_poll io) (ui_rd io) (ud_breaker u) (udp_sel True u) = Inr (ret, b, s)"
    "udp_frame u (u\<lparr>ud_breaker := b, ud_selector := s\<rparr>)" "0 \<le> ret" "ret \<noteq> 0" "\<not> IsBreak b s" "\<not> IsException b s"
    "Write_FD_ISSET (ud_socket u) s \<noteq> 0" "Exception_FD_ISSET (ud_socket u) s = 0"
    by (rule udp_select_ready[OF assms(1,2), of True]) (use assms(3,4) in \<open>auto simp: pipe_ready_def\<close>)
  then show ?thesis using assms(5,6) length_block_read[OF assms(6)] c_int_id[of "int len"] assms(7) unfolding UdpServer_DoSelect_def by (auto simp: Let_def)
qed

lemma client_read:
  assumes "udp_fds u" and "udp_io_ok io (ud_socket u)" and "len < 2147483648"
  shows "\<exists>ret err u' evs. UdpClient_DoSelect (-1) sk io True False buf len None u = Inr (ret, err, u', evs) \<and> udp_frame u u' \<and> queued evs = [] \<and> sents evs = []"
proof -
  obtain ret b s where s: "Select_forever (ui_poll io) (ui_rd io) (ud_breaker u) (udp_sel False u) = Inr (ret, b, s)"
    "udp_frame u (u\<lparr>ud_breaker := b, ud_selector := s\<rparr>)" "ret \<noteq> 0" "0 \<le> ret \<Longrightarrow> Write_FD_ISSET (ud_socket u) s \<noteq> 0 \<Longrightarrow> False"
    by (rule udp_select_ok[OF assms(1,2), of False]) blast
  then show ?thesis unfolding UdpClient_DoSelect_def by (auto simp: Let_def split: prod.splits)
qed

lemma client_break:
  assumes "udp_fds u" and "ui_poll io = poll_ready rdy" and "rdy (BreakerFD (ud_breaker u)) = pipe_ready 1"
  shows "\<exists>u'. UdpClient_DoSelect (-1) sk io (\<not> w) w buf len x u = Inr (-2, 0, u', []) \<and> udp_frame u u'"
proof -
  obtain ret b s where s: "Select_forever (ui_poll io) (ui_rd io) (ud_breaker u) (udp_sel w u) = Inr (ret, b, s)"
    "udp_frame u (u\<lparr>ud_breaker := b, ud_selector := s\<rparr>)" "0 \<le> ret" "ret \<noteq> 0" "IsBreak b s" "\<not> IsException b s"
    by (rule udp_select_ready[OF assms(1,2), of w]) (use assms(3) in \<open>auto simp: pipe_ready_def\<close>)
  then show ?thesis unfolding UdpClient_DoSelect_def by (cases w) (auto simp: Let_def)
qed

lemma client_accept:
  assumes "udp_fds u" and "ui_poll io = poll_ready rdy" and "rdy (BreakerFD (ud_breaker u)) = pipe_ready 0" and "rdy (ud_socket u) = POLLOUT"
    and "ui_sendto io len = int len" and "block_read buf 0 len = Inr bytes" and "len < 2147483648"
  shows "\<exists>u' evs d. UdpClient_DoSelect (-1) sk io False True buf len (Some a) u = Inr (int len, 0, u', evs) \<and> udp_frame u u' \<and> True \<and> sents evs = [(d, bytes)]"
proof -
  obtain ret b s where s: "Select_forever (ui_poll io) (ui_rd io) (ud_breaker u) (udp_sel True u) = Inr (ret, b, s)"
    "udp_frame u (u\<lparr>ud_breaker := b, ud_selector := s\<rparr>)" "0 \<le> ret" "ret \<noteq> 0" "\<not> IsBreak b s" "\<not> IsException b s"
    "Write_FD_ISSET (ud_socket u) s \<noteq> 0" "Exception_FD_ISSET (ud_socket u) s = 0"
    by (rule udp_select_ready[OF assms(1,2), of True]) (use assms(3,4) in \<open>auto simp: pipe_ready_def\<close>)
  then show ?thesis using assms(5,6) length_block_read[OF assms(6)] c_int_id[of "int len"] assms(7) unfolding UdpClient_DoSelect_def by (auto simp: Let_def)
qed

text \<open>
  The datagrams of a server go to the addresses they were queued with, those of a client to the address it has when they
  are sent.
\<close>

interpretation server: udp_class "UdpServer_DoSelect sk" "(=)"
  by unfold_locales (rule server_write server_read server_break server_accept; assumption)+

interpretation client: udp_class "UdpClient_DoSelect (-1) sk" "\<lambda>_ _. True"
  by unfold_locales (rule client_write client_read client_break client_accept; assumption)+

section \<open>Properties\<close>

fun server_op_ok :: "pton \<Rightarrow> ntop \<Rightarrow> (nat \<Rightarrow> bool) \<Rightarrow> int \<Rightarrow> server_op \<Rightarrow> bool" where
  "server_op_ok pton ntop mem_ok sock (SrvSend ret wr addr buf) \<longleftrightarrow> fits mem_ok (length buf) (AutoBuffer_new 128)"
| "server_op_ok pton ntop mem_ok sock (SrvSendIp ret wr opt ip port buf) \<longleftrightarrow>
     fits mem_ok (length buf) (AutoBuffer_new 128) \<and> (\<exists>a. addr_of_ip pton ntop ip port = Inr a)"
| "server_op_ok pton ntop mem_ok sock (SrvBroadcast ret wr opt port buf) \<longleftrightarrow>
     fits mem_ok (length buf) (AutoBuffer_new 128) \<and> (\<exists>a. addr_of_ip pton ntop IPV4_BROADCAST_IP port = Inr a)"
| "server_op_ok pton ntop mem_ok sock (SrvStop wr) \<longleftrightarrow> True"
| "server_op_ok pton ntop mem_ok sock (SrvRun io) \<longleftrightarrow> udp_io_ok io sock"

lemma UdpServer_SendAsync_inv:
  assumes "udp_inv (=) u tr" and "fits mem_ok (length buf) (AutoBuffer_new 128)"
  shows "\<exists>u' evs. UdpServer_SendAsync False ae mem_ok ret wr addr buf u = Inr (u', evs) \<and> udp_inv (=) u' (tr @ evs)"
  using assms udp_push_inv[OF assms, of ae ret wr addr] by (auto simp: UdpServer_SendAsync_def)

lemma udp_step_socket:
  assumes "udp_step dosel sk io u = Inr (u', evs)" and "\<And>io r w buf len a ret err u' evs. dosel io r w buf len a u = Inr (ret, err, u', evs) \<Longrightarrow> ud_socket u' = ud_socket u"
  shows "ud_socket u' = ud_socket u"
  using assms by (auto simp: udp_step_def udp_start_def udp_after_def udp_top_def bindE_eq_Inr ASSERT_eq_Inr
    split: udp_pc.splits if_splits list.splits)

lemma DoSelect_socket:
  "UdpServer_DoSelect sk io r w buf len a u = Inr (ret, err, u', evs) \<Longrightarrow> ud_socket u' = ud_socket u"
  "UdpClient_DoSelect ms sk io r w buf len x c = Inr (ret, err, c', evs') \<Longrightarrow> ud_socket c' = ud_socket c"
  by (auto simp: UdpServer_DoSelect_def UdpClient_DoSelect_def Let_def bindE_eq_Inr ASSERT_eq_Inr split: if_splits prod.splits)

lemma RunLoop_socket:
  "UdpServer_RunLoop sk io u = Inr (u', evs) \<Longrightarrow> ud_socket u' = ud_socket u"
  "UdpClient_RunLoop sk io c = Inr (c', evs') \<Longrightarrow> ud_socket c' = ud_socket c"
  unfolding UdpServer_RunLoop_def UdpClient_RunLoop_def by (erule udp_step_socket, erule DoSelect_socket)+

lemma SendAsync_socket:
  "UdpServer_SendAsync sk ae mem_ok ret wr addr buf u = Inr (u', evs) \<Longrightarrow> ud_socket u' = ud_socket u"
  "UdpClient_SendAsync sk ae mem_ok ret wr buf c = Inr (c', evs') \<Longrightarrow> ud_socket c' = ud_socket c"
  by (auto simp: UdpServer_SendAsync_def UdpClient_SendAsync_def udp_push_def Let_def bindE_eq_Inr ASSERT_eq_Inr split: if_splits)

lemma server_exec_inv:
  assumes "udp_inv (=) u tr" and "server_op_ok pton ntop mem_ok (ud_socket u) op"
  shows "\<exists>u' evs. server_exec pton ntop ae mem_ok op u = Inr (u', evs) \<and> udp_inv (=) u' (tr @ evs) \<and> ud_socket u' = ud_socket u"
proof (cases op)
  case (SrvSend ret wr addr buf)
  then show ?thesis using UdpServer_SendAsync_inv[OF assms(1), of mem_ok buf ae ret wr addr] SendAsync_socket(1) assms(2) by auto
next
  case (SrvSendIp ret wr opt ip port buf)
  then obtain a where "addr_of_ip pton ntop ip port = Inr a" using assms(2) by auto
  then show ?thesis using UdpServer_SendAsync_inv[OF assms(1), of mem_ok buf ae ret wr a] SendAsync_socket(1) assms SrvSendIp
    by (auto simp: UdpServer_SendAsync_ip_def)
next
  case (SrvBroadcast ret wr opt port buf)
  then obtain a where "addr_of_ip pton ntop IPV4_BROADCAST_IP port = Inr a" using assms(2) by auto
  then show ?thesis using UdpServer_SendAsync_inv[OF assms(1), of mem_ok buf ae ret wr a] SendAsync_socket(1) assms SrvBroadcast
    by (auto simp: UdpServer_SendBroadcast_def)
next
  case (SrvStop wr)
  then show ?thesis using udp_stop_inv[OF assms(1)] by (auto simp: udp_stop_def)
next
  case (SrvRun io)
  then show ?thesis using server.step_inv[OF assms(1), of io False False] RunLoop_socket(1)[of False io u] assms(2)
    by (auto simp: UdpServer_RunLoop_def)
qed

lemma server_run_inv:
  assumes "udp_inv (=) u tr" and "\<forall>op\<in>set ops. server_op_ok pton ntop mem_ok (ud_socket u) op"
  shows "\<exists>u' evs. server_run pton ntop ae mem_ok ops u = Inr (u', evs) \<and> udp_inv (=) u' (tr @ evs)"
  using assms
proof (induction ops arbitrary: u tr)
  case (Cons op ops)
  obtain u1 evs1 where 1: "server_exec pton ntop ae mem_ok op u = Inr (u1, evs1)" "udp_inv (=) u1 (tr @ evs1)" "ud_socket u1 = ud_socket u"
    using server_exec_inv[OF Cons.prems(1), of pton ntop mem_ok op ae] Cons.prems(2) by auto
  obtain u2 evs2 where "server_run pton ntop ae mem_ok ops u1 = Inr (u2, evs2)" "udp_inv (=) u2 ((tr @ evs1) @ evs2)"
    using Cons.IH[OF 1(2)] unfolding 1(3) using Cons.prems(2) by auto
  with 1 show ?case by auto
qed simp

lemma delivered_eq: "delivered (=) xs ys \<longleftrightarrow> xs = ys"
  by (auto simp: delivered_def list_all2_conv_all_nth case_prod_beta prod_eq_iff intro: nth_equalityI)

lemma server_reachable:
  assumes "UdpServer_new sock bnd ret event brk = (u0, evs0)" and "0 \<le> sock" and "0 \<le> BreakerFD brk" and "sock \<noteq> BreakerFD brk"
    and "\<forall>op\<in>set ops. server_op_ok pton ntop mem_ok sock op"
  shows "\<exists>u tr. server_run pton ntop ae mem_ok ops u0 = Inr (u, tr) \<and> udp_inv (=) u tr"
proof -
  have "udp_inv (=) u0 []" "ud_socket u0 = sock"
    using assms(1-4) by (auto simp: UdpServer_new_def UdpServer_InitSocket_def udp_inv_def udp_fds_def udp_pc_ok_def udp_pending_def grams_def delivered_def
      split: if_splits)
  from server_run_inv[OF this(1), of ops pton ntop mem_ok ae] this(2) assms(5) show ?thesis by simp
qed

lemma server_run_steps: "server_run pton ntop ae mem_ok (replicate n (SrvRun io)) u = udp_steps (UdpServer_DoSelect False) False io n u"
  by (induction n arbitrary: u) (simp_all add: UdpServer_RunLoop_def)

text \<open>A system that takes every datagram and has none to read.\<close>

definition demo_udp_io :: udp_io where
  "demo_udp_io = \<lparr>ui_poll = poll_ready (\<lambda>fd. if fd = 7 then POLLOUT else 0), ui_rd = -1, ui_errno = 0, ui_sendto = int,
     ui_recvfrom = (\<lambda>_. (-1, [], SaUnspec))\<rparr>"

text \<open>The same, as an answer for any set of descriptors.\<close>

definition demo_udp_any :: udp_io where
  "demo_udp_any = demo_udp_io\<lparr>ui_poll := (\<lambda>v _. (1, poll_fds (\<lambda>fd. if fd = 7 then POLLOUT else 0) v, 0))\<rparr>"

lemma demo_udp_any_ok: "udp_io_ok demo_udp_any 7"
  by (auto simp: udp_io_ok_def demo_udp_any_def demo_udp_io_def)

definition demo_udp_ops :: "server_op list" where
  "demo_udp_ops = [SrvSend 0 (-1) (SaIn 80 [10, 0, 0, 1]) [1, 2, 3], SrvSend 0 (-1) (SaIn 80 [10, 0, 0, 2]) [4]]"

abbreviation demo_udp_run :: "server_op list \<Rightarrow> UdpServer \<Rightarrow> (UdpServer \<times> sockaddr udp_event list) cres" where
  "demo_udp_run \<equiv> server_run (socket_inet_pton (\<lambda>_ _. 0)) (socket_inet_ntop 46) True (\<lambda>_. True)"

abbreviation demo_udp_server :: UdpServer where
  "demo_udp_server \<equiv> fst (UdpServer_new 7 0 0 True demo_breaker)"

lemma demo_fits: "n \<le> 128 \<Longrightarrow> fits (\<lambda>_. True) n (AutoBuffer_new 128)"
  by (auto simp: fits_def AutoBuffer_new_def round_up_def)

lemma demo_udp_state:
  "\<exists>u tr. demo_udp_run (demo_udp_ops @ [SrvRun demo_udp_any]) demo_udp_server = Inr (u, tr)
    \<and> ud_pc u = UpTop \<and> BreakerFD (ud_breaker u) = 3 \<and> ud_socket u = 7 \<and> length (ud_list_buffer u) = 2"
proof -
  have ex: "\<exists>b. ab_Write True (\<lambda>_. True) (Some bs) (length bs) (AutoBuffer_new 128) = Inr b" if "length bs \<le> 128" for bs
    by (rule Write_ok[of "AutoBuffer_new 128" "\<lambda>_. True" bs True]) (use demo_fits[OF that] in \<open>auto simp: AutoBuffer_new_def ab_inv_def\<close>)
  obtain b1 b2 where "ab_Write True (\<lambda>_. True) (Some [1, 2, 3]) (Suc (Suc (Suc 0))) (AutoBuffer_new 128) = Inr b1"
    "ab_Write True (\<lambda>_. True) (Some [4]) (Suc 0) (AutoBuffer_new 128) = Inr b2" using ex[of "[1, 2, 3]"] ex[of "[4]"] by auto
  then show ?thesis
    by (simp add: demo_udp_ops_def UdpServer_SendAsync_def udp_push_def UdpServer_new_def UdpServer_InitSocket_def UdpServer_RunLoop_def udp_step_def
      udp_start_def Break_def BreakerFD_def demo_breaker_def)
qed

text \<open>
  C15: a \<open>UdpServer\<close> sends every datagram at most once, in the order in which they were queued, whole and to its own
  address. However the calls of other threads and the steps of its thread are interleaved, breaks and failing system calls
  included, the operations do not fault, and the datagrams accepted so far are those sent followed by those
  still in the queue: nothing is lost, repeated or mixed up.
\<close>

theorem UdpServer_in_order:
  assumes "UdpServer_new sock bnd ret event brk = (u0, evs0)" and "0 \<le> sock" and "0 \<le> BreakerFD brk" and "sock \<noteq> BreakerFD brk"
    and "\<forall>op\<in>set ops. server_op_ok pton ntop mem_ok sock op"
  shows "\<exists>u tr. server_run pton ntop ae mem_ok ops u0 = Inr (u, tr) \<and> queued tr = sents tr @ grams (udp_pending u)"
  using server_reachable[OF assms, of ae] by (auto simp: udp_inv_def delivered_eq)

theorem UdpServer_in_order_witness:
  "\<exists>u tr. demo_udp_run (demo_udp_ops @ [SrvRun demo_udp_any, SrvRun demo_udp_any]) demo_udp_server = Inr (u, tr) \<and> queued tr = sents tr @ grams (udp_pending u)"
proof -
  have n: "UdpServer_new 7 0 0 True demo_breaker = (demo_udp_server, snd (UdpServer_new 7 0 0 True demo_breaker))" by simp
  have b: "0 \<le> BreakerFD demo_breaker" "7 \<noteq> BreakerFD demo_breaker" by (simp_all add: demo_breaker_def BreakerFD_def)
  have "\<forall>op\<in>set (demo_udp_ops @ [SrvRun demo_udp_any, SrvRun demo_udp_any]).
      server_op_ok (socket_inet_pton (\<lambda>_ _. 0)) (socket_inet_ntop 46) (\<lambda>_. True) 7 op"
    by (simp add: demo_udp_ops_def demo_fits demo_udp_any_ok)
  from UdpServer_in_order[OF n _ b this, of True] show ?thesis by simp
qed

text \<open>
  C17: queued datagrams go out. In any state that a server can reach with its thread at the top of the loop, if the socket
  takes datagrams and the breaker is not broken, three steps per queued datagram send them all, in order and to
  their addresses, and leave the queue empty.
\<close>

theorem UdpServer_drains:
  assumes "UdpServer_new sock bnd ret event brk = (u0, evs0)" and "0 \<le> sock" and "0 \<le> BreakerFD brk" and "sock \<noteq> BreakerFD brk"
    and "\<forall>op\<in>set ops. server_op_ok pton ntop mem_ok sock op" and "server_run pton ntop ae mem_ok ops u0 = Inr (u, tr)"
    and "ud_pc u = UpTop" and "takes io u"
  shows "\<exists>u' evs. server_run pton ntop ae mem_ok (replicate (3 * length (ud_list_buffer u)) (SrvRun io)) u = Inr (u', evs)
    \<and> ud_list_buffer u' = [] \<and> sents (tr @ evs) = queued tr"
proof -
  have inv: "udp_inv (=) u tr" using server_reachable[OF assms(1-5), of ae] assms(6) by auto
  then have q: "queued tr = sents tr @ grams (ud_list_buffer u)" using assms(7) by (auto simp: udp_inv_def delivered_eq udp_pending_def)
  have "udp_fds u" "list_all gram_ok (ud_list_buffer u)" using inv by (simp_all add: udp_inv_def)
  from server.queue_drains[OF this assms(7,8), of False False] q show ?thesis unfolding server_run_steps by (auto simp: delivered_eq)
qed

text \<open>
  C18: destroying a server ends its thread. In any reachable state, once the destructor has cleared \<open>event_\<close> and broken the
  breaker, and if \<open>poll\<close> sees the break, the thread has ended after at most five more steps, whatever it was
  doing, so that the \<open>join\<close> returns; it makes no callback and sends nothing on the way.
\<close>

theorem UdpServer_stop_ends:
  assumes "UdpServer_new sock bnd ret event brk = (u0, evs0)" and "0 \<le> sock" and "0 \<le> BreakerFD brk" and "sock \<noteq> BreakerFD brk"
    and "\<forall>op\<in>set ops. server_op_ok pton ntop mem_ok sock op" and "server_run pton ntop ae mem_ok ops u0 = Inr (u, tr)"
    and "ui_poll io = poll_ready rdy" and "rdy (BreakerFD (ud_breaker u)) = pipe_ready 1"
  shows "\<exists>u'. server_run pton ntop ae mem_ok (SrvStop 1 # replicate 5 (SrvRun io)) u = Inr (u', []) \<and> ud_pc u' = UpIdle"
proof -
  have inv: "udp_inv (=) u tr" using server_reachable[OF assms(1-5), of ae] assms(6) by auto
  show ?thesis
  proof (cases "ud_pc u = UpIdle")
    case True
    then show ?thesis using server.idle_stays[of "udp_stop 1 u" False False io 5] server_run_steps[of pton ntop ae mem_ok 5 io "udp_stop 1 u"]
      by (simp add: udp_stop_def)
  next
    case False
    then have "\<not> ud_event (udp_stop 1 u)" "BreakerFD (ud_breaker (udp_stop 1 u)) = BreakerFD (ud_breaker u)" by (simp_all add: udp_stop_def)
    then show ?thesis using server.stop_ends[OF udp_stop_inv[OF inv, of 1] _ assms(7), of False False] assms(8)
      server_run_steps[of pton ntop ae mem_ok 5 io "udp_stop 1 u"] by auto
  qed
qed

lemma demo_udp_ok:
  "UdpServer_new 7 0 0 True demo_breaker = (demo_udp_server, snd (UdpServer_new 7 0 0 True demo_breaker))"
  "0 \<le> BreakerFD demo_breaker" "7 \<noteq> BreakerFD demo_breaker"
  "\<forall>op\<in>set (demo_udp_ops @ [SrvRun demo_udp_any]). server_op_ok (socket_inet_pton (\<lambda>_ _. 0)) (socket_inet_ntop 46) (\<lambda>_. True) 7 op"
  by (simp_all add: demo_breaker_def BreakerFD_def demo_udp_ops_def demo_fits demo_udp_any_ok)

theorem UdpServer_drains_witness:
  "\<exists>u tr u' evs. demo_udp_run (demo_udp_ops @ [SrvRun demo_udp_any]) demo_udp_server = Inr (u, tr) \<and> length (ud_list_buffer u) = 2
    \<and> demo_udp_run (replicate 6 (SrvRun demo_udp_io)) u = Inr (u', evs) \<and> ud_list_buffer u' = [] \<and> sents (tr @ evs) = queued tr"
proof -
  obtain u tr where u: "demo_udp_run (demo_udp_ops @ [SrvRun demo_udp_any]) demo_udp_server = Inr (u, tr)"
    "ud_pc u = UpTop" "BreakerFD (ud_breaker u) = 3" "ud_socket u = 7" "length (ud_list_buffer u) = 2" using demo_udp_state by blast
  have "takes demo_udp_io u" using u(3,4) by (auto simp: takes_def demo_udp_io_def pipe_ready_def)
  from UdpServer_drains[OF demo_udp_ok(1) _ demo_udp_ok(2-4) u(1,2) this] u show ?thesis by auto
qed

theorem UdpServer_stop_ends_witness:
  "\<exists>u tr u'. demo_udp_run (demo_udp_ops @ [SrvRun demo_udp_any]) demo_udp_server = Inr (u, tr) \<and> ud_pc u = UpTop
    \<and> demo_udp_run (SrvStop 1 # replicate 5 (SrvRun (demo_udp_io\<lparr>ui_poll := poll_ready (\<lambda>_. pipe_ready 1)\<rparr>))) u = Inr (u', []) \<and> ud_pc u' = UpIdle"
proof -
  obtain u tr where u: "demo_udp_run (demo_udp_ops @ [SrvRun demo_udp_any]) demo_udp_server = Inr (u, tr)" "ud_pc u = UpTop"
    using demo_udp_state by blast
  have io: "(0::int) \<le> 7" "ui_poll (demo_udp_io\<lparr>ui_poll := poll_ready (\<lambda>_. pipe_ready 1)\<rparr>) = poll_ready (\<lambda>_. pipe_ready 1)" by simp_all
  from UdpServer_stop_ends[OF demo_udp_ok(1) io(1) demo_udp_ok(2-4) u(1) io(2) refl] u show ?thesis by blast
qed

section \<open>The client\<close>

fun udp_client_op_ok :: "pton \<Rightarrow> ntop \<Rightarrow> (nat \<Rightarrow> bool) \<Rightarrow> int \<Rightarrow> udp_client_op \<Rightarrow> bool" where
  "udp_client_op_ok pton ntop mem_ok sock (CliSend ret wr buf) \<longleftrightarrow> fits mem_ok (length buf) (AutoBuffer_new 128)"
| "udp_client_op_ok pton ntop mem_ok sock (CliSetIpPort ip port) \<longleftrightarrow> (\<exists>a. addr_of_ip pton ntop ip port = Inr a)"
| "udp_client_op_ok pton ntop mem_ok sock (CliStop wr) \<longleftrightarrow> True"
| "udp_client_op_ok pton ntop mem_ok sock (CliRun io) \<longleftrightarrow> udp_io_ok io sock"

lemma UdpClient_SendAsync_inv:
  assumes "udp_inv (\<lambda>_ _. True) u tr" and "fits mem_ok (length buf) (AutoBuffer_new 128)"
  shows "\<exists>u' evs. UdpClient_SendAsync False ae mem_ok ret wr buf u = Inr (u', evs) \<and> udp_inv (\<lambda>_ _. True) u' (tr @ evs)"
  using assms udp_push_inv[OF assms, of ae ret wr "()"] by (auto simp: UdpClient_SendAsync_def)

lemma udp_client_exec_inv:
  assumes "udp_inv (\<lambda>_ _. True) u tr" and "udp_client_op_ok pton ntop mem_ok (ud_socket u) op"
  shows "\<exists>u' evs. udp_client_exec pton ntop ae mem_ok op u = Inr (u', evs) \<and> udp_inv (\<lambda>_ _. True) u' (tr @ evs) \<and> ud_socket u' = ud_socket u"
proof (cases op)
  case (CliSend ret wr buf)
  then show ?thesis using UdpClient_SendAsync_inv[OF assms(1), of mem_ok buf ae ret wr] SendAsync_socket(2) assms(2) by auto
next
  case (CliSetIpPort ip port)
  then obtain a where a: "addr_of_ip pton ntop ip port = Inr a" using assms(2) by auto
  have "udp_inv (\<lambda>_ _. True) (u\<lparr>uc_addr := a\<rparr>) tr"
    using assms(1) by (cases "ud_pc u") (auto simp: udp_inv_def udp_fds_def udp_pc_ok_def udp_pending_def split: bool.splits)
  then show ?thesis using a CliSetIpPort by (auto simp: SetIpPort_def)
next
  case (CliStop wr)
  then show ?thesis using udp_stop_inv[OF assms(1)] by (auto simp: udp_stop_def)
next
  case (CliRun io)
  then show ?thesis using client.step_inv[OF assms(1), of io False False] RunLoop_socket(2)[of False io u] assms(2)
    by (auto simp: UdpClient_RunLoop_def)
qed

lemma udp_client_run_inv:
  assumes "udp_inv (\<lambda>_ _. True) u tr" and "\<forall>op\<in>set ops. udp_client_op_ok pton ntop mem_ok (ud_socket u) op"
  shows "\<exists>u' evs. udp_client_run pton ntop ae mem_ok ops u = Inr (u', evs) \<and> udp_inv (\<lambda>_ _. True) u' (tr @ evs)"
  using assms
proof (induction ops arbitrary: u tr)
  case (Cons op ops)
  obtain u1 evs1 where 1: "udp_client_exec pton ntop ae mem_ok op u = Inr (u1, evs1)" "udp_inv (\<lambda>_ _. True) u1 (tr @ evs1)" "ud_socket u1 = ud_socket u"
    using udp_client_exec_inv[OF Cons.prems(1), of pton ntop mem_ok op ae] Cons.prems(2) by auto
  obtain u2 evs2 where "udp_client_run pton ntop ae mem_ok ops u1 = Inr (u2, evs2)" "udp_inv (\<lambda>_ _. True) u2 ((tr @ evs1) @ evs2)"
    using Cons.IH[OF 1(2)] unfolding 1(3) using Cons.prems(2) by auto
  with 1 show ?case by auto
qed simp

lemma delivered_any: "delivered (\<lambda>_ _. True) xs ys \<longleftrightarrow> map snd xs = map snd ys"
  by (auto simp: delivered_def list_all2_conv_all_nth case_prod_beta list_eq_iff_nth_eq)

text \<open>
  C16: a \<open>UdpClient\<close> sends every datagram at most once, whole and in the order in which they were queued, however the calls
  of other threads, changes of the destination included, and the steps of its thread are interleaved; no operation
  faults, and the datagrams accepted so far are those sent followed by those still in the queue.
\<close>

theorem UdpClient_in_order:
  assumes "UdpClient_new pton ntop sock ip port event brk = Inr (u0, evs0)" and "0 \<le> sock" and "0 \<le> BreakerFD brk" and "sock \<noteq> BreakerFD brk"
    and "\<forall>op\<in>set ops. udp_client_op_ok pton ntop mem_ok sock op"
  shows "\<exists>u tr. udp_client_run pton ntop ae mem_ok ops u0 = Inr (u, tr)
    \<and> map snd (queued tr) = map snd (sents tr) @ map (ab_contents \<circ> fst) (udp_pending u)"
proof -
  have "udp_inv (\<lambda>_ _. True) u0 []" "ud_socket u0 = sock"
    using assms(1-4) by (auto simp: UdpClient_new_def UdpClient_InitSocket_def bindE_eq_Inr Let_def udp_inv_def udp_fds_def udp_pc_ok_def udp_pending_def grams_def
      delivered_def split: if_splits)
  moreover have "map snd (grams xs) = map (ab_contents \<circ> fst) xs" for xs :: "(AutoBuffer \<times> unit) list" by (auto simp: grams_def)
  ultimately show ?thesis using udp_client_run_inv[of u0 "[]" ops pton ntop mem_ok ae] assms(5) by (fastforce simp: udp_inv_def delivered_any)
qed

theorem UdpClient_in_order_witness:
  "\<exists>u0 evs0 u tr. UdpClient_new (\<lambda>_ _. Inr (Some [10, 0, 0, 1])) (\<lambda>_ _ _. Inr None) 7 ''10.0.0.1'' 80 True demo_breaker = Inr (u0, evs0)
    \<and> udp_client_run (\<lambda>_ _. Inr (Some [10, 0, 0, 1])) (\<lambda>_ _ _. Inr None) True (\<lambda>_. True) [CliSend 0 1 [1, 2], CliRun demo_udp_any, CliRun demo_udp_any] u0 = Inr (u, tr)
    \<and> map snd (queued tr) = map snd (sents tr) @ map (ab_contents \<circ> fst) (udp_pending u)"
proof -
  obtain u0 evs0 where n: "UdpClient_new (\<lambda>_ _. Inr (Some [10, 0, 0, 1])) (\<lambda>_ _ _. Inr None) 7 ''10.0.0.1'' 80 True demo_breaker = Inr (u0, evs0)"
    by (auto simp: UdpClient_new_def UdpClient_InitSocket_def addr_of_ip_def sa_new_ip_def sa_init_def text_of_def Let_def)
  have "\<forall>op\<in>set [CliSend 0 1 [1, 2], CliRun demo_udp_any, CliRun demo_udp_any].
      udp_client_op_ok (\<lambda>_ _. Inr (Some [10, 0, 0, 1])) (\<lambda>_ _ _. Inr None) (\<lambda>_. True) 7 op" by (simp add: demo_fits demo_udp_any_ok)
  from UdpClient_in_order[OF n _ demo_udp_ok(2,3) this, of True] n show ?thesis by auto
qed

section \<open>Findings\<close>

text \<open>
  A break that falls between \<open>poll\<close> and \<open>Clear\<close> is read from the pipe although it was not reported: the thread of a server that is
  being destroyed goes on and waits for a datagram, with nothing left in the pipe to wake it up.
\<close>

theorem Udp_break_lost:
  assumes "ud_pc u = UpSelect True buf len addr" and "udp_fds u" and "ui_poll io = poll_ready rdy" and "rdy (BreakerFD (ud_breaker u)) = pipe_ready 0"
    and "rdy (ud_socket u) = POLLOUT" and "ui_sendto io len = int len" and "block_read buf 0 len = Inr bytes" and "len < 2147483648"
    and "ui_rd io = 1" and "ss_autoclear (ud_selector u)" and "ud_list_buffer u = [x]" and "addr = Some a"
  shows "\<exists>u' evs. server_run pton ntop ae mem_ok [SrvStop 1, SrvRun io, SrvRun io, SrvRun io] u = Inr (u', evs)
    \<and> (\<exists>buf len. ud_pc u' = UpSelect False buf len None) \<and> \<not> ud_event u' \<and> \<not> brk_broken (ud_breaker u')"
proof -
  let ?u = "udp_stop 1 u"
  have u: "udp_fds ?u" "BreakerFD (ud_breaker ?u) = BreakerFD (ud_breaker u)" "ud_socket ?u = ud_socket u" "ud_pc ?u = ud_pc u" "\<not> ud_event ?u"
    "ud_list_buffer ?u = [x]" "ss_autoclear (ud_selector ?u)"
    using assms(1,2,10,11) by (simp_all add: udp_stop_def udp_fds_def)
  obtain u1 evs d where d: "UdpServer_DoSelect False io False True buf len (Some a) ?u = Inr (int len, 0, u1, evs)" "udp_frame ?u u1"
    using server_accept[OF u(1) assms(3), unfolded u(2,3), OF assms(4-8), of False a] by blast
  have "\<not> brk_broken (ud_breaker u1)"
    using d(1) assms(9) u(7) by (auto simp: UdpServer_DoSelect_def Let_def bindE_eq_Inr Select_forever_def Select_def Clear_def Exception_FD_SET_def
      Write_FD_SET_def PreSelect_def split: if_splits prod.splits)
  then show ?thesis using d u udp_frame_inv[OF d(2) u(1)] assms(1,12)
    by (simp add: UdpServer_RunLoop_def udp_step_def udp_after_def udp_top_def)
qed

text \<open>\<open>ReadBlock\<close> does not use its time limit.\<close>

theorem ReadBlock_ignores_timeout: "ReadBlock sk io buf t1 u = ReadBlock sk io buf t2 u"
  by (simp add: ReadBlock_def)

end
